theory Spec2Isabelle
  imports Complex_Main "HOL-Library.Multiset"
begin

section \<open>i18n.js: language detection and translation lookup\<close>

text \<open>
  JavaScript numbers are modelled as real numbers (no rounding), except in the grid of
  \<open>generateNetworkData\<close>, where a division by zero is possible and the numbers carry
  NaN and the infinities; strings as \<open>string\<close>; \<open>undefined\<close> and \<open>null\<close> results
  of lookups as \<open>None\<close>.
\<close>

subsection \<open>String.prototype.split with a one-character separator\<close>

fun splitOn :: "char \<Rightarrow> string \<Rightarrow> string list" where
  "splitOn c [] = [[]]"
| "splitOn c (x # xs) =
     (if x = c then [] # splitOn c xs
      else (case splitOn c xs of
              [] \<Rightarrow> [[x]]
            | w # ws \<Rightarrow> (x # w) # ws))"

subsection \<open>The I18n object's constants\<close>

definition supportedLanguages :: "string list" where
  "supportedLanguages = [''en'', ''es'', ''de'', ''fr'', ''it'', ''pt'']"

definition fallbackLanguage :: string where
  "fallbackLanguage = ''en''"

definition countryToLanguage :: "(string \<times> string) list" where
  "countryToLanguage =
     [(''US'', ''en''), (''GB'', ''en''), (''CA'', ''en''), (''AU'', ''en''),
      (''NZ'', ''en''), (''IE'', ''en''),
      (''ES'', ''es''), (''MX'', ''es''), (''AR'', ''es''), (''CO'', ''es''),
      (''CL'', ''es''), (''PE'', ''es''), (''VE'', ''es''),
      (''DE'', ''de''), (''AT'', ''de''), (''CH'', ''de''),
      (''FR'', ''fr''), (''BE'', ''fr''), (''LU'', ''fr''),
      (''IT'', ''it''),
      (''PT'', ''pt''), (''BR'', ''pt'')]"

subsection \<open>detectLanguage\<close>

text \<open>
  \<open>detectUserCountry\<close> awaits a network request; its outcome is an input of the model:
  the request failed (the \<open>catch\<close> branch returns \<open>null\<close>), or it delivered a
  country code.
\<close>

datatype geo_result = GeoFailed | GeoCountry string

fun detectUserCountry :: "geo_result \<Rightarrow> string option" where
  "detectUserCountry GeoFailed = None"
| "detectUserCountry (GeoCountry code) = Some code"

text \<open>
  \<open>this.countryToLanguage[countryCode] || null\<close>, read as a lookup among the table's own
  entries. For a code that names a member the table inherits (\<open>constructor\<close>, ...) the
  code's value is a function or an object instead of \<open>null\<close>; \<open>detectLanguage\<close> passes
  it to \<open>isLanguageSupported\<close>, which rejects whatever is not one of the six strings, so
  \<open>detectLanguage\<close> goes on to the browser language exactly as for \<open>null\<close>.
\<close>

definition getLanguageFromCountry :: "string \<Rightarrow> string option" where
  "getLanguageFromCountry countryCode = map_of countryToLanguage countryCode"

definition isLanguageSupported :: "string \<Rightarrow> bool" where
  "isLanguageSupported lang = (lang \<in> set supportedLanguages)"

text \<open>
  \<open>savedLanguage\<close> is what \<open>localStorage.getItem('preferredLanguage')\<close> returned
  (\<open>None\<close> for \<open>null\<close>), \<open>geo\<close> the outcome of the geolocation request,
  \<open>navLanguage\<close> the value of \<open>navigator.language\<close>. A string is truthy when it
  is not empty. The function returns at the first priority that applies; the two
  helpers are the rest of the function body after priority 1 and after priority 2.
\<close>

definition browserLanguageOf :: "string \<Rightarrow> string" where
  "browserLanguageOf navLanguage =
     (case splitOn (CHR ''-'') navLanguage of [] \<Rightarrow> [] | w # ws \<Rightarrow> w)"

definition detectFromBrowser :: "string \<Rightarrow> string" where
  "detectFromBrowser navLanguage =
     (if isLanguageSupported (browserLanguageOf navLanguage)
      then browserLanguageOf navLanguage
      else ''en'')"

definition detectFromGeo :: "geo_result \<Rightarrow> string \<Rightarrow> string" where
  "detectFromGeo geo navLanguage =
     (case detectUserCountry geo of
        None \<Rightarrow> detectFromBrowser navLanguage
      | Some countryCode \<Rightarrow>
          (if countryCode = [] then detectFromBrowser navLanguage
           else (case getLanguageFromCountry countryCode of
                   None \<Rightarrow> detectFromBrowser navLanguage
                 | Some geoLanguage \<Rightarrow>
                     (if geoLanguage \<noteq> [] \<and> isLanguageSupported geoLanguage
                      then geoLanguage
                      else detectFromBrowser navLanguage))))"

definition detectLanguage :: "string option \<Rightarrow> geo_result \<Rightarrow> string \<Rightarrow> string" where
  "detectLanguage savedLanguage geo navLanguage =
     (case savedLanguage of
        None \<Rightarrow> detectFromGeo geo navLanguage
      | Some saved \<Rightarrow>
          (if saved \<noteq> [] \<and> isLanguageSupported saved then saved
           else detectFromGeo geo navLanguage))"

subsection \<open>Translation data and the lookup t\<close>

text \<open>
  The translation files (\<open>./translations/<language>.json\<close>) are data loaded at run
  time; the model takes the loaded table as a parameter. A loaded file is a JSON value;
  an object is the association list of its own properties (each key once; where a list
  repeats a key, its first entry is the property).

  Property access \<open>value[k]\<close> also reads the prototype chain, so \<open>t\<close> can have in
  hand what no file holds: a built-in function (\<open>JFun\<close>, by its name), the object
  \<open>Object.prototype\<close> or the object \<open>Array.prototype\<close>.
\<close>

datatype json =
    JNull
  | JBool bool
  | JNum real
  | JStr string
  | JArr "json list"
  | JObj "(string \<times> json) list"
  | JFun string
  | JObjectPrototype
  | JArrayPrototype

text \<open>
  What the two prototypes hold is given by the browser (and by any script that added to
  them), so it is an input of the model: the own string-keyed properties of
  \<open>Object.prototype\<close> other than the accessor \<open>__proto__\<close>, and those of
  \<open>Array.prototype\<close> other than \<open>length\<close>.
\<close>

record js_env =
  objectMembers :: "(string \<times> json) list"
  arrayMembers :: "(string \<times> json) list"

text \<open>A JavaScript value in \<open>t\<close>: \<open>None\<close> is \<open>undefined\<close>.\<close>

type_synonym jsvalue = "json option"

fun truthy :: "jsvalue \<Rightarrow> bool" where
  "truthy None = False"
| "truthy (Some JNull) = False"
| "truthy (Some (JBool b)) = b"
| "truthy (Some (JNum n)) = (n \<noteq> 0)"
| "truthy (Some (JStr s)) = (s \<noteq> [])"
| "truthy (Some (JArr xs)) = True"
| "truthy (Some (JObj kvs)) = True"
| "truthy (Some (JFun f)) = True"
| "truthy (Some JObjectPrototype) = True"
| "truthy (Some JArrayPrototype) = True"

text \<open>An array index written as a property key: decimal digits, no leading zero.\<close>

definition isDigit :: "char \<Rightarrow> bool" where
  "isDigit c = (48 \<le> (of_char c :: nat) \<and> (of_char c :: nat) \<le> 57)"

definition arrayIndex :: "string \<Rightarrow> nat option" where
  "arrayIndex k =
     (if k \<noteq> [] \<and> list_all isDigit k \<and> (k = ''0'' \<or> hd k \<noteq> CHR ''0'')
      then Some (foldl (\<lambda>acc c. acc * 10 + ((of_char c :: nat) - 48)) 0 k)
      else None)"

text \<open>The own properties of an array: its length and its elements.\<close>

definition ownArray :: "json list \<Rightarrow> string \<Rightarrow> jsvalue" where
  "ownArray xs k =
     (if k = ''length'' then Some (JNum (real (length xs)))
      else (case arrayIndex k of
              None \<Rightarrow> None
            | Some i \<Rightarrow> (if i < length xs then Some (xs ! i) else None)))"

text \<open>
  A key looked up on \<open>Object.prototype\<close>, the end of every prototype chain here. The
  accessor \<open>__proto__\<close> returns the prototype of the object the access started at,
  which is the argument \<open>proto\<close>.
\<close>

definition inheritedObject :: "js_env \<Rightarrow> json \<Rightarrow> string \<Rightarrow> jsvalue" where
  "inheritedObject env proto k =
     (if k = ''__proto__'' then Some proto else map_of (objectMembers env) k)"

text \<open>
  \<open>value[k]\<close> for a value that passed \<open>value && typeof value === 'object'\<close>: the own
  property if there is one, otherwise the first one found along the prototype chain. A
  plain object inherits from \<open>Object.prototype\<close>, an array from \<open>Array.prototype\<close>
  and then \<open>Object.prototype\<close>; \<open>Array.prototype\<close> is itself an empty array;
  the prototype of \<open>Object.prototype\<close> is \<open>null\<close>.
\<close>

fun getProp :: "js_env \<Rightarrow> json \<Rightarrow> string \<Rightarrow> jsvalue" where
  "getProp env (JObj kvs) k =
     (case map_of kvs k of
        Some v \<Rightarrow> Some v
      | None \<Rightarrow> inheritedObject env JObjectPrototype k)"
| "getProp env (JArr xs) k =
     (case ownArray xs k of
        Some v \<Rightarrow> Some v
      | None \<Rightarrow>
          (case map_of (arrayMembers env) k of
             Some v \<Rightarrow> Some v
           | None \<Rightarrow> inheritedObject env JArrayPrototype k))"
| "getProp env JObjectPrototype k = inheritedObject env JNull k"
| "getProp env JArrayPrototype k =
     (case ownArray [] k of
        Some v \<Rightarrow> Some v
      | None \<Rightarrow>
          (case map_of (arrayMembers env) k of
             Some v \<Rightarrow> Some v
           | None \<Rightarrow> inheritedObject env JObjectPrototype k))"
| "getProp env v k = None"

text \<open>\<open>value && typeof value === 'object'\<close>: a function's \<open>typeof\<close> is \<open>'function'\<close>.\<close>

fun isObjectValue :: "jsvalue \<Rightarrow> bool" where
  "isObjectValue (Some (JObj kvs)) = True"
| "isObjectValue (Some (JArr xs)) = True"
| "isObjectValue (Some JObjectPrototype) = True"
| "isObjectValue (Some JArrayPrototype) = True"
| "isObjectValue v = False"

text \<open>
  The \<open>for (const k of keys)\<close> loop of \<open>t\<close>: \<open>None\<close> when the loop reaches its
  \<open>else\<close> branch (the value in hand is not an object), \<open>Some value\<close> when it runs
  to its end.
\<close>

fun walk :: "js_env \<Rightarrow> jsvalue \<Rightarrow> string list \<Rightarrow> jsvalue option" where
  "walk env v [] = Some v"
| "walk env v (k # ks) =
     (if isObjectValue v
      then (case v of None \<Rightarrow> None | Some obj \<Rightarrow> walk env (getProp env obj k) ks)
      else None)"

text \<open>\<open>value || key\<close>\<close>

definition orKey :: "jsvalue \<Rightarrow> string \<Rightarrow> json" where
  "orKey v key = (case v of Some j \<Rightarrow> (if truthy v then j else JStr key) | None \<Rightarrow> JStr key)"

text \<open>
  \<open>tables\<close> holds the own properties of \<open>this.translations\<close>: language to loaded
  file. \<open>this.translations\<close> is a plain object, so \<open>this.translations[language]\<close>
  for a name that is not loaded reads \<open>Object.prototype\<close>.
\<close>

type_synonym translation_tables = "string \<Rightarrow> json option"

definition tableOf :: "js_env \<Rightarrow> translation_tables \<Rightarrow> string \<Rightarrow> jsvalue" where
  "tableOf env tables language =
     (case tables language of
        Some v \<Rightarrow> Some v
      | None \<Rightarrow> inheritedObject env JObjectPrototype language)"

text \<open>\<open>t\<close> calls itself at most once, with the fallback language.\<close>

function t :: "js_env \<Rightarrow> translation_tables \<Rightarrow> string \<Rightarrow> string \<Rightarrow> json" where
  "t env tables key language =
     (case walk env (tableOf env tables language) (splitOn (CHR ''.'') key) of
        None \<Rightarrow>
          (if language \<noteq> fallbackLanguage then t env tables key fallbackLanguage
           else JStr key)
      | Some v \<Rightarrow> orKey v key)"
  by pat_completeness auto
termination
  by (relation "measure (\<lambda>(env, tables, key, language). if language = fallbackLanguage then 0 else 1)")
     auto

declare t.simps [simp del]

text \<open>Notions the statements about \<open>t\<close> use.\<close>

definition isString :: "json \<Rightarrow> bool" where
  "isString v = (case v of JStr s \<Rightarrow> True | _ \<Rightarrow> False)"

text \<open>
  What the loop of \<open>t\<close> finds at the key's path in the table of a language: \<open>None\<close>
  when the loop stops early.
\<close>

definition resolve :: "js_env \<Rightarrow> translation_tables \<Rightarrow> string \<Rightarrow> string \<Rightarrow> jsvalue option" where
  "resolve env tables language key =
     walk env (tableOf env tables language) (splitOn (CHR ''.'') key)"

definition exampleTables :: translation_tables where
  "exampleTables language =
     (if language = ''en'' then Some (JObj [(''nav'', JObj [(''home'', JStr ''Home'')])])
      else if language = ''es'' then Some (JObj [(''nav'', JObj [])])
      else None)"

text \<open>
  The members of \<open>Object.prototype\<close> that ECMAScript 5 lists, and some of those of
  \<open>Array.prototype\<close>; all are functions.
\<close>

definition exampleEnv :: js_env where
  "exampleEnv =
     \<lparr>objectMembers =
        [(''constructor'', JFun ''Object''), (''hasOwnProperty'', JFun ''hasOwnProperty''),
         (''isPrototypeOf'', JFun ''isPrototypeOf''),
         (''propertyIsEnumerable'', JFun ''propertyIsEnumerable''),
         (''toLocaleString'', JFun ''toLocaleString''), (''toString'', JFun ''toString''),
         (''valueOf'', JFun ''valueOf'')],
      arrayMembers =
        [(''constructor'', JFun ''Array''), (''concat'', JFun ''concat''),
         (''join'', JFun ''join''), (''map'', JFun ''map''), (''push'', JFun ''push''),
         (''slice'', JFun ''slice''), (''toString'', JFun ''toString'')]\<rparr>"

section \<open>fraud-graph-network.js: data model, camera, hit-testing, idle motion\<close>

subsection \<open>Configuration constants and utility functions\<close>

definition TOTAL_NODES :: int where "TOTAL_NODES = 500"
definition MULE_CLUSTERS :: nat where "MULE_CLUSTERS = 3"
definition NODES_PER_CLUSTER_MIN :: real where "NODES_PER_CLUSTER_MIN = 8"
definition NODES_PER_CLUSTER_MAX :: real where "NODES_PER_CLUSTER_MAX = 14"
definition NODE_RADIUS :: real where "NODE_RADIUS = 3"
definition NODE_RADIUS_HUB :: real where "NODE_RADIUS_HUB = 5"
definition ZOOM_LEVEL :: real where "ZOOM_LEVEL = 2"
definition ZOOM_DURATION :: real where "ZOOM_DURATION = 800"
definition IDLE_SPEED :: real where "IDLE_SPEED = 35 / 100"
definition EDGE_FLASH_PROBABILITY :: real where "EDGE_FLASH_PROBABILITY = 1 / 10000"
definition EDGE_FLASH_DURATION :: real where "EDGE_FLASH_DURATION = 400"
definition HOVER_RADIUS :: real where "HOVER_RADIUS = 15"

definition lerp :: "real \<Rightarrow> real \<Rightarrow> real \<Rightarrow> real" where
  "lerp a b f = a + (b - a) * f"

definition easeInOutCubic :: "real \<Rightarrow> real" where
  "easeInOutCubic p = (if p < 1 / 2 then 4 * p * p * p else 1 - (- 2 * p + 2) ^ 3 / 2)"

definition distance :: "real \<Rightarrow> real \<Rightarrow> real \<Rightarrow> real \<Rightarrow> real" where
  "distance x1 y1 x2 y2 = sqrt ((x2 - x1)\<^sup>2 + (y2 - y1)\<^sup>2)"

text \<open>
  \<open>randomRange(min, max)\<close> is \<open>Math.random() * (max - min) + min\<close>; the value
  \<open>Math.random()\<close> returned is the first argument.
\<close>

definition randomRange :: "real \<Rightarrow> real \<Rightarrow> real \<Rightarrow> real" where
  "randomRange r lo hi = r * (hi - lo) + lo"

subsection \<open>Nodes, edges, camera transform, widget state\<close>

text \<open>
  Source field names are kept where they do not clash: \<open>id\<close> is \<open>nid\<close>, \<open>x\<close> and
  \<open>y\<close> are \<open>posX\<close> and \<open>posY\<close> (of a node) and \<open>offsetX\<close> and \<open>offsetY\<close> (of
  the transform); an edge's \<open>isHighRisk\<close> and \<open>clusterId\<close> are \<open>edgeHighRisk\<close> and
  \<open>edgeClusterId\<close>. A flag the source leaves \<open>undefined\<close> is \<open>False\<close>. The account
  identifier is rendered from one \<open>Math.random()\<close> value; the model keeps that value.

  The type of a node's coordinates is a parameter. Camera, hit-testing and idle motion
  are modelled on nodes with real coordinates (\<open>node\<close>); \<open>generateNetworkData\<close> can
  store NaN in a coordinate, and its nodes have coordinates that can be NaN.
\<close>

record 'c node_of =
  nid :: nat
  posX :: 'c
  posY :: 'c
  baseX :: 'c
  baseY :: 'c
  vx :: real
  vy :: real
  radius :: real
  riskScore :: real
  accountId :: "real option"
  isHighRisk :: bool
  isHub :: bool
  clusterId :: "nat option"
  pulseOffset :: real
  isSatellite :: bool
  isInnocentNearCluster :: bool

type_synonym node = "real node_of"

record edge =
  source :: nat
  target :: nat
  edgeHighRisk :: bool
  atoRisk :: "real option"
  edgeClusterId :: "nat option"
  flashProgress :: real
  isFlashing :: bool

record transform =
  offsetX :: real
  offsetY :: real
  scale :: real
  targetScale :: real
  targetX :: real
  targetY :: real
  zoomProgress :: real
  isZooming :: bool
  focusedCluster :: "nat option"

text \<open>
  \<open>this.nodes\<close>, \<open>this.edges\<close> and \<open>this.muleClusters\<close>, the three fields
  \<open>generateNetworkData\<close> assigns, and the widget that holds them.
\<close>

record 'c network =
  nodes :: "'c node_of list"
  edges :: "edge list"
  muleClusters :: "'c node_of list list"

record widget = "real network" +
  hoveredNode :: "node option"
  hoveredEdge :: "edge option"
  selectedNode :: "node option"
  transform :: transform
  width :: real
  height :: real
  isMobile :: bool
  time :: nat

subsection \<open>Hit-testing\<close>

definition screenToCanvas :: "transform \<Rightarrow> real \<Rightarrow> real \<Rightarrow> real \<times> real" where
  "screenToCanvas tr screenX screenY =
     ((screenX - offsetX tr) / scale tr, (screenY - offsetY tr) / scale tr)"

text \<open>The loop of \<open>findNodeAtPosition\<close> runs from the last node to the first.\<close>

definition findNodeAtPosition :: "widget \<Rightarrow> real \<Rightarrow> real \<Rightarrow> node option" where
  "findNodeAtPosition w x y =
     (let canvasPos = screenToCanvas (transform w) x y;
          hoverRadius = HOVER_RADIUS / scale (transform w)
      in find (\<lambda>n. distance (fst canvasPos) (snd canvasPos) (posX n) (posY n) < hoverRadius)
           (rev (nodes w)))"

text \<open>
  The body of the loop of \<open>findEdgeAtPosition\<close> up to the distance: the point of the
  segment from the source node to the target node nearest to the probe position, by the
  clamped projection parameter, and the distance to it.
\<close>

definition projectionParam :: "real \<times> real \<Rightarrow> node \<Rightarrow> node \<Rightarrow> real" where
  "projectionParam canvasPos sourceNode targetNode =
     (let A = fst canvasPos - posX sourceNode;
          B = snd canvasPos - posY sourceNode;
          C = posX targetNode - posX sourceNode;
          D = posY targetNode - posY sourceNode;
          dot = A * C + B * D;
          lenSq = C * C + D * D
      in if lenSq \<noteq> 0 then dot / lenSq else - 1)"

definition nearestOnSegment :: "real \<times> real \<Rightarrow> node \<Rightarrow> node \<Rightarrow> real \<times> real" where
  "nearestOnSegment canvasPos sourceNode targetNode =
     (let C = posX targetNode - posX sourceNode;
          D = posY targetNode - posY sourceNode;
          param = projectionParam canvasPos sourceNode targetNode
      in if param < 0 then (posX sourceNode, posY sourceNode)
         else if param > 1 then (posX targetNode, posY targetNode)
         else (posX sourceNode + param * C, posY sourceNode + param * D))"

definition segmentDistance :: "real \<times> real \<Rightarrow> node \<Rightarrow> node \<Rightarrow> real" where
  "segmentDistance canvasPos sourceNode targetNode =
     (let nearest = nearestOnSegment canvasPos sourceNode targetNode
      in distance (fst canvasPos) (snd canvasPos) (fst nearest) (snd nearest))"

text \<open>
  \<open>this.nodes[edge.source]\<close> of an index past the end is \<open>undefined\<close>, and reading
  its \<open>x\<close> throws a TypeError.
\<close>

datatype js_error = TypeError

fun findEdgeLoop :: "node list \<Rightarrow> real \<times> real \<Rightarrow> real \<Rightarrow> edge list \<Rightarrow> js_error + edge option" where
  "findEdgeLoop ns canvasPos threshold [] = Inr None"
| "findEdgeLoop ns canvasPos threshold (e # es) =
     (if source e < length ns \<and> target e < length ns
      then (if segmentDistance canvasPos (ns ! source e) (ns ! target e) < threshold
               \<and> atoRisk e \<noteq> None
            then Inr (Some e)
            else findEdgeLoop ns canvasPos threshold es)
      else Inl TypeError)"

definition findEdgeAtPosition :: "widget \<Rightarrow> real \<Rightarrow> real \<Rightarrow> js_error + edge option" where
  "findEdgeAtPosition w x y =
     (if hoveredNode w \<noteq> None then Inr None
      else findEdgeLoop (nodes w) (screenToCanvas (transform w) x y)
             (8 / scale (transform w)) (edges w))"

text \<open>
  \<open>findClosestCluster\<close>: the first high-risk node at the least distance; the
  accumulator is \<open>closestNode\<close> with \<open>closestDist\<close>, \<open>None\<close> standing for the
  initial \<open>null\<close> with distance \<open>Infinity\<close>.
\<close>

fun closestLoop :: "real \<Rightarrow> real \<Rightarrow> (node \<times> real) option \<Rightarrow> node list \<Rightarrow> (node \<times> real) option" where
  "closestLoop x y acc [] = acc"
| "closestLoop x y acc (n # ns) =
     (if isHighRisk n
      then (let dist = distance x y (posX n) (posY n)
            in case acc of
                 None \<Rightarrow> closestLoop x y (Some (n, dist)) ns
               | Some (closestNode, closestDist) \<Rightarrow>
                   (if dist < closestDist then closestLoop x y (Some (n, dist)) ns
                    else closestLoop x y acc ns))
      else closestLoop x y acc ns)"

definition findClosestCluster :: "widget \<Rightarrow> real \<Rightarrow> real \<Rightarrow> node option" where
  "findClosestCluster w x y = map_option fst (closestLoop x y None (nodes w))"

subsection \<open>Camera: zoomToCluster, zoomOut, click and touch handlers\<close>

definition zoomToCluster :: "widget \<Rightarrow> node \<Rightarrow> widget" where
  "zoomToCluster w n =
     (let clusterNodes = filter (\<lambda>m. clusterId m = clusterId n) (nodes w);
          centerX = (if length clusterNodes > 0
                     then sum_list (map posX clusterNodes) / real (length clusterNodes)
                     else posX n);
          centerY = (if length clusterNodes > 0
                     then sum_list (map posY clusterNodes) / real (length clusterNodes)
                     else posY n)
      in w\<lparr>transform := (transform w)
             \<lparr>isZooming := True,
              zoomProgress := 0,
              focusedCluster := clusterId n,
              targetScale := ZOOM_LEVEL,
              targetX := width w / 2 - centerX * ZOOM_LEVEL,
              targetY := height w / 2 - centerY * ZOOM_LEVEL\<rparr>\<rparr>)"

definition zoomOut :: "widget \<Rightarrow> widget" where
  "zoomOut w =
     w\<lparr>transform := (transform w)
          \<lparr>isZooming := True,
           zoomProgress := 0,
           focusedCluster := None,
           targetScale := 1,
           targetX := 0,
           targetY := 0\<rparr>,
       selectedNode := None\<rparr>"

text \<open>\<open>x\<close> and \<open>y\<close> are the event's position relative to the canvas.\<close>

definition handleClick :: "widget \<Rightarrow> real \<Rightarrow> real \<Rightarrow> widget" where
  "handleClick w x y =
     (if focusedCluster (transform w) \<noteq> None
      then (zoomOut w)\<lparr>hoveredNode := None, hoveredEdge := None\<rparr>
      else (let canvasPos = screenToCanvas (transform w) x y
            in case findClosestCluster w (fst canvasPos) (snd canvasPos) of
                 None \<Rightarrow> w
               | Some closestCluster \<Rightarrow> zoomToCluster w closestCluster))"

text \<open>\<open>touches\<close> are the positions of the event's touch points.\<close>

definition handleTouchStart :: "widget \<Rightarrow> (real \<times> real) list \<Rightarrow> widget" where
  "handleTouchStart w touches =
     (case touches of
        [(x, y)] \<Rightarrow>
          (if focusedCluster (transform w) \<noteq> None
           then (zoomOut w)\<lparr>hoveredNode := None, hoveredEdge := None\<rparr>
           else (let canvasPos = screenToCanvas (transform w) x y
                 in case findClosestCluster w (fst canvasPos) (snd canvasPos) of
                      None \<Rightarrow> w
                    | Some closestCluster \<Rightarrow> zoomToCluster w closestCluster))
      | _ \<Rightarrow> w)"

text \<open>
  \<open>resetTransform\<close>. It is called at the end of \<open>handleResize\<close>, the handler of the
  window's \<open>resize\<close> event, after the canvas is resized and the network regenerated;
  it is the only part of \<open>handleResize\<close> that writes the transform. It does not
  write \<open>focusedCluster\<close>, \<open>isZooming\<close> or \<open>zoomProgress\<close>.
\<close>

definition resetTransform :: "widget \<Rightarrow> widget" where
  "resetTransform w =
     w\<lparr>transform := (transform w)
          \<lparr>offsetX := 0,
           offsetY := 0,
           scale := 1,
           targetX := 0,
           targetY := 0,
           targetScale := 1\<rparr>\<rparr>"

subsection \<open>update: zoom animation, idle motion, edge flashes\<close>

definition updateZoom :: "real \<Rightarrow> transform \<Rightarrow> transform" where
  "updateZoom deltaTime tr =
     (if isZooming tr
      then (let progress = zoomProgress tr + deltaTime / ZOOM_DURATION;
                tr1 = (if progress \<ge> 1 then tr\<lparr>zoomProgress := 1, isZooming := False\<rparr>
                       else tr\<lparr>zoomProgress := progress\<rparr>);
                eased = easeInOutCubic (zoomProgress tr1)
            in tr1\<lparr>scale := lerp (scale tr1) (targetScale tr1) eased,
                   offsetX := lerp (offsetX tr1) (targetX tr1) eased,
                   offsetY := lerp (offsetY tr1) (targetY tr1) eased\<rparr>)
      else tr)"

text \<open>
  One step of the idle-motion integrator for one coordinate: position \<open>p\<close>, rest
  position \<open>b\<close>, velocity \<open>v\<close>; \<open>r\<close> is the value \<open>Math.random()\<close> returned, so
  the noise term is \<open>(r - 0.5) * 0.05\<close> and is zero for \<open>r = 1/2\<close>.
\<close>

definition clampVel :: "real \<Rightarrow> real" where
  "clampVel v = max (- (3 / 2)) (min (3 / 2) v)"

definition idleAxis :: "real \<Rightarrow> real \<Rightarrow> real \<Rightarrow> real \<Rightarrow> real \<times> real" where
  "idleAxis r b p v =
     (let p1 = p + v * IDLE_SPEED;
          d = b - p1;
          v1 = v + d * (8 / 1000);
          v2 = v1 + (r - 1 / 2) * (5 / 100);
          v3 = v2 * (98 / 100)
      in (p1, clampVel v3))"

definition idleStep :: "real \<Rightarrow> real \<Rightarrow> node \<Rightarrow> node" where
  "idleStep rx ry n =
     (let ax = idleAxis rx (baseX n) (posX n) (vx n);
          ay = idleAxis ry (baseY n) (posY n) (vy n)
      in n\<lparr>posX := fst ax, posY := fst ay, vx := snd ax, vy := snd ay\<rparr>)"

definition flashStep :: "real \<Rightarrow> real \<Rightarrow> edge \<Rightarrow> edge" where
  "flashStep r deltaTime e =
     (let e1 = (if isFlashing e
                then (let p = flashProgress e + deltaTime / EDGE_FLASH_DURATION
                      in if p \<ge> 1 then e\<lparr>flashProgress := 0, isFlashing := False\<rparr>
                         else e\<lparr>flashProgress := p\<rparr>)
                else e)
      in if \<not> isFlashing e1 \<and> r < EDGE_FLASH_PROBABILITY
         then e1\<lparr>isFlashing := True, flashProgress := 0\<rparr>
         else e1)"

text \<open>
  One frame. The values \<open>Math.random()\<close> returns during the frame are inputs: for the
  node at index \<open>k\<close> the two noise draws, for the edge at index \<open>k\<close> the flash draw.
\<close>

definition update :: "(nat \<Rightarrow> real) \<Rightarrow> (nat \<Rightarrow> real) \<Rightarrow> (nat \<Rightarrow> real) \<Rightarrow> real \<Rightarrow> widget \<Rightarrow> widget" where
  "update noiseX noiseY flash deltaTime w =
     w\<lparr>time := time w + 1,
       transform := updateZoom deltaTime (transform w),
       nodes := map (\<lambda>(k, n). idleStep (noiseX k) (noiseY k) n) (enumerate 0 (nodes w)),
       edges := map (\<lambda>(k, e). flashStep (flash k) deltaTime e) (enumerate 0 (edges w))\<rparr>"

text \<open>The frames of a zoom transition, by their delta-times, in order.\<close>

definition zoomFrames :: "real list \<Rightarrow> transform \<Rightarrow> transform" where
  "zoomFrames deltas tr = foldl (\<lambda>s d. updateZoom d s) tr deltas"

text \<open>A transition under way from scale 1 to scale 2, before its first frame.\<close>

definition zoomStart :: transform where
  "zoomStart = \<lparr>offsetX = 0, offsetY = 0, scale = 1, targetScale = 2, targetX = 0,
                targetY = 0, zoomProgress = 0, isZooming = True, focusedCluster = Some 0\<rparr>"

text \<open>What every frame of the transition from scale 1 to scale 2 keeps.\<close>

definition zoomInv :: "transform \<Rightarrow> bool" where
  "zoomInv tr = (targetScale tr = 2 \<and> 1 \<le> scale tr \<and> scale tr \<le> 2 \<and>
     0 \<le> zoomProgress tr \<and> zoomProgress tr \<le> 1 \<and> (isZooming tr \<or> zoomProgress tr = 1))"

text \<open>A node at a position, its other fields as a resting low-risk node has them.\<close>

definition nodeAt :: "nat \<Rightarrow> real \<Rightarrow> real \<Rightarrow> node" where
  "nodeAt i x y =
     \<lparr>nid = i, posX = x, posY = y, baseX = x, baseY = y, vx = 0, vy = 0,
      radius = NODE_RADIUS, riskScore = 0, accountId = None, isHighRisk = False,
      isHub = False, clusterId = None, pulseOffset = 0, isSatellite = False,
      isInnocentNearCluster = False\<rparr>"

text \<open>The centroid of the nodes that carry a cluster id, as \<open>zoomToCluster\<close> sums it.\<close>

definition clusterCentroid :: "widget \<Rightarrow> nat option \<Rightarrow> real \<times> real" where
  "clusterCentroid w c =
     (let members = filter (\<lambda>m. clusterId m = c) (nodes w)
      in (sum_list (map posX members) / real (length members),
          sum_list (map posY members) / real (length members)))"

text \<open>The camera is idle-bound: the target of \<open>zoomOut\<close>.\<close>

definition targetsIdle :: "transform \<Rightarrow> bool" where
  "targetsIdle tr =
     (targetScale tr = 1 \<and> targetX tr = 0 \<and> targetY tr = 0 \<and> focusedCluster tr = None
      \<and> isZooming tr \<and> zoomProgress tr = 0)"

text \<open>The camera is bound for a cluster: its centroid shown at the centre at ZOOM_LEVEL.\<close>

definition targetsCluster :: "widget \<Rightarrow> nat option \<Rightarrow> transform \<Rightarrow> bool" where
  "targetsCluster w c tr =
     (targetScale tr = ZOOM_LEVEL \<and> focusedCluster tr = c
      \<and> fst (clusterCentroid w c) * targetScale tr + targetX tr = width w / 2
      \<and> snd (clusterCentroid w c) * targetScale tr + targetY tr = height w / 2
      \<and> isZooming tr \<and> zoomProgress tr = 0)"

definition exampleHub :: node where
  "exampleHub = (nodeAt 0 100 100)\<lparr>isHighRisk := True, clusterId := Some 0\<rparr>"

definition exampleWidget :: widget where
  "exampleWidget =
     \<lparr>nodes = [exampleHub,
               (nodeAt 1 120 100)\<lparr>isHighRisk := True, clusterId := Some 0\<rparr>,
               (nodeAt 2 500 300)\<lparr>isHighRisk := True, clusterId := Some 1\<rparr>,
               nodeAt 3 110 100],
      edges = [], muleClusters = [], hoveredNode = None, hoveredEdge = None,
      selectedNode = None,
      transform = \<lparr>offsetX = 0, offsetY = 0, scale = 1, targetScale = 1, targetX = 0,
                   targetY = 0, zoomProgress = 0, isZooming = False, focusedCluster = None\<rparr>,
      width = 800, height = 500, isMobile = False, time = 0\<rparr>"

text \<open>
  The example graph seen through a camera that is not at rest: scale 2, offset
  (-600, -300), no cluster focused. The screen point (200, 100) shows the canvas point
  (400, 200).
\<close>

definition pannedWidget :: widget where
  "pannedWidget =
     exampleWidget\<lparr>transform := (transform exampleWidget)
                      \<lparr>offsetX := - 600, offsetY := - 300, scale := 2\<rparr>\<rparr>"

text \<open>Where the camera is bound for: what the zoom animation moves towards.\<close>

definition cameraTargets :: "transform \<Rightarrow> real \<times> real \<times> real" where
  "cameraTargets tr = (targetScale tr, targetX tr, targetY tr)"

text \<open>
  The integrator step of one coordinate with the noise term zero, on the pair of
  position and velocity, and the quadratic form used to measure its distance from rest.
\<close>

definition axisStep :: "real \<Rightarrow> real \<times> real \<Rightarrow> real \<times> real" where
  "axisStep b s = idleAxis (1 / 2) b (fst s) (snd s)"

definition lyap :: "real \<Rightarrow> real \<times> real \<Rightarrow> real" where
  "lyap b s = 980 * (fst s - b)\<^sup>2 + 2843 * (fst s - b) * snd s + 43750 * (snd s)\<^sup>2"

section \<open>Dendrite simulation: calculatePhysicsState\<close>

definition PRESSURE_MIN :: real where "PRESSURE_MIN = 2"
definition PRESSURE_MAX :: real where "PRESSURE_MAX = 20"
definition ROUGHNESS_MIN :: real where "ROUGHNESS_MIN = 1 / 10"
definition ROUGHNESS_MAX :: real where "ROUGHNESS_MAX = 5"
definition VOID_THRESHOLD_PRESSURE :: real where "VOID_THRESHOLD_PRESSURE = 8"
definition DENDRITE_THRESHOLD_PRESSURE :: real where "DENDRITE_THRESHOLD_PRESSURE = 6"
definition ANODE_HEIGHT_RATIO :: real where "ANODE_HEIGHT_RATIO = 4 / 10"

text \<open>
  The utilities of this file: \<open>clamp(val, min, max)\<close>, and a \<open>lerp\<close> that clamps its
  parameter to the unit interval (named \<open>lerpClamped\<close> here; the fraud graph's
  \<open>lerp\<close> does not clamp).
\<close>

definition clamp :: "real \<Rightarrow> real \<Rightarrow> real \<Rightarrow> real" where
  "clamp val lo hi = max lo (min hi val)"

definition lerpClamped :: "real \<Rightarrow> real \<Rightarrow> real \<Rightarrow> real" where
  "lerpClamped a b f = a + (b - a) * max 0 (min 1 f)"

record ipoint =
  ptX :: real
  ptY :: real
  ptBaseY :: real

text \<open>The fields of the simulation object that \<open>calculatePhysicsState\<close> reads or writes.\<close>

record simulation =
  simHeight :: real
  animatedPressure :: real
  animatedRoughness :: real
  voidFraction :: real
  dendritePenetration :: real
  riskLevel :: real
  currentDensityMap :: "real list"
  interfacePoints :: "ipoint list"
  lithiumBottom :: "ipoint list"

text \<open>
  \<open>updateLithiumDeformation\<close> writes \<open>lithiumBottom[i].y\<close> for every index of
  \<open>interfacePoints\<close>; the two arrays have the same length (\<open>lithiumBottom\<close> is made as
  a copy of \<open>interfacePoints\<close>).
\<close>

definition updateLithiumDeformation :: "real \<Rightarrow> simulation \<Rightarrow> simulation" where
  "updateLithiumDeformation pressureNorm s =
     (let interfaceY = simHeight s * ANODE_HEIGHT_RATIO
      in s\<lparr>lithiumBottom :=
            map (\<lambda>(interfacePoint, bottom).
                   (let gapAtInterface = ptY interfacePoint - interfaceY
                    in if pressureNorm > 1 / 2
                       then (let fillFactor = (pressureNorm - 1 / 2) * 2
                             in bottom\<lparr>ptY := lerpClamped interfaceY (ptY interfacePoint) fillFactor\<rparr>)
                       else (let voidFactor = 1 - pressureNorm * 2;
                                 voidDepth = max 0 gapAtInterface * voidFactor * (8 / 10)
                             in bottom\<lparr>ptY := interfaceY - voidDepth * (1 / 2)\<rparr>)))
                (zip (interfacePoints s) (lithiumBottom s))\<rparr>)"

definition updateCurrentDensityMap :: "real \<Rightarrow> real \<Rightarrow> simulation \<Rightarrow> simulation" where
  "updateCurrentDensityMap roughnessNorm pressureNorm s =
     (let focusingFactor = (1 - pressureNorm) * roughnessNorm
      in s\<lparr>currentDensityMap :=
            map (\<lambda>point.
                   (let interfaceY = simHeight s * ANODE_HEIGHT_RATIO;
                        deviation = interfaceY - ptY point;
                        normalizedDeviation = deviation / 25;
                        currentDensity =
                          (if normalizedDeviation > 0
                           then 3 / 10 + normalizedDeviation * focusingFactor * (7 / 10)
                           else 3 / 10)
                    in clamp currentDensity 0 1))
                (interfacePoints s)\<rparr>)"

definition calculatePhysicsState :: "simulation \<Rightarrow> simulation" where
  "calculatePhysicsState s =
     (let pressure = animatedPressure s;
          roughness = animatedRoughness s;
          pressureNorm = (pressure - PRESSURE_MIN) / (PRESSURE_MAX - PRESSURE_MIN);
          roughnessNorm = (roughness - ROUGHNESS_MIN) / (ROUGHNESS_MAX - ROUGHNESS_MIN);
          voidThreshold = (VOID_THRESHOLD_PRESSURE - PRESSURE_MIN) / (PRESSURE_MAX - PRESSURE_MIN);
          newVoid = (if pressureNorm < voidThreshold
                     then (let voidFactor = 1 - pressureNorm / voidThreshold
                           in voidFactor * (3 / 10 + roughnessNorm * (5 / 10)))
                     else 0);
          dendriteThreshold = (DENDRITE_THRESHOLD_PRESSURE - PRESSURE_MIN) / (PRESSURE_MAX - PRESSURE_MIN);
          penetration = (if pressureNorm < dendriteThreshold
                         then (let growthFactor = 1 - pressureNorm / dendriteThreshold
                               in growthFactor * (4 / 10 + roughnessNorm * (6 / 10)))
                         else max 0 (dendritePenetration s - 2 / 100));
          newPenetration = clamp penetration 0 1;
          s1 = s\<lparr>voidFraction := newVoid,
                 dendritePenetration := newPenetration,
                 riskLevel := max newVoid newPenetration * 100\<rparr>
      in updateCurrentDensityMap roughnessNorm pressureNorm
           (updateLithiumDeformation pressureNorm s1))"

text \<open>
  One frame at given slider values: the animated values are set, then the physics state
  is computed. \<open>penetrationAt\<close> is the penetration that frame leaves.
\<close>

definition frameAt :: "real \<Rightarrow> real \<Rightarrow> simulation \<Rightarrow> simulation" where
  "frameAt pressure roughness s =
     calculatePhysicsState (s\<lparr>animatedPressure := pressure, animatedRoughness := roughness\<rparr>)"

definition penetrationAt :: "real \<Rightarrow> real \<Rightarrow> simulation \<Rightarrow> real" where
  "penetrationAt pressure roughness s = dendritePenetration (frameAt pressure roughness s)"

text \<open>A simulation as its constructor leaves it, with no interface geometry.\<close>

definition initialSimulation :: simulation where
  "initialSimulation =
     \<lparr>simHeight = 400, animatedPressure = 10, animatedRoughness = 1, voidFraction = 0,
      dendritePenetration = 0, riskLevel = 0, currentDensityMap = [], interfacePoints = [],
      lithiumBottom = []\<rparr>"

section \<open>Numbers that can be NaN or infinite\<close>

text \<open>
  The grid of the low-risk nodes in \<open>generateNetworkData\<close> divides by the effective
  height and by the number of columns, with no test that they are not zero, and takes a
  square root with no test of the sign. Its numbers are therefore modelled with the
  values IEEE 754 adds to the finite ones: the two infinities and NaN. As everywhere in
  this development a finite result is the exact real number (no rounding, no overflow);
  zero has no sign, so the quotient of a non-zero number by zero takes its sign from the
  dividend alone.
\<close>

datatype jsnum = Fin real | PosInf | NegInf | NaN

fun jsNeg :: "jsnum \<Rightarrow> jsnum" where
  "jsNeg (Fin a) = Fin (- a)"
| "jsNeg PosInf = NegInf"
| "jsNeg NegInf = PosInf"
| "jsNeg NaN = NaN"

fun jsAdd :: "jsnum \<Rightarrow> jsnum \<Rightarrow> jsnum" where
  "jsAdd NaN b = NaN"
| "jsAdd a NaN = NaN"
| "jsAdd (Fin a) (Fin b) = Fin (a + b)"
| "jsAdd PosInf NegInf = NaN"
| "jsAdd NegInf PosInf = NaN"
| "jsAdd PosInf b = PosInf"
| "jsAdd a PosInf = PosInf"
| "jsAdd NegInf b = NegInf"
| "jsAdd a NegInf = NegInf"

definition jsSub :: "jsnum \<Rightarrow> jsnum \<Rightarrow> jsnum" where
  "jsSub a b = jsAdd a (jsNeg b)"

text \<open>The sign of a product or quotient of an infinity and a finite number.\<close>

definition infOfSign :: "bool \<Rightarrow> jsnum" where
  "infOfSign positive = (if positive then PosInf else NegInf)"

fun jsMul :: "jsnum \<Rightarrow> jsnum \<Rightarrow> jsnum" where
  "jsMul NaN b = NaN"
| "jsMul a NaN = NaN"
| "jsMul (Fin a) (Fin b) = Fin (a * b)"
| "jsMul (Fin a) PosInf = (if a = 0 then NaN else infOfSign (0 < a))"
| "jsMul (Fin a) NegInf = (if a = 0 then NaN else infOfSign (a < 0))"
| "jsMul PosInf (Fin b) = (if b = 0 then NaN else infOfSign (0 < b))"
| "jsMul NegInf (Fin b) = (if b = 0 then NaN else infOfSign (b < 0))"
| "jsMul PosInf PosInf = PosInf"
| "jsMul NegInf NegInf = PosInf"
| "jsMul PosInf NegInf = NegInf"
| "jsMul NegInf PosInf = NegInf"

fun jsDiv :: "jsnum \<Rightarrow> jsnum \<Rightarrow> jsnum" where
  "jsDiv NaN b = NaN"
| "jsDiv a NaN = NaN"
| "jsDiv (Fin a) (Fin b) =
     (if b = 0 then (if a = 0 then NaN else infOfSign (0 < a)) else Fin (a / b))"
| "jsDiv (Fin a) PosInf = Fin 0"
| "jsDiv (Fin a) NegInf = Fin 0"
| "jsDiv PosInf (Fin b) = infOfSign (0 \<le> b)"
| "jsDiv NegInf (Fin b) = infOfSign (b < 0)"
| "jsDiv a b = NaN"

text \<open>\<open>Math.sqrt\<close>, \<open>Math.ceil\<close>, \<open>Math.floor\<close>\<close>

fun jsSqrt :: "jsnum \<Rightarrow> jsnum" where
  "jsSqrt (Fin a) = (if a < 0 then NaN else Fin (sqrt a))"
| "jsSqrt PosInf = PosInf"
| "jsSqrt NegInf = NaN"
| "jsSqrt NaN = NaN"

fun jsCeil :: "jsnum \<Rightarrow> jsnum" where
  "jsCeil (Fin a) = Fin (of_int \<lceil>a\<rceil>)"
| "jsCeil a = a"

fun jsFloor :: "jsnum \<Rightarrow> jsnum" where
  "jsFloor (Fin a) = Fin (of_int \<lfloor>a\<rfloor>)"
| "jsFloor a = a"

text \<open>
  The remainder \<open>a % b\<close>: the dividend less the divisor times the quotient truncated
  towards zero; the dividend itself when the divisor is infinite; NaN when the divisor
  is zero or the dividend infinite.
\<close>

definition truncate :: "real \<Rightarrow> int" where
  "truncate r = (if 0 \<le> r then \<lfloor>r\<rfloor> else \<lceil>r\<rceil>)"

fun jsMod :: "jsnum \<Rightarrow> jsnum \<Rightarrow> jsnum" where
  "jsMod NaN b = NaN"
| "jsMod a NaN = NaN"
| "jsMod (Fin a) (Fin b) = (if b = 0 then NaN else Fin (a - b * of_int (truncate (a / b))))"
| "jsMod (Fin a) b = Fin a"
| "jsMod a b = NaN"

text \<open>\<open>a < b\<close>: false when either side is NaN. \<open>a > b\<close> is \<open>b < a\<close>.\<close>

fun jsLess :: "jsnum \<Rightarrow> jsnum \<Rightarrow> bool" where
  "jsLess NaN b = False"
| "jsLess a NaN = False"
| "jsLess (Fin a) (Fin b) = (a < b)"
| "jsLess a PosInf = (a \<noteq> PosInf)"
| "jsLess NegInf b = (b \<noteq> NegInf)"
| "jsLess a b = False"

text \<open>\<open>distance\<close> and \<open>randomRange\<close> on these numbers; \<open>x ** 2\<close> is \<open>x * x\<close>.\<close>

definition jsDistance :: "jsnum \<Rightarrow> jsnum \<Rightarrow> jsnum \<Rightarrow> jsnum \<Rightarrow> jsnum" where
  "jsDistance x1 y1 x2 y2 =
     jsSqrt (jsAdd (jsMul (jsSub x2 x1) (jsSub x2 x1)) (jsMul (jsSub y2 y1) (jsSub y2 y1)))"

definition jsRandomRange :: "real \<Rightarrow> jsnum \<Rightarrow> jsnum \<Rightarrow> jsnum" where
  "jsRandomRange r lo hi = jsAdd (jsMul (Fin r) (jsSub hi lo)) lo"

text \<open>The real number a finite value is (0 for the others).\<close>

fun finOf :: "jsnum \<Rightarrow> real" where
  "finOf (Fin a) = a"
| "finOf a = 0"

section \<open>fraud-graph-network.js: generateNetworkData\<close>

subsection \<open>The random source\<close>

text \<open>
  \<open>generateNetworkData\<close> reads \<open>Math.random()\<close> at fixed places of its text, inside
  loops. The values it is handed are an input of the model: an oracle gives, for each
  place (\<open>site\<close>) and each tuple of loop indices at which the place is reached, the
  number \<open>Math.random()\<close> returned there. Every run of the code is the model at some
  oracle whose numbers lie in the half-open unit interval (\<open>validOracle\<close>).

  Two arrays are shuffled with \<open>sort(() => Math.random() - 0.5)\<close>. With a comparator
  that is not consistent the order \<open>sort\<close> leaves is implementation-defined; the
  result is a permutation of the array. The oracle gives, for each such call, the
  permutation as a list of picks (\<open>pickOrder\<close>): any permutation can be given, and
  nothing else.
\<close>

datatype site =
    ClusterCount | NodeAngle | NodeDist | NodeJitterX | NodeJitterY | NodeVx | NodeVy
  | NodeRisk | NodeAccount | NodePulse
  | ConnCount | ConnAto | CrossChance | CrossAto
  | InnCount | InnAngle | InnDist | InnJitterX | InnJitterY | InnVx | InnVy | InnRisk
  | InnPulse
  | SatCount | SatAngle | SatDist | SatVx | SatVy | SatRisk | SatAccount | SatPulse
  | SatConnCount | SatAto
  | LowJitterX | LowJitterY | LowVx | LowVy | LowRisk | LowPulse | LowConnCount
  | LongA | LongB | FalseLow | FalseHigh | DiamAto

datatype sort_site = ConnShuffle | SatShuffle

record random_source =
  rnd :: "site \<Rightarrow> nat list \<Rightarrow> real"
  shuffle :: "sort_site \<Rightarrow> nat list \<Rightarrow> nat list"

definition validOracle :: "random_source \<Rightarrow> bool" where
  "validOracle orc = (\<forall>s ix. 0 \<le> rnd orc s ix \<and> rnd orc s ix < 1)"

fun pickOrder :: "nat list \<Rightarrow> 'a list \<Rightarrow> 'a list" where
  "pickOrder [] xs = xs"
| "pickOrder (k # ks) xs =
     (if xs = [] then []
      else (let j = k mod length xs
            in xs ! j # pickOrder ks (take j xs @ drop (Suc j) xs)))"

subsection \<open>Edges\<close>

definition mkEdge :: "nat \<Rightarrow> nat \<Rightarrow> bool \<Rightarrow> real option \<Rightarrow> nat option \<Rightarrow> edge" where
  "mkEdge s d hr ato cid =
     \<lparr>source = s, target = d, edgeHighRisk = hr, atoRisk = ato, edgeClusterId = cid,
      flashProgress = 0, isFlashing = False\<rparr>"

text \<open>The \<open>this.edges.some(...)\<close> test: an edge between the two ids, in either direction.\<close>

definition edgeExists :: "edge list \<Rightarrow> nat \<Rightarrow> nat \<Rightarrow> bool" where
  "edgeExists es a b =
     list_ex (\<lambda>e. (source e = a \<and> target e = b) \<or> (source e = b \<and> target e = a)) es"

text \<open>\<open>if (!edgeExists) this.edges.push(e)\<close>\<close>

definition pushIfNew :: "edge list \<Rightarrow> edge \<Rightarrow> edge list" where
  "pushIfNew es e = (if \<not> edgeExists es (source e) (target e) then es @ [e] else es)"

text \<open>\<open>xs[k]\<close> for a number \<open>k\<close> that is an integer: \<open>undefined\<close> outside the array.\<close>

definition nthOpt :: "'a list \<Rightarrow> int \<Rightarrow> 'a option" where
  "nthOpt xs k = (if 0 \<le> k \<and> k < int (length xs) then Some (xs ! nat k) else None)"

subsection \<open>One mule cluster\<close>

definition clusterPositions :: "real \<Rightarrow> real \<Rightarrow> (real \<times> real) list" where
  "clusterPositions W H =
     [(W * (2 / 10), H * (35 / 100)), (W * (8 / 10), H * (35 / 100)),
      (W * (35 / 100), H * (7 / 10))]"

text \<open>
  The node made in iteration \<open>i\<close> of the node loop of cluster \<open>c\<close>; \<open>base\<close> is
  \<open>this.nodes.length\<close> before the loop, so the node's id is \<open>base + i\<close>. The source
  sets \<open>baseX\<close>, \<open>baseY\<close> and then overwrites them with \<open>x\<close>, \<open>y\<close>.
\<close>

definition clusterNode :: "random_source \<Rightarrow> nat \<Rightarrow> real \<times> real \<Rightarrow> int \<Rightarrow> nat \<Rightarrow> nat \<Rightarrow> node" where
  "clusterNode orc c clusterCenter clusterNodeCount base i =
     (let angle = (real i / real_of_int clusterNodeCount) * pi * 2
                  + randomRange (rnd orc NodeAngle [c, i]) (- (1 / 2)) (1 / 2);
          dist = randomRange (rnd orc NodeDist [c, i]) 30 130;
          x = fst clusterCenter + cos angle * dist
              + randomRange (rnd orc NodeJitterX [c, i]) (- 35) 35;
          y = snd clusterCenter + sin angle * dist
              + randomRange (rnd orc NodeJitterY [c, i]) (- 35) 35
      in \<lparr>nid = base + i, posX = x, posY = y, baseX = x, baseY = y,
          vx = randomRange (rnd orc NodeVx [c, i]) (- (2 / 10)) (2 / 10),
          vy = randomRange (rnd orc NodeVy [c, i]) (- (2 / 10)) (2 / 10),
          radius = (if i = 0 then NODE_RADIUS_HUB else NODE_RADIUS),
          riskScore = randomRange (rnd orc NodeRisk [c, i]) (78 / 100) (99 / 100),
          accountId = Some (rnd orc NodeAccount [c, i]),
          isHighRisk = True, isHub = (i = 0), clusterId = Some c,
          pulseOffset = rnd orc NodePulse [c, i] * pi * 2,
          isSatellite = False, isInnocentNearCluster = False\<rparr>)"

text \<open>
  The web connections of node \<open>i\<close>: 2 to 4 of the other cluster nodes, in shuffled
  order. \<open>slice(0, n)\<close> is \<open>take n\<close> for \<open>n \<ge> 0\<close>, which a valid oracle gives.
\<close>

definition webTargets :: "random_source \<Rightarrow> nat \<Rightarrow> node list \<Rightarrow> nat \<Rightarrow> node list" where
  "webTargets orc c clusterNodes i =
     (let connectionCount = \<lfloor>randomRange (rnd orc ConnCount [c, i]) 2 5\<rfloor>;
          availableTargets = map snd (filter (\<lambda>(idx, n). idx \<noteq> i) (enumerate 0 clusterNodes));
          shuffled = pickOrder (shuffle orc ConnShuffle [c, i]) availableTargets
      in take (nat (min connectionCount (int (length shuffled)))) shuffled)"

definition webStep :: "random_source \<Rightarrow> nat \<Rightarrow> node list \<Rightarrow> edge list \<Rightarrow> nat \<Rightarrow> edge list" where
  "webStep orc c clusterNodes es i =
     foldl (\<lambda>acc (k, tgt).
              pushIfNew acc
                (mkEdge (nid (clusterNodes ! i)) (nid tgt) True
                   (Some (randomRange (rnd orc ConnAto [c, i, k]) (5 / 100) (18 / 100)))
                   (Some c)))
           es (enumerate 0 (webTargets orc c clusterNodes i))"

definition webConnections :: "random_source \<Rightarrow> nat \<Rightarrow> node list \<Rightarrow> edge list \<Rightarrow> edge list" where
  "webConnections orc c clusterNodes es =
     foldl (webStep orc c clusterNodes) es [0..<length clusterNodes]"

text \<open>The cross-connections: pairs \<open>i\<close>, \<open>j\<close> with \<open>j \<ge> i + 2\<close>, each with chance 0.8.\<close>

definition crossPairs :: "nat \<Rightarrow> (nat \<times> nat) list" where
  "crossPairs n = concat (map (\<lambda>i. map (\<lambda>j. (i, j)) [i + 2..<n]) [0..<n])"

definition crossStep :: "random_source \<Rightarrow> nat \<Rightarrow> node list \<Rightarrow> edge list \<Rightarrow> nat \<times> nat \<Rightarrow> edge list" where
  "crossStep orc c clusterNodes es ij =
     (if rnd orc CrossChance [c, fst ij, snd ij] < 8 / 10
      then pushIfNew es
             (mkEdge (nid (clusterNodes ! fst ij)) (nid (clusterNodes ! snd ij)) True
                (Some (randomRange (rnd orc CrossAto [c, fst ij, snd ij]) (6 / 100) (16 / 100)))
                (Some c))
      else es)"

definition crossConnections :: "random_source \<Rightarrow> nat \<Rightarrow> node list \<Rightarrow> edge list \<Rightarrow> edge list" where
  "crossConnections orc c clusterNodes es =
     foldl (crossStep orc c clusterNodes) es (crossPairs (length clusterNodes))"

text \<open>The innocent nodes near the cluster: a candidate too close to a cluster node is skipped.\<close>

definition tooCloseToHighRisk :: "node list \<Rightarrow> real \<Rightarrow> real \<Rightarrow> bool" where
  "tooCloseToHighRisk clusterNodes innX innY =
     list_ex (\<lambda>hrNode. distance innX innY (posX hrNode) (posY hrNode)
                        < (if isHub hrNode then 35 else 20))
       clusterNodes"

definition innocentPos :: "random_source \<Rightarrow> nat \<Rightarrow> real \<times> real \<Rightarrow> nat \<Rightarrow> real \<times> real" where
  "innocentPos orc c clusterCenter inn =
     (let innocentAngle = rnd orc InnAngle [c, inn] * pi * 2;
          innocentDist = randomRange (rnd orc InnDist [c, inn]) 40 120
      in (fst clusterCenter + cos innocentAngle * innocentDist
            + randomRange (rnd orc InnJitterX [c, inn]) (- 25) 25,
          snd clusterCenter + sin innocentAngle * innocentDist
            + randomRange (rnd orc InnJitterY [c, inn]) (- 25) 25))"

definition innocentNode :: "random_source \<Rightarrow> nat \<Rightarrow> nat \<Rightarrow> nat \<Rightarrow> real \<times> real \<Rightarrow> node" where
  "innocentNode orc c inn newId pos =
     \<lparr>nid = newId, posX = fst pos, posY = snd pos, baseX = fst pos, baseY = snd pos,
      vx = randomRange (rnd orc InnVx [c, inn]) (- (15 / 100)) (15 / 100),
      vy = randomRange (rnd orc InnVy [c, inn]) (- (15 / 100)) (15 / 100),
      radius = NODE_RADIUS,
      riskScore = randomRange (rnd orc InnRisk [c, inn]) (5 / 100) (25 / 100),
      accountId = None, isHighRisk = False, isHub = False, clusterId = None,
      pulseOffset = rnd orc InnPulse [c, inn] * pi * 2,
      isSatellite = False, isInnocentNearCluster = True\<rparr>"

definition innocentStep :: "random_source \<Rightarrow> nat \<Rightarrow> real \<times> real \<Rightarrow> node list \<Rightarrow> node list \<Rightarrow> nat \<Rightarrow> node list" where
  "innocentStep orc c clusterCenter clusterNodes ns inn =
     (let pos = innocentPos orc c clusterCenter inn
      in if tooCloseToHighRisk clusterNodes (fst pos) (snd pos) then ns
         else ns @ [innocentNode orc c inn (length ns) pos])"

definition innocents :: "random_source \<Rightarrow> nat \<Rightarrow> real \<times> real \<Rightarrow> node list \<Rightarrow> node list \<Rightarrow> node list" where
  "innocents orc c clusterCenter clusterNodes ns =
     foldl (innocentStep orc c clusterCenter clusterNodes) ns
       [0..<nat \<lfloor>randomRange (rnd orc InnCount [c]) 3 6\<rfloor>]"

text \<open>
  The satellites. Each is pushed to \<open>this.nodes\<close> and to \<open>clusterNodes\<close> and joined
  to 1 to 3 of the cluster's non-satellite nodes, without a test for an existing edge.
\<close>

definition satellitePos :: "random_source \<Rightarrow> real \<Rightarrow> real \<Rightarrow> real \<Rightarrow> nat \<Rightarrow> real \<times> real \<Rightarrow> nat \<Rightarrow> real \<times> real" where
  "satellitePos orc W H padding c clusterCenter s =
     (let satelliteAngle = rnd orc SatAngle [c, s] * pi * 2;
          maxDistToLeft = fst clusterCenter - padding - 30;
          maxDistToRight = W - padding - 30 - fst clusterCenter;
          maxDistToTop = snd clusterCenter - padding - 30;
          maxDistToBottom = H - padding - 30 - snd clusterCenter;
          dirX = cos satelliteAngle;
          dirY = sin satelliteAngle;
          m1 = (if dirX < 0 then min 250 (maxDistToLeft / \<bar>dirX\<bar>) else 250);
          m2 = (if dirX > 0 then min m1 (maxDistToRight / dirX) else m1);
          m3 = (if dirY < 0 then min m2 (maxDistToTop / \<bar>dirY\<bar>) else m2);
          maxSafeDist = (if dirY > 0 then min m3 (maxDistToBottom / dirY) else m3);
          satelliteDist = randomRange (rnd orc SatDist [c, s]) 80 (max 100 (min maxSafeDist 200));
          satX = fst clusterCenter + dirX * satelliteDist;
          satY = snd clusterCenter + dirY * satelliteDist
      in (max (padding + 40) (min (W - padding - 40) satX),
          max (padding + 40) (min (H - padding - 40) satY)))"

definition satelliteNode :: "random_source \<Rightarrow> nat \<Rightarrow> nat \<Rightarrow> nat \<Rightarrow> real \<times> real \<Rightarrow> node" where
  "satelliteNode orc c s newId pos =
     \<lparr>nid = newId, posX = fst pos, posY = snd pos, baseX = fst pos, baseY = snd pos,
      vx = randomRange (rnd orc SatVx [c, s]) (- (15 / 100)) (15 / 100),
      vy = randomRange (rnd orc SatVy [c, s]) (- (15 / 100)) (15 / 100),
      radius = NODE_RADIUS,
      riskScore = randomRange (rnd orc SatRisk [c, s]) (72 / 100) (94 / 100),
      accountId = Some (rnd orc SatAccount [c, s]),
      isHighRisk = True, isHub = False, clusterId = Some c,
      pulseOffset = rnd orc SatPulse [c, s] * pi * 2,
      isSatellite = True, isInnocentNearCluster = False\<rparr>"

definition satelliteEdges :: "random_source \<Rightarrow> nat \<Rightarrow> nat \<Rightarrow> node \<Rightarrow> node list \<Rightarrow> edge list \<Rightarrow> edge list" where
  "satelliteEdges orc c s sat clusterNodes es =
     (let connectionsToMain = \<lfloor>randomRange (rnd orc SatConnCount [c, s]) 1 4\<rfloor>;
          mainClusterNodes = filter (\<lambda>n. \<not> isSatellite n) clusterNodes;
          shuffledMain = pickOrder (shuffle orc SatShuffle [c, s]) mainClusterNodes
      in foldl (\<lambda>acc m.
                  acc @ [mkEdge (nid sat) (nid (shuffledMain ! m)) True
                           (Some (randomRange (rnd orc SatAto [c, s, m]) (4 / 100) (14 / 100)))
                           (Some c)])
           es [0..<nat (min connectionsToMain (int (length shuffledMain)))])"

definition satelliteStep ::
  "random_source \<Rightarrow> real \<Rightarrow> real \<Rightarrow> real \<Rightarrow> nat \<Rightarrow> real \<times> real \<Rightarrow>
   node list \<times> node list \<times> edge list \<Rightarrow> nat \<Rightarrow> node list \<times> node list \<times> edge list" where
  "satelliteStep orc W H padding c clusterCenter st s =
     (let ns = fst st; clusterNodes = fst (snd st); es = snd (snd st);
          sat = satelliteNode orc c s (length ns) (satellitePos orc W H padding c clusterCenter s);
          clusterNodes1 = clusterNodes @ [sat]
      in (ns @ [sat], clusterNodes1, satelliteEdges orc c s sat clusterNodes1 es))"

definition satellites ::
  "random_source \<Rightarrow> real \<Rightarrow> real \<Rightarrow> real \<Rightarrow> nat \<Rightarrow> real \<times> real \<Rightarrow>
   node list \<times> node list \<times> edge list \<Rightarrow> node list \<times> node list \<times> edge list" where
  "satellites orc W H padding c clusterCenter st =
     foldl (satelliteStep orc W H padding c clusterCenter) st
       [0..<nat \<lfloor>randomRange (rnd orc SatCount [c]) 2 4\<rfloor>]"

text \<open>
  One iteration of the cluster loop, on \<open>this.nodes\<close>, \<open>this.edges\<close> and
  \<open>this.muleClusters\<close>.
\<close>

definition genCluster ::
  "random_source \<Rightarrow> real \<Rightarrow> real \<Rightarrow> real \<Rightarrow> node list \<times> edge list \<times> node list list \<Rightarrow> nat \<Rightarrow>
   node list \<times> edge list \<times> node list list" where
  "genCluster orc W H padding st c =
     (let ns = fst st; es = fst (snd st); clusters = snd (snd st);
          clusterNodeCount =
            \<lfloor>randomRange (rnd orc ClusterCount [c]) NODES_PER_CLUSTER_MIN (NODES_PER_CLUSTER_MAX + 1)\<rfloor>;
          clusterCenter = clusterPositions W H ! c;
          clusterNodes = map (clusterNode orc c clusterCenter clusterNodeCount (length ns))
                           [0..<nat clusterNodeCount];
          ns1 = ns @ clusterNodes;
          es1 = webConnections orc c clusterNodes es;
          es2 = crossConnections orc c clusterNodes es1;
          ns2 = innocents orc c clusterCenter clusterNodes ns1;
          sat = satellites orc W H padding c clusterCenter (ns2, clusterNodes, es2)
      in (fst sat, snd (snd sat), clusters @ [fst (snd sat)]))"

subsection \<open>The low-risk population\<close>

text \<open>
  The cluster loop computes with finite numbers only: the canvas size is finite and
  each of its divisions is behind a test that the divisor is not zero. Its nodes are
  therefore written with real coordinates, and \<open>jsNode\<close> places such a node among the
  nodes whose coordinates can be NaN. From here on \<open>this.nodes\<close> and
  \<open>this.muleClusters\<close> hold nodes of that kind.
\<close>

type_synonym jsnode = "jsnum node_of"

definition jsNode :: "node \<Rightarrow> jsnode" where
  "jsNode n =
     \<lparr>nid = nid n, posX = Fin (posX n), posY = Fin (posY n),
      baseX = Fin (baseX n), baseY = Fin (baseY n),
      vx = vx n, vy = vy n, radius = radius n, riskScore = riskScore n,
      accountId = accountId n, isHighRisk = isHighRisk n, isHub = isHub n,
      clusterId = clusterId n, pulseOffset = pulseOffset n,
      isSatellite = isSatellite n, isInnocentNearCluster = isInnocentNearCluster n\<rparr>"

record grid =
  gridW :: real
  gridH :: real
  gridPadding :: real
  lowRiskCount :: int
  gridCols :: jsnum
  cellWidth :: jsnum
  cellHeight :: jsnum

text \<open>
  The grid of the low-risk nodes: \<open>effectiveWidth\<close>, \<open>effectiveHeight\<close> and
  \<open>lowRiskCount\<close> are finite; \<open>gridCols\<close>, \<open>gridRows\<close>, \<open>cellWidth\<close> and
  \<open>cellHeight\<close> are infinite or NaN on a canvas no larger than its padding.
\<close>

definition mkGrid :: "real \<Rightarrow> real \<Rightarrow> real \<Rightarrow> real \<Rightarrow> nat \<Rightarrow> grid" where
  "mkGrid W H padding topPadding highRiskCount =
     (let effectiveWidth = W - padding * 2;
          effectiveHeight = H - padding - topPadding;
          lowCount = TOTAL_NODES - int highRiskCount;
          cols = jsCeil (jsSqrt (jsMul (Fin (real_of_int lowCount))
                                   (jsDiv (Fin effectiveWidth) (Fin effectiveHeight))));
          rows = jsCeil (jsDiv (Fin (real_of_int lowCount)) cols)
      in \<lparr>gridW = W, gridH = H, gridPadding = padding, lowRiskCount = lowCount,
          gridCols = cols, cellWidth = jsDiv (Fin effectiveWidth) cols,
          cellHeight = jsDiv (Fin effectiveHeight) rows\<rparr>)"

text \<open>The position of the candidate of iteration \<open>i\<close>: \<open>(nodeX, nodeY)\<close>.\<close>

definition lowRiskPos :: "random_source \<Rightarrow> grid \<Rightarrow> nat \<Rightarrow> jsnum \<times> jsnum" where
  "lowRiskPos orc g i =
     (let col = jsMod (Fin (real i)) (gridCols g);
          row = jsFloor (jsDiv (Fin (real i)) (gridCols g));
          bX = jsAdd (jsAdd (Fin (gridPadding g)) (jsMul col (cellWidth g)))
                 (jsDiv (cellWidth g) (Fin 2));
          bY = jsAdd (jsAdd (Fin (gridPadding g)) (jsMul row (cellHeight g)))
                 (jsDiv (cellHeight g) (Fin 2));
          jitterX = jsRandomRange (rnd orc LowJitterX [i])
                      (jsMul (jsNeg (cellWidth g)) (Fin (4 / 10)))
                      (jsMul (cellWidth g) (Fin (4 / 10)));
          jitterY = jsRandomRange (rnd orc LowJitterY [i])
                      (jsMul (jsNeg (cellHeight g)) (Fin (4 / 10)))
                      (jsMul (cellHeight g) (Fin (4 / 10)))
      in (jsAdd bX jitterX, jsAdd bY jitterY))"

definition tooCloseToCluster :: "grid \<Rightarrow> jsnum \<times> jsnum \<Rightarrow> bool" where
  "tooCloseToCluster g pos =
     list_ex (\<lambda>cp. jsLess (jsDistance (fst pos) (snd pos) (Fin (fst cp)) (Fin (snd cp))) (Fin 35))
       (clusterPositions (gridW g) (gridH g))"

text \<open>
  \<open>nodeX < padding || nodeX > this.width - padding || nodeY < padding ||
  nodeY > this.height - padding\<close>
\<close>

definition outsideBounds :: "grid \<Rightarrow> jsnum \<times> jsnum \<Rightarrow> bool" where
  "outsideBounds g pos =
     (jsLess (fst pos) (Fin (gridPadding g)) \<or> jsLess (Fin (gridW g - gridPadding g)) (fst pos) \<or>
      jsLess (snd pos) (Fin (gridPadding g)) \<or> jsLess (Fin (gridH g - gridPadding g)) (snd pos))"

definition lowRiskNode :: "random_source \<Rightarrow> nat \<Rightarrow> nat \<Rightarrow> jsnum \<times> jsnum \<Rightarrow> jsnode" where
  "lowRiskNode orc i newId pos =
     \<lparr>nid = newId, posX = fst pos, posY = snd pos, baseX = fst pos, baseY = snd pos,
      vx = randomRange (rnd orc LowVx [i]) (- (15 / 100)) (15 / 100),
      vy = randomRange (rnd orc LowVy [i]) (- (15 / 100)) (15 / 100),
      radius = NODE_RADIUS,
      riskScore = randomRange (rnd orc LowRisk [i]) (2 / 100) (35 / 100),
      accountId = None, isHighRisk = False, isHub = False, clusterId = None,
      pulseOffset = rnd orc LowPulse [i] * pi * 2,
      isSatellite = False, isInnocentNearCluster = False\<rparr>"

text \<open>
  \<open>for (let i = 0; i < lowRiskCount * 1.3 && createdLowRisk < lowRiskCount; i++)\<close>,
  with its two \<open>continue\<close> statements.
\<close>

function lowRiskLoop :: "random_source \<Rightarrow> grid \<Rightarrow> nat \<Rightarrow> nat \<Rightarrow> jsnode list \<Rightarrow> jsnode list" where
  "lowRiskLoop orc g i createdLowRisk ns =
     (if real i < real_of_int (lowRiskCount g) * (13 / 10) \<and> int createdLowRisk < lowRiskCount g
      then (if tooCloseToCluster g (lowRiskPos orc g i)
            then lowRiskLoop orc g (Suc i) createdLowRisk ns
            else if outsideBounds g (lowRiskPos orc g i)
            then lowRiskLoop orc g (Suc i) createdLowRisk ns
            else lowRiskLoop orc g (Suc i) (Suc createdLowRisk)
                   (ns @ [lowRiskNode orc i (length ns) (lowRiskPos orc g i)]))
      else ns)"
  by pat_completeness auto
termination
  apply (relation "measure (\<lambda>(orc, g, i, createdLowRisk, ns).
                   nat \<lceil>real_of_int (lowRiskCount g) * (13 / 10)\<rceil> - i)")
     apply simp
    apply (simp_all add: less_ceiling_iff)
    apply linarith+
  done

declare lowRiskLoop.simps [simp del]

subsection \<open>Edges of the low-risk population, false connections, diameter edges\<close>

text \<open>
  The neighbours of a low-risk node: the other low-risk nodes less than 120 away, by
  distance, the first \<open>connectionCount\<close> of them. A node less than 120 away is at a
  finite distance, so the comparator \<open>distance(a) - distance(b)\<close> orders finite
  numbers, and the sort, which is stable, is \<open>sort_key\<close> on them.
\<close>

definition lowTargets :: "random_source \<Rightarrow> jsnode list \<Rightarrow> nat \<Rightarrow> jsnode list" where
  "lowTargets orc lowRiskNodes i =
     (let node = lowRiskNodes ! i;
          connectionCount = \<lfloor>randomRange (rnd orc LowConnCount [i]) 2 6\<rfloor>;
          nearbyNodes = filter (\<lambda>n. nid n \<noteq> nid node
                                   \<and> jsLess (jsDistance (posX node) (posY node) (posX n) (posY n))
                                         (Fin 120))
                          lowRiskNodes;
          byDistance = sort_key (\<lambda>n. finOf (jsDistance (posX node) (posY node) (posX n) (posY n)))
                         nearbyNodes
      in take (nat connectionCount) byDistance)"

definition lowStep :: "random_source \<Rightarrow> jsnode list \<Rightarrow> edge list \<Rightarrow> nat \<Rightarrow> edge list" where
  "lowStep orc lowRiskNodes es i =
     foldl (\<lambda>acc tgt. pushIfNew acc (mkEdge (nid (lowRiskNodes ! i)) (nid tgt) False None None))
       es (lowTargets orc lowRiskNodes i)"

definition lowRiskEdges :: "random_source \<Rightarrow> jsnode list \<Rightarrow> edge list \<Rightarrow> edge list" where
  "lowRiskEdges orc lowRiskNodes es =
     foldl (lowStep orc lowRiskNodes) es [0..<length lowRiskNodes]"

text \<open>\<open>for (let i = 0; i < lowRiskNodes.length * 0.12; i++)\<close>\<close>

definition longStep :: "random_source \<Rightarrow> jsnode list \<Rightarrow> edge list \<Rightarrow> nat \<Rightarrow> edge list" where
  "longStep orc lowRiskNodes es i =
     (case (nthOpt lowRiskNodes \<lfloor>rnd orc LongA [i] * real (length lowRiskNodes)\<rfloor>,
            nthOpt lowRiskNodes \<lfloor>rnd orc LongB [i] * real (length lowRiskNodes)\<rfloor>) of
        (Some nodeA, Some nodeB) \<Rightarrow>
          (if nid nodeA \<noteq> nid nodeB
           then pushIfNew es (mkEdge (nid nodeA) (nid nodeB) False None None)
           else es)
      | _ \<Rightarrow> es)"

definition longRangeEdges :: "random_source \<Rightarrow> jsnode list \<Rightarrow> edge list \<Rightarrow> edge list" where
  "longRangeEdges orc lowRiskNodes es =
     foldl (longStep orc lowRiskNodes) es
       [0..<nat \<lceil>real (length lowRiskNodes) * (12 / 100)\<rceil>]"

text \<open>The 25 tries for an edge between a low-risk and a high-risk node: no test for an existing edge.\<close>

definition falseStep :: "random_source \<Rightarrow> jsnode list \<Rightarrow> jsnode list \<Rightarrow> edge list \<Rightarrow> nat \<Rightarrow> edge list" where
  "falseStep orc lowRiskNodes highRiskNodes es i =
     (case (nthOpt lowRiskNodes \<lfloor>rnd orc FalseLow [i] * real (length lowRiskNodes)\<rfloor>,
            nthOpt highRiskNodes \<lfloor>rnd orc FalseHigh [i] * real (length highRiskNodes)\<rfloor>) of
        (Some lowRisk, Some highRisk) \<Rightarrow>
          (if jsLess (jsDistance (posX lowRisk) (posY lowRisk) (posX highRisk) (posY highRisk))
                (Fin 150)
           then es @ [mkEdge (nid lowRisk) (nid highRisk) False None None]
           else es)
      | _ \<Rightarrow> es)"

definition falseConnections :: "random_source \<Rightarrow> jsnode list \<Rightarrow> jsnode list \<Rightarrow> edge list \<Rightarrow> edge list" where
  "falseConnections orc lowRiskNodes highRiskNodes es =
     foldl (falseStep orc lowRiskNodes highRiskNodes) es [0..<25]"

text \<open>
  The two nodes of a cluster furthest apart: the nested loops over \<open>i < j\<close>, with
  \<open>maxDist\<close> and the pair \<open>nodeA\<close>, \<open>nodeB\<close> (\<open>None\<close> for \<open>null\<close>).
\<close>

definition diameterPairs :: "nat \<Rightarrow> (nat \<times> nat) list" where
  "diameterPairs n = concat (map (\<lambda>i. map (\<lambda>j. (i, j)) [i + 1..<n]) [0..<n])"

definition furthestStep ::
  "jsnode list \<Rightarrow> jsnum \<times> (jsnode \<times> jsnode) option \<Rightarrow> nat \<times> nat \<Rightarrow> jsnum \<times> (jsnode \<times> jsnode) option" where
  "furthestStep clusterNodes acc ij =
     (let d = jsDistance (posX (clusterNodes ! fst ij)) (posY (clusterNodes ! fst ij))
                         (posX (clusterNodes ! snd ij)) (posY (clusterNodes ! snd ij))
      in if jsLess (fst acc) d
         then (d, Some (clusterNodes ! fst ij, clusterNodes ! snd ij)) else acc)"

definition furthestPair :: "jsnode list \<Rightarrow> (jsnode \<times> jsnode) option" where
  "furthestPair clusterNodes =
     snd (foldl (furthestStep clusterNodes) (Fin 0, None) (diameterPairs (length clusterNodes)))"

definition diameterStep :: "random_source \<Rightarrow> edge list \<Rightarrow> nat \<times> jsnode list \<Rightarrow> edge list" where
  "diameterStep orc es entry =
     (if length (snd entry) \<ge> 2
      then (case furthestPair (snd entry) of
              None \<Rightarrow> es
            | Some (nodeA, nodeB) \<Rightarrow>
                pushIfNew es
                  (mkEdge (nid nodeA) (nid nodeB) True
                     (Some (randomRange (rnd orc DiamAto [fst entry]) (3 / 100) (11 / 100)))
                     (clusterId nodeA)))
      else es)"

definition diameterEdges :: "random_source \<Rightarrow> jsnode list list \<Rightarrow> edge list \<Rightarrow> edge list" where
  "diameterEdges orc clusters es = foldl (diameterStep orc) es (enumerate 0 clusters)"

subsection \<open>generateNetworkData\<close>

text \<open>
  \<open>generateNetworkData\<close> reads \<open>this.width\<close>, \<open>this.height\<close> and \<open>this.isMobile\<close>
  and assigns \<open>this.nodes\<close>, \<open>this.edges\<close> and \<open>this.muleClusters\<close>, which it
  empties first; the result is these three.
\<close>

definition generateNetworkData :: "random_source \<Rightarrow> widget \<Rightarrow> jsnum network" where
  "generateNetworkData orc w =
     (let padding = (if isMobile w then 20 else 40);
          topPadding = (if isMobile w then 80 else padding);
          cl = foldl (genCluster orc (width w) (height w) padding) ([], [], [])
                 [0..<MULE_CLUSTERS];
          ns1 = map jsNode (fst cl); es1 = fst (snd cl);
          clusters = map (map jsNode) (snd (snd cl));
          highRiskCount = length ns1;
          ns2 = lowRiskLoop orc (mkGrid (width w) (height w) padding topPadding highRiskCount)
                  0 0 ns1;
          lowRiskNodes = filter (\<lambda>n. \<not> isHighRisk n) ns2;
          es2 = lowRiskEdges orc lowRiskNodes es1;
          es3 = longRangeEdges orc lowRiskNodes es2;
          highRiskNodes = filter isHighRisk ns2;
          es4 = falseConnections orc lowRiskNodes highRiskNodes es3;
          es5 = diameterEdges orc clusters es4
      in \<lparr>nodes = ns2, edges = es5, muleClusters = clusters\<rparr>)"

subsection \<open>Notions the statements about generated graphs use\<close>

text \<open>A list grown at its end by elements that all satisfy \<open>Q\<close>.\<close>

definition extends :: "('a \<Rightarrow> bool) \<Rightarrow> 'a list \<Rightarrow> 'a list \<Rightarrow> bool" where
  "extends Q xs ys = (\<exists>zs. ys = xs @ zs \<and> list_all Q zs)"

text \<open>Node ids are the positions in the node list.\<close>

definition idsOk :: "'c node_of list \<Rightarrow> bool" where
  "idsOk ns = (map nid ns = [0..<length ns])"

text \<open>The unordered endpoint pair of an edge, and the absence of duplicate edges.\<close>

definition edgeKey :: "edge \<Rightarrow> nat \<times> nat" where
  "edgeKey e = (min (source e) (target e), max (source e) (target e))"

definition noDuplicateEdges :: "edge list \<Rightarrow> bool" where
  "noDuplicateEdges es = distinct (map edgeKey es)"

text \<open>
  Two node ids are adjacent in cluster \<open>c\<close> when an edge with that cluster id joins
  them; the cluster is connected when every two of its nodes are joined by a path of
  such edges.
\<close>

definition clusterAdj :: "jsnum network \<Rightarrow> nat \<Rightarrow> (nat \<times> nat) set" where
  "clusterAdj g c =
     {(a, b). \<exists>e\<in>set (edges g). edgeClusterId e = Some c \<and>
                ((source e = a \<and> target e = b) \<or> (source e = b \<and> target e = a))}"

definition clusterConnected :: "jsnum network \<Rightarrow> nat \<Rightarrow> bool" where
  "clusterConnected g c =
     (\<forall>u\<in>set (nodes g). \<forall>v\<in>set (nodes g).
        clusterId u = Some c \<and> clusterId v = Some c \<longrightarrow> (nid u, nid v) \<in> (clusterAdj g c)\<^sup>*)"

text \<open>The edges the web-connection and cross-connection loops of a cluster can push.\<close>

definition webShape :: "random_source \<Rightarrow> nat \<Rightarrow> node list \<Rightarrow> edge \<Rightarrow> bool" where
  "webShape orc c cn e =
     (\<exists>i<length cn. \<exists>tgt\<in>set (webTargets orc c cn i). \<exists>ato.
        e = mkEdge (nid (cn ! i)) (nid tgt) True ato (Some c))"

definition crossShape :: "nat \<Rightarrow> node list \<Rightarrow> edge \<Rightarrow> bool" where
  "crossShape c cn e =
     (\<exists>i j ato. i < length cn \<and> j < length cn \<and> i \<noteq> j \<and>
        e = mkEdge (nid (cn ! i)) (nid (cn ! j)) True ato (Some c))"

text \<open>Every edge joins positions below \<open>n\<close>.\<close>

definition edgesBelow :: "nat \<Rightarrow> edge list \<Rightarrow> bool" where
  "edgesBelow n es = list_all (\<lambda>e. source e < n \<and> target e < n) es"

text \<open>
  The innocent loop of cluster \<open>c\<close>, with centre \<open>ctr\<close> and main nodes \<open>cn\<close>: the
  number of its candidates, whether candidate \<open>inn\<close> passes the test of the loop, a node
  made from a candidate that passes, and a node list that holds a node for every
  candidate that passes.
\<close>

definition innocentCount :: "random_source \<Rightarrow> nat \<Rightarrow> nat" where
  "innocentCount orc c = nat \<lfloor>randomRange (rnd orc InnCount [c]) 3 6\<rfloor>"

definition innocentClear :: "random_source \<Rightarrow> nat \<Rightarrow> real \<times> real \<Rightarrow> node list \<Rightarrow> nat \<Rightarrow> bool" where
  "innocentClear orc c ctr cn inn =
     (\<not> tooCloseToHighRisk cn (fst (innocentPos orc c ctr inn)) (snd (innocentPos orc c ctr inn)))"

definition innocentLike :: "random_source \<Rightarrow> nat \<Rightarrow> real \<times> real \<Rightarrow> node list \<Rightarrow> node \<Rightarrow> bool" where
  "innocentLike orc c ctr cn u =
     (\<exists>inn<innocentCount orc c.
        u = innocentNode orc c inn (nid u) (innocentPos orc c ctr inn)
        \<and> innocentClear orc c ctr cn inn)"

definition innocentsPlaced :: "random_source \<Rightarrow> nat \<Rightarrow> real \<times> real \<Rightarrow> node list \<Rightarrow> node list \<Rightarrow> bool" where
  "innocentsPlaced orc c ctr cn ns =
     (\<forall>inn<innocentCount orc c. innocentClear orc c ctr cn inn \<longrightarrow>
        (\<exists>u\<in>set ns. u = innocentNode orc c inn (nid u) (innocentPos orc c ctr inn)))"

text \<open>A node as the satellite loop makes it, and a main node of a cluster.\<close>

definition satelliteLike :: "nat \<Rightarrow> node \<Rightarrow> bool" where
  "satelliteLike c u =
     (isSatellite u \<and> isHighRisk u \<and> \<not> isInnocentNearCluster u \<and> clusterId u = Some c)"

definition mainLike :: "nat \<Rightarrow> node \<Rightarrow> bool" where
  "mainLike c u =
     (\<not> isSatellite u \<and> isHighRisk u \<and> \<not> isInnocentNearCluster u \<and> clusterId u = Some c)"

text \<open>An edge from a satellite: its target is one of the cluster's main nodes.\<close>

definition satEdgeLike :: "nat \<Rightarrow> node list \<Rightarrow> nat \<Rightarrow> edge \<Rightarrow> bool" where
  "satEdgeLike c cn lo e =
     (edgeClusterId e = Some c \<and> lo \<le> source e \<and> (\<exists>v\<in>set cn. target e = nid v))"

text \<open>Node \<open>u\<close> is joined to another node of cluster \<open>c\<close> by an edge of cluster \<open>c\<close>.\<close>

definition hasPartner :: "nat \<Rightarrow> 'c node_of list \<Rightarrow> edge list \<Rightarrow> 'c node_of \<Rightarrow> bool" where
  "hasPartner c ns es u =
     (\<exists>v\<in>set ns. clusterId v = Some c \<and> nid v \<noteq> nid u \<and>
        (\<exists>e\<in>set es. edgeClusterId e = Some c \<and>
           ((source e = nid u \<and> target e = nid v) \<or> (source e = nid v \<and> target e = nid u))))"

text \<open>
  What the satellite loop of cluster \<open>c\<close> keeps, from the nodes \<open>ns0\<close>, main nodes
  \<open>cn0\<close> and edges \<open>es0\<close> it starts with.
\<close>

definition satInv ::
  "nat \<Rightarrow> node list \<Rightarrow> node list \<Rightarrow> edge list \<Rightarrow> node list \<times> node list \<times> edge list \<Rightarrow> bool" where
  "satInv c cn0 ns0 es0 st =
     (idsOk (fst st)
      \<and> extends (satelliteLike c) ns0 (fst st)
      \<and> extends (satelliteLike c) cn0 (fst (snd st))
      \<and> extends (satEdgeLike c cn0 (length ns0)) es0 (snd (snd st))
      \<and> edgesBelow (length (fst st)) (snd (snd st))
      \<and> set (fst (snd st)) \<subseteq> set (fst st)
      \<and> (\<forall>u\<in>set (fst st). u \<notin> set ns0 \<longrightarrow>
            (\<exists>e\<in>set (snd (snd st)). \<exists>v\<in>set cn0.
               edgeClusterId e = Some c \<and> source e = nid u \<and> target e = nid v)))"

text \<open>
  What holds of \<open>this.nodes\<close>, \<open>this.edges\<close> and \<open>this.muleClusters\<close> after \<open>k\<close>
  iterations of the cluster loop, on a canvas of width \<open>W\<close> and height \<open>H\<close>. The main
  nodes of cluster \<open>j\<close> are what \<open>clusterNodes\<close> held when its innocent loop ran: the
  nodes of \<open>muleClusters[j]\<close> that are not satellites.
\<close>

definition mainNodes :: "node list list \<Rightarrow> nat \<Rightarrow> node list" where
  "mainNodes cls j = filter (\<lambda>n. \<not> isSatellite n) (cls ! j)"

definition nodeOk ::
  "random_source \<Rightarrow> real \<Rightarrow> real \<Rightarrow> nat \<Rightarrow> node list \<Rightarrow> edge list \<Rightarrow> node list list \<Rightarrow> node \<Rightarrow> bool" where
  "nodeOk orc W H k ns es cls u =
     (if isHighRisk u
      then (\<exists>j<k. clusterId u = Some j \<and> \<not> isInnocentNearCluster u \<and> hasPartner j ns es u)
      else (\<exists>j<k. innocentLike orc j (clusterPositions W H ! j) (mainNodes cls j) u))"

definition genInv ::
  "random_source \<Rightarrow> real \<Rightarrow> real \<Rightarrow> nat \<Rightarrow> node list \<times> edge list \<times> node list list \<Rightarrow> bool" where
  "genInv orc W H k st =
     (idsOk (fst st)
      \<and> edgesBelow (length (fst st)) (fst (snd st))
      \<and> length (fst st) \<le> 22 * k
      \<and> length (snd (snd st)) = k
      \<and> list_all (nodeOk orc W H k (fst st) (fst (snd st)) (snd (snd st))) (fst st)
      \<and> list_all (\<lambda>e. \<exists>j<k. edgeClusterId e = Some j) (fst (snd st))
      \<and> (\<forall>j<k. set (snd (snd st) ! j) \<subseteq> set (fst st)
                 \<and> list_all (\<lambda>u. clusterId u = Some j) (snd (snd st) ! j)
                 \<and> 2 \<le> length (snd (snd st) ! j)
                 \<and> innocentsPlaced orc j (clusterPositions W H ! j) (mainNodes (snd (snd st)) j)
                       (fst st)))"

text \<open>
  The low-risk loop on grid \<open>g\<close>: whether candidate \<open>i\<close> passes the two tests of the
  loop, and the candidates the loop keeps, in order: those among the first
  \<open>lowRiskCount * 1.3\<close> that pass, up to \<open>lowRiskCount\<close> of them.
\<close>

definition lowRiskClear :: "random_source \<Rightarrow> grid \<Rightarrow> nat \<Rightarrow> bool" where
  "lowRiskClear orc g i =
     (\<not> tooCloseToCluster g (lowRiskPos orc g i) \<and> \<not> outsideBounds g (lowRiskPos orc g i))"

definition keptCandidates :: "random_source \<Rightarrow> grid \<Rightarrow> nat list" where
  "keptCandidates orc g =
     take (nat (lowRiskCount g))
       (filter (lowRiskClear orc g) [0..<nat \<lceil>real_of_int (lowRiskCount g) * (13 / 10)\<rceil>])"

text \<open>A node as the low-risk loop makes it, and an edge that carries no cluster id.\<close>

definition lowLike :: "grid \<Rightarrow> jsnode \<Rightarrow> bool" where
  "lowLike g u =
     (\<not> isHighRisk u \<and> \<not> isInnocentNearCluster u \<and> \<not> isSatellite u \<and> clusterId u = None
      \<and> \<not> tooCloseToCluster g (posX u, posY u) \<and> \<not> outsideBounds g (posX u, posY u))"

definition plainEdge :: "nat \<Rightarrow> edge \<Rightarrow> bool" where
  "plainEdge n e = (edgeClusterId e = None \<and> source e < n \<and> target e < n)"

definition diameterEdge :: "jsnode list list \<Rightarrow> nat \<Rightarrow> edge \<Rightarrow> bool" where
  "diameterEdge cls n e =
     (source e < n \<and> target e < n \<and>
      (\<exists>j<length cls. \<exists>a\<in>set (cls ! j). \<exists>b\<in>set (cls ! j).
          edgeClusterId e = clusterId a \<and> source e = nid a \<and> target e = nid b))"

text \<open>
  The stages of \<open>generateNetworkData\<close> by name: the two paddings, the state after
  the cluster loop and the grid of the low-risk population.
\<close>

definition paddingOf :: "widget \<Rightarrow> real" where
  "paddingOf w = (if isMobile w then 20 else 40)"

definition clusterPhase :: "random_source \<Rightarrow> widget \<Rightarrow> node list \<times> edge list \<times> node list list" where
  "clusterPhase orc w =
     foldl (genCluster orc (width w) (height w) (paddingOf w)) ([], [], []) [0..<MULE_CLUSTERS]"

definition topPaddingOf :: "widget \<Rightarrow> real" where
  "topPaddingOf w = (if isMobile w then 80 else paddingOf w)"

definition gridOf :: "random_source \<Rightarrow> widget \<Rightarrow> grid" where
  "gridOf orc w =
     mkGrid (width w) (height w) (paddingOf w) (topPaddingOf w)
       (length (fst (clusterPhase orc w)))"


text \<open>
  A desktop canvas 800 wide whose height, 80, is exactly the two vertical paddings of
  40: the effective height of the grid is 0.
\<close>

definition flatWidget :: widget where
  "flatWidget = exampleWidget\<lparr>height := 80\<rparr>"

subsection \<open>Random sources used as examples\<close>

text \<open>Every \<open>Math.random()\<close> is 1/2 and no shuffle moves anything.\<close>

definition halfSource :: random_source where
  "halfSource = \<lparr>rnd = (\<lambda>s ix. 1 / 2), shuffle = (\<lambda>s ix. [])\<rparr>"

text \<open>
  A run in which every cluster has nine main nodes, node \<open>i\<close> draws two web connections
  and the shuffle puts the two other nodes of its block of three first, no
  cross-connection is drawn, and each of the two satellites is joined to the first main
  node only.
\<close>

definition splitSource :: random_source where
  "splitSource =
     \<lparr>rnd = (\<lambda>s ix. if s = ClusterCount then 1 / 5 else if s = CrossChance then 9 / 10 else 0),
      shuffle = (\<lambda>s ix. case s of
                   ConnShuffle \<Rightarrow> (case ix of [c, i] \<Rightarrow> [3 * (i div 3), 3 * (i div 3)] | _ \<Rightarrow> [])
                 | SatShuffle \<Rightarrow> [])\<rparr>"

text \<open>
  The block of three a node id of the first cluster lies in (the satellites, whose ids
  are past the nine main nodes, count with the first block), and an edge of cluster
  \<open>c\<close> that stays inside a block, for a cluster whose main nodes start at id \<open>base\<close>.
\<close>

definition blockLabel :: "nat \<Rightarrow> nat" where
  "blockLabel x = (if x < 9 then x div 3 else 0)"

definition splitEdge :: "nat \<Rightarrow> nat \<Rightarrow> edge \<Rightarrow> bool" where
  "splitEdge c base e =
     (edgeClusterId e = Some c \<and> base \<le> source e \<and> base \<le> target e
      \<and> blockLabel (source e - base) = blockLabel (target e - base))"

text \<open>
  A run in which every \<open>Math.random()\<close> is 0, but for the horizontal jitter of the
  innocent nodes, which is 1/2 (no jitter). The first innocent node of cluster 0 lands
  40 to the right of the cluster centre, clear of every main node, and all 25 tries for
  a false connection pick that node and the hub of cluster 0.
\<close>

definition dupSource :: random_source where
  "dupSource = \<lparr>rnd = (\<lambda>s ix. if s = InnJitterX then 1 / 2 else 0), shuffle = (\<lambda>s ix. [])\<rparr>"

section \<open>Theorems: i18n.js\<close>

lemma splitOn_nonempty: "splitOn c s \<noteq> []"
  by (induction s) (auto split: list.splits)

lemma detectFromBrowser_supported: "isLanguageSupported (detectFromBrowser nav)"
  by (simp add: detectFromBrowser_def isLanguageSupported_def supportedLanguages_def)

lemma detectFromGeo_supported: "isLanguageSupported (detectFromGeo geo nav)"
  by (auto simp: detectFromGeo_def detectFromBrowser_supported split: option.splits)

lemma detectFromBrowser_cases:
  "detectFromBrowser nav = browserLanguageOf nav \<or> detectFromBrowser nav = ''en''"
  by (simp add: detectFromBrowser_def)

lemma detectFromGeo_cases:
  "(\<exists>cc. geo = GeoCountry cc \<and> getLanguageFromCountry cc = Some (detectFromGeo geo nav))
   \<or> detectFromGeo geo nav = browserLanguageOf nav \<or> detectFromGeo geo nav = ''en''"
  using detectFromBrowser_cases[of nav]
  by (cases geo) (auto simp: detectFromGeo_def split: option.splits)

text \<open>
  Claim C10. For every saved preference, geolocation outcome (failure included) and
  browser language, \<open>detectLanguage\<close> returns a member of the supported-language
  list. The result is the saved preference, the language of the geolocated country, the
  browser language or \<open>en\<close>; a saved preference that is supported wins; otherwise
  the language of a geolocated country in the country table wins; otherwise the browser
  language is returned if it is supported, and \<open>en\<close> if not.
\<close>

theorem detectLanguage_supported:
  "detectLanguage saved geo nav \<in> set supportedLanguages \<and>
   (saved = Some (detectLanguage saved geo nav)
    \<or> (\<exists>cc. geo = GeoCountry cc \<and> getLanguageFromCountry cc = Some (detectLanguage saved geo nav))
    \<or> detectLanguage saved geo nav = browserLanguageOf nav
    \<or> detectLanguage saved geo nav = ''en'') \<and>
   (\<forall>s. saved = Some s \<and> isLanguageSupported s \<longrightarrow> detectLanguage saved geo nav = s) \<and>
   (\<forall>cc g. (\<forall>s. saved = Some s \<longrightarrow> \<not> isLanguageSupported s) \<and> geo = GeoCountry cc \<and>
       getLanguageFromCountry cc = Some g \<longrightarrow> detectLanguage saved geo nav = g) \<and>
   ((\<forall>s. saved = Some s \<longrightarrow> \<not> isLanguageSupported s) \<and>
    (\<forall>cc. geo = GeoCountry cc \<longrightarrow> getLanguageFromCountry cc = None) \<longrightarrow>
      detectLanguage saved geo nav =
        (if isLanguageSupported (browserLanguageOf nav) then browserLanguageOf nav else ''en''))"
proof -
  have a: "detectLanguage saved geo nav \<in> set supportedLanguages"
    using detectFromGeo_supported[of geo nav]
    by (auto simp: detectLanguage_def isLanguageSupported_def split: option.splits)
  have b: "saved = Some (detectLanguage saved geo nav)
    \<or> (\<exists>cc. geo = GeoCountry cc \<and> getLanguageFromCountry cc = Some (detectLanguage saved geo nav))
    \<or> detectLanguage saved geo nav = browserLanguageOf nav
    \<or> detectLanguage saved geo nav = ''en''"
    using detectFromGeo_cases[of geo nav]
    by (auto simp: detectLanguage_def split: option.splits)
  have c: "\<forall>s. saved = Some s \<and> isLanguageSupported s \<longrightarrow> detectLanguage saved geo nav = s"
    by (auto simp: detectLanguage_def isLanguageSupported_def supportedLanguages_def)
  have sup: "getLanguageFromCountry cc = Some g \<Longrightarrow> g \<noteq> [] \<and> isLanguageSupported g" for cc g
    by (auto simp: getLanguageFromCountry_def countryToLanguage_def isLanguageSupported_def
        supportedLanguages_def split: if_splits)
  have d: "\<forall>cc g. (\<forall>s. saved = Some s \<longrightarrow> \<not> isLanguageSupported s) \<and> geo = GeoCountry cc \<and>
       getLanguageFromCountry cc = Some g \<longrightarrow> detectLanguage saved geo nav = g"
  proof (intro allI impI)
    fix cc g
    assume h: "(\<forall>s. saved = Some s \<longrightarrow> \<not> isLanguageSupported s) \<and> geo = GeoCountry cc \<and>
       getLanguageFromCountry cc = Some g"
    then have "cc \<noteq> []"
      by (auto simp: getLanguageFromCountry_def countryToLanguage_def)
    with h sup[of cc g] show "detectLanguage saved geo nav = g"
      by (auto simp: detectLanguage_def detectFromGeo_def split: option.splits)
  qed
  have e: "(\<forall>s. saved = Some s \<longrightarrow> \<not> isLanguageSupported s) \<and>
    (\<forall>cc. geo = GeoCountry cc \<longrightarrow> getLanguageFromCountry cc = None) \<longrightarrow>
      detectLanguage saved geo nav =
        (if isLanguageSupported (browserLanguageOf nav) then browserLanguageOf nav else ''en'')"
    by (cases geo) (auto simp: detectLanguage_def detectFromGeo_def detectFromBrowser_def split: option.splits)
  from a b c d e show ?thesis by blast
qed

theorem detectLanguage_supported_witness:
  "detectLanguage (Some ''xx'') (GeoCountry ''MX'') ''de-AT'' = ''es'' \<and>
   detectLanguage (Some ''fr'') (GeoCountry ''MX'') ''de-AT'' = ''fr'' \<and>
   detectLanguage None GeoFailed ''de-AT'' = ''de'' \<and>
   ''es'' \<in> set supportedLanguages"
proof -
  have u: "\<forall>s. Some ''xx'' = Some s \<longrightarrow> \<not> isLanguageSupported s"
    by (simp add: isLanguageSupported_def supportedLanguages_def)
  have g: "getLanguageFromCountry ''MX'' = Some ''es''"
    by (simp add: getLanguageFromCountry_def countryToLanguage_def)
  have 1: "detectLanguage (Some ''xx'') (GeoCountry ''MX'') ''de-AT'' = ''es''"
    using detectLanguage_supported[of "Some ''xx''" "GeoCountry ''MX''" "''de-AT''"] u g by blast
  have f: "isLanguageSupported ''fr''"
    by (simp add: isLanguageSupported_def supportedLanguages_def)
  have 2: "detectLanguage (Some ''fr'') (GeoCountry ''MX'') ''de-AT'' = ''fr''"
    using detectLanguage_supported[of "Some ''fr''" "GeoCountry ''MX''" "''de-AT''"] f by blast
  have b: "browserLanguageOf ''de-AT'' = ''de''"
    by (simp add: browserLanguageOf_def)
  have 3: "detectLanguage None GeoFailed ''de-AT'' = ''de''"
    using detectLanguage_supported[of None GeoFailed "''de-AT''"] b
    by (simp add: isLanguageSupported_def supportedLanguages_def)
  have 4: "''es'' \<in> set supportedLanguages"
    using detectLanguage_supported[of "Some ''xx''" "GeoCountry ''MX''" "''de-AT''"] 1 by simp
  from 1 2 3 4 show ?thesis by simp
qed

lemma t_unfold:
  "t env tables key language =
     (case resolve env tables language key of
        None \<Rightarrow>
          (if language \<noteq> fallbackLanguage then t env tables key fallbackLanguage else JStr key)
      | Some v \<Rightarrow> orKey v key)"
  by (simp add: resolve_def t.simps[of env tables key language])

lemma orKey_cases: "orKey v key = JStr key \<or> v = Some (orKey v key)"
  by (auto simp: orKey_def split: option.splits)

text \<open>
  Claim C7, as amended. For every dotted key, every language and every content of the
  two prototypes, \<open>t\<close> returns either the raw key or the value that property access
  (own properties first, then the prototype chain) finds at the key's path in
  \<open>this.translations[language]\<close> or in \<open>this.translations['en']\<close>: the requested
  language's value when the path resolves there to a truthy value; the result of the
  \<open>en\<close> lookup when the walk in the requested language stops early, at a missing
  or non-object value; the raw key when the walk stops early in both tables. \<open>t\<close> is
  a total function: it has no failing branch.
\<close>

theorem t_lookup:
  "(\<forall>j. resolve env tables language key = Some (Some j) \<and> truthy (Some j) \<longrightarrow>
        t env tables key language = j) \<and>
   (resolve env tables language key = None \<and> language \<noteq> fallbackLanguage \<longrightarrow>
        t env tables key language = t env tables key fallbackLanguage) \<and>
   (resolve env tables language key = None \<and> resolve env tables fallbackLanguage key = None \<longrightarrow>
        t env tables key language = JStr key) \<and>
   (t env tables key language = JStr key
    \<or> resolve env tables language key = Some (Some (t env tables key language))
    \<or> resolve env tables fallbackLanguage key = Some (Some (t env tables key language)))"
proof -
  have a: "\<forall>j. resolve env tables language key = Some (Some j) \<and> truthy (Some j) \<longrightarrow>
        t env tables key language = j"
    by (auto simp: t_unfold orKey_def simp del: t.simps)
  have b: "resolve env tables language key = None \<and> language \<noteq> fallbackLanguage \<longrightarrow>
        t env tables key language = t env tables key fallbackLanguage"
    by (subst t_unfold) (auto simp del: t.simps)
  have c: "resolve env tables language key = None \<and> resolve env tables fallbackLanguage key = None \<longrightarrow>
        t env tables key language = JStr key"
    by (subst t_unfold, cases "language = fallbackLanguage")
       (auto simp del: t.simps simp: t_unfold[of env tables key fallbackLanguage])
  have fb: "t env tables key fallbackLanguage = JStr key
    \<or> resolve env tables fallbackLanguage key = Some (Some (t env tables key fallbackLanguage))"
  proof (cases "resolve env tables fallbackLanguage key")
    case None
    then have "t env tables key fallbackLanguage = JStr key"
      by (subst t_unfold) simp
    then show ?thesis by simp
  next
    case (Some v)
    then have "t env tables key fallbackLanguage = orKey v key"
      by (subst t_unfold) simp
    with Some orKey_cases[of v key] show ?thesis by auto
  qed
  have d: "t env tables key language = JStr key
    \<or> resolve env tables language key = Some (Some (t env tables key language))
    \<or> resolve env tables fallbackLanguage key = Some (Some (t env tables key language))"
  proof (cases "resolve env tables language key")
    case None
    show ?thesis
    proof (cases "language = fallbackLanguage")
      case True
      with fb show ?thesis by auto
    next
      case False
      with None have "t env tables key language = t env tables key fallbackLanguage"
        using b by blast
      with fb show ?thesis by auto
    qed
  next
    case (Some v)
    then have "t env tables key language = orKey v key"
      by (subst t_unfold) simp
    with Some orKey_cases[of v key] show ?thesis by auto
  qed
  from a b c d show ?thesis by blast
qed

text \<open>
  The claim as stated fails: a key that names a section of the table returns the
  section, an object, not a string.
\<close>

theorem t_string_counterexample:
  "t exampleEnv exampleTables ''nav'' ''en'' = JObj [(''home'', JStr ''Home'')] \<and>
   \<not> isString (t exampleEnv exampleTables ''nav'' ''en'')"
  by (simp add: t.simps tableOf_def exampleTables_def fallbackLanguage_def orKey_def
      isString_def)

text \<open>
  A key that names an inherited member returns that member, a function; and a language
  that names the accessor \<open>__proto__\<close> makes \<open>t\<close> walk \<open>Object.prototype\<close>: a
  one-segment key that is not a member ends the loop with \<open>undefined\<close>, and the raw
  key is returned although \<open>en\<close> holds the key.
\<close>

lemma t_inherited_member:
  "t exampleEnv exampleTables ''toString'' ''en'' = JFun ''toString'' \<and>
   t exampleEnv exampleTables ''nav.constructor'' ''en'' = JFun ''Object'' \<and>
   t exampleEnv exampleTables ''nav'' ''__proto__'' = JStr ''nav'' \<and>
   t exampleEnv exampleTables ''nav.home'' ''__proto__'' = JStr ''Home''"
  by (simp add: t.simps tableOf_def inheritedObject_def exampleTables_def exampleEnv_def
      fallbackLanguage_def orKey_def)

text \<open>
  When only the last segment of the key is missing in the requested language, the loop
  runs to its end with \<open>undefined\<close> in hand and \<open>value || key\<close> returns the raw
  key: the fallback table is not consulted, although it holds the translation.
\<close>

lemma t_missing_leaf_no_fallback:
  "t exampleEnv exampleTables ''nav.home'' ''es'' = JStr ''nav.home'' \<and>
   t exampleEnv exampleTables ''nav.home'' ''en'' = JStr ''Home''"
  by (simp add: t.simps tableOf_def inheritedObject_def exampleTables_def exampleEnv_def
      fallbackLanguage_def orKey_def)

theorem t_lookup_witness:
  "t exampleEnv exampleTables ''nav.home'' ''en'' = JStr ''Home'' \<and>
   t exampleEnv exampleTables ''nav.home'' ''de'' = JStr ''Home'' \<and>
   t exampleEnv exampleTables ''x.y'' ''de'' = JStr ''x.y'' \<and>
   t exampleEnv exampleTables ''toString'' ''en'' = JFun ''toString'' \<and>
   t exampleEnv exampleTables ''nav.home'' ''__proto__'' = JStr ''Home''"
proof -
  have r1: "resolve exampleEnv exampleTables ''en'' ''nav.home'' = Some (Some (JStr ''Home''))"
    by (simp add: resolve_def tableOf_def exampleTables_def)
  have r2: "resolve exampleEnv exampleTables ''de'' ''nav.home'' = None"
    by (simp add: resolve_def tableOf_def inheritedObject_def exampleTables_def exampleEnv_def)
  have r3: "resolve exampleEnv exampleTables ''de'' ''x.y'' = None"
    by (simp add: resolve_def tableOf_def inheritedObject_def exampleTables_def exampleEnv_def)
  have r4: "resolve exampleEnv exampleTables fallbackLanguage ''x.y'' = None"
    by (simp add: resolve_def tableOf_def inheritedObject_def exampleTables_def exampleEnv_def
        fallbackLanguage_def)
  have 1: "t exampleEnv exampleTables ''nav.home'' ''en'' = JStr ''Home''"
    using t_lookup[of exampleEnv exampleTables "''en''" "''nav.home''"] r1 by simp
  have ne: "''de'' \<noteq> fallbackLanguage" by (simp add: fallbackLanguage_def)
  have "t exampleEnv exampleTables ''nav.home'' ''de''
          = t exampleEnv exampleTables ''nav.home'' fallbackLanguage"
    using t_lookup[of exampleEnv exampleTables "''de''" "''nav.home''"] r2 ne by blast
  with 1 have 2: "t exampleEnv exampleTables ''nav.home'' ''de'' = JStr ''Home''"
    by (simp add: fallbackLanguage_def)
  have 3: "t exampleEnv exampleTables ''x.y'' ''de'' = JStr ''x.y''"
    using t_lookup[of exampleEnv exampleTables "''de''" "''x.y''"] r3 r4 by blast
  have r5: "resolve exampleEnv exampleTables ''en'' ''toString'' = Some (Some (JFun ''toString''))"
    by (simp add: resolve_def tableOf_def inheritedObject_def exampleTables_def exampleEnv_def)
  have 4: "t exampleEnv exampleTables ''toString'' ''en'' = JFun ''toString''"
    using t_lookup[of exampleEnv exampleTables "''en''" "''toString''"] r5 by simp
  have r6: "resolve exampleEnv exampleTables ''__proto__'' ''nav.home'' = None"
    by (simp add: resolve_def tableOf_def inheritedObject_def exampleTables_def exampleEnv_def)
  have np: "''__proto__'' \<noteq> fallbackLanguage" by (simp add: fallbackLanguage_def)
  have "t exampleEnv exampleTables ''nav.home'' ''__proto__''
          = t exampleEnv exampleTables ''nav.home'' fallbackLanguage"
    using t_lookup[of exampleEnv exampleTables "''__proto__''" "''nav.home''"] r6 np by blast
  with 1 have 5: "t exampleEnv exampleTables ''nav.home'' ''__proto__'' = JStr ''Home''"
    by (simp add: fallbackLanguage_def)
  from 1 2 3 4 5 show ?thesis by simp
qed

section \<open>Theorems: camera zoom\<close>

lemma ease_range: "0 \<le> p \<Longrightarrow> p \<le> 1 \<Longrightarrow> 0 \<le> easeInOutCubic p \<and> easeInOutCubic p \<le> 1"
proof -
  assume p: "0 \<le> p" "p \<le> 1"
  show ?thesis
  proof (cases "p < 1/2")
    case True
    have "p * p * p \<le> (1/2) * (1/2) * (1/2)"
      using p True by (intro mult_mono) auto
    moreover have "0 \<le> p * p * p" using p by simp
    ultimately show ?thesis using True by (simp add: easeInOutCubic_def)
  next
    case False
    define q where "q = 2 - 2 * p"
    have q: "0 \<le> q" "q \<le> 1" using p False by (auto simp: q_def)
    have "q ^ 3 \<le> 1" using q by (simp add: power_le_one)
    moreover have "0 \<le> q ^ 3" using q by simp
    ultimately show ?thesis using False by (simp add: easeInOutCubic_def q_def)
  qed
qed

lemma ease_half: "easeInOutCubic (1/2) = 1/2"
  by (simp add: easeInOutCubic_def power3_eq_cube)

lemma lerp_between: "a \<le> b \<Longrightarrow> 0 \<le> f \<Longrightarrow> f \<le> 1 \<Longrightarrow> a \<le> lerp a b f \<and> lerp a b f \<le> b"
proof -
  assume h: "a \<le> b" "0 \<le> f" "f \<le> 1"
  have "0 \<le> (b - a) * f" using h by simp
  moreover have "(b - a) * f \<le> (b - a) * 1" using h by (intro mult_left_mono) auto
  ultimately show ?thesis by (simp add: lerp_def)
qed

lemma updateZoom_inv: "zoomInv tr \<Longrightarrow> 0 \<le> d \<Longrightarrow> zoomInv (updateZoom d tr)"
proof -
  assume inv: "zoomInv tr" and d: "0 \<le> d"
  show ?thesis
  proof (cases "isZooming tr")
    case False
    then show ?thesis using inv by (simp add: updateZoom_def)
  next
    case True
    define pr where "pr = zoomProgress tr + d / ZOOM_DURATION"
    have pr0: "0 \<le> pr" using inv d by (simp add: pr_def zoomInv_def ZOOM_DURATION_def)
    show ?thesis
    proof (cases "pr \<ge> 1")
      case True
      have e: "0 \<le> easeInOutCubic 1 \<and> easeInOutCubic 1 \<le> 1" using ease_range[of 1] by simp
      have "1 \<le> lerp (scale tr) 2 (easeInOutCubic 1) \<and> lerp (scale tr) 2 (easeInOutCubic 1) \<le> 2"
        using lerp_between[of "scale tr" 2 "easeInOutCubic 1"] e inv by (auto simp: zoomInv_def)
      then show ?thesis using inv True \<open>isZooming tr\<close>
        by (simp add: updateZoom_def Let_def zoomInv_def pr_def)
    next
      case False
      then have p1: "pr \<le> 1" by simp
      have e: "0 \<le> easeInOutCubic pr \<and> easeInOutCubic pr \<le> 1" using ease_range[OF pr0 p1] .
      have "1 \<le> lerp (scale tr) 2 (easeInOutCubic pr) \<and> lerp (scale tr) 2 (easeInOutCubic pr) \<le> 2"
        using lerp_between[of "scale tr" 2 "easeInOutCubic pr"] e inv by (auto simp: zoomInv_def)
      then show ?thesis using inv False \<open>isZooming tr\<close> pr0 p1
        by (simp add: updateZoom_def Let_def zoomInv_def pr_def)
    qed
  qed
qed

lemma zoomFrames_snoc: "zoomFrames (ds @ [d]) tr = updateZoom d (zoomFrames ds tr)"
  by (simp add: zoomFrames_def)

lemma zoomFrames_inv: "\<forall>d\<in>set ds. 0 \<le> d \<Longrightarrow> zoomInv (zoomFrames ds zoomStart)"
proof (induction ds rule: rev_induct)
  case Nil
  show ?case by (simp add: zoomFrames_def zoomInv_def zoomStart_def)
next
  case (snoc d ds)
  then show ?case by (simp add: zoomFrames_snoc updateZoom_inv)
qed

lemma updateZoom_half:
  assumes "isZooming tr" "zoomProgress tr + d / ZOOM_DURATION = 1/2"
  shows "scale (updateZoom d tr) = (scale tr + targetScale tr) / 2"
  unfolding updateZoom_def Let_def assms(2) using assms(1)
  by (simp add: ease_half lerp_def field_simps)

text \<open>
  Claim C2, as amended. The frame that brings the accumulated zoom progress to exactly
  1/2 sets the scale to the midpoint of the scale the previous frames left and the
  target: each frame blends from the current scale, not from the starting scale. For a
  transition from scale 1 to target scale 2 and non-negative frame delta-times, that
  value is 1.5 when the progress reaches 1/2 in the first frame (one frame of D/2), and
  lies between 1.5 and 2 otherwise.
\<close>

theorem zoom_half_scale:
  "(\<forall>d\<in>set ds. 0 \<le> d) \<and> 0 \<le> d \<and>
   zoomProgress (zoomFrames ds zoomStart) + d / ZOOM_DURATION = 1 / 2 \<longrightarrow>
     scale (zoomFrames (ds @ [d]) zoomStart) = (scale (zoomFrames ds zoomStart) + 2) / 2 \<and>
     3 / 2 \<le> scale (zoomFrames (ds @ [d]) zoomStart) \<and>
     scale (zoomFrames (ds @ [d]) zoomStart) \<le> 2 \<and>
     (ds = [] \<longrightarrow> scale (zoomFrames (ds @ [d]) zoomStart) = 3 / 2)"
proof (intro impI)
  assume h: "(\<forall>d\<in>set ds. 0 \<le> d) \<and> 0 \<le> d \<and>
   zoomProgress (zoomFrames ds zoomStart) + d / ZOOM_DURATION = 1 / 2"
  let ?tr = "zoomFrames ds zoomStart"
  have inv: "zoomInv ?tr" using h zoomFrames_inv by blast
  have "d / ZOOM_DURATION \<ge> 0" using h by (simp add: ZOOM_DURATION_def)
  then have "zoomProgress ?tr \<noteq> 1" using h by linarith
  then have z: "isZooming ?tr" using inv by (auto simp: zoomInv_def)
  have eq: "scale (zoomFrames (ds @ [d]) zoomStart) = (scale ?tr + 2) / 2"
    using updateZoom_half[OF z] h inv by (simp add: zoomFrames_snoc zoomInv_def)
  have b: "1 \<le> scale ?tr \<and> scale ?tr \<le> 2" using inv by (simp add: zoomInv_def)
  have e: "ds = [] \<longrightarrow> scale ?tr = 1" by (simp add: zoomFrames_def zoomStart_def)
  from eq b e show "scale (zoomFrames (ds @ [d]) zoomStart) = (scale (zoomFrames ds zoomStart) + 2) / 2 \<and>
     3 / 2 \<le> scale (zoomFrames (ds @ [d]) zoomStart) \<and>
     scale (zoomFrames (ds @ [d]) zoomStart) \<le> 2 \<and>
     (ds = [] \<longrightarrow> scale (zoomFrames (ds @ [d]) zoomStart) = 3 / 2)"
    by auto
qed

theorem zoom_half_scale_witness:
  "scale (zoomFrames [400] zoomStart) = 3 / 2"
proof -
  have "zoomProgress (zoomFrames [] zoomStart) + 400 / ZOOM_DURATION = 1 / 2"
    by (simp add: zoomFrames_def zoomStart_def ZOOM_DURATION_def)
  then show ?thesis using zoom_half_scale[of "[]" 400] by simp
qed

text \<open>
  Two frames of 200 ms reach progress 1/2 at time D/2 = 400 ms with scale 1.53125.
\<close>

theorem zoom_half_counterexample:
  "zoomProgress (zoomFrames [200, 200] zoomStart) = 1 / 2 \<and>
   scale (zoomFrames [200, 200] zoomStart) = 49 / 32 \<and>
   scale (zoomFrames [200, 200] zoomStart) \<noteq> 1 + (2 - 1) * easeInOutCubic (1 / 2)"
  by (simp add: zoomFrames_def zoomStart_def updateZoom_def Let_def ZOOM_DURATION_def
      easeInOutCubic_def lerp_def power3_eq_cube)

section \<open>Theorems: hit-testing\<close>

lemma distance_sq: "(distance x1 y1 x2 y2)\<^sup>2 = (x2 - x1)\<^sup>2 + (y2 - y1)\<^sup>2"
  by (simp add: distance_def)

lemma distance_le_iff:
  "distance a b c d \<le> distance a b e f \<longleftrightarrow> (c - a)\<^sup>2 + (d - b)\<^sup>2 \<le> (e - a)\<^sup>2 + (f - b)\<^sup>2"
  by (simp add: distance_def)

lemma perpendicular_distance:
  assumes L: "C * C + D * D \<noteq> (0::real)"
  shows "sqrt ((Sx + (A * C + B * D) / (C * C + D * D) * C - (Sx + A))\<^sup>2
             + (Sy + (A * C + B * D) / (C * C + D * D) * D - (Sy + B))\<^sup>2)
         = \<bar>A * D - B * C\<bar> / sqrt (C * C + D * D)"
proof -
  define L where "L = C * C + D * D"
  have Lpos: "0 < L" using assms unfolding L_def
    by (metis add_nonneg_nonneg less_eq_real_def zero_le_square)
  define q where "q = (A * C + B * D) / L"
  have "(q * C - A)\<^sup>2 + (q * D - B)\<^sup>2 = (A * D - B * C)\<^sup>2 / L"
  proof -
    have "L * ((q * C - A)\<^sup>2 + (q * D - B)\<^sup>2) = (q * L)\<^sup>2 - 2 * (q * L) * (A * C + B * D) + L * (A\<^sup>2 + B\<^sup>2)"
      unfolding L_def by (simp add: power2_eq_square algebra_simps)
    also have "q * L = A * C + B * D" using Lpos by (simp add: q_def)
    also have "(A * C + B * D)\<^sup>2 - 2 * (A * C + B * D) * (A * C + B * D) + L * (A\<^sup>2 + B\<^sup>2) = (A * D - B * C)\<^sup>2"
      unfolding L_def by (simp add: power2_eq_square algebra_simps)
    finally show ?thesis using Lpos by (simp add: field_simps)
  qed
  then have "sqrt ((q * C - A)\<^sup>2 + (q * D - B)\<^sup>2) = \<bar>A * D - B * C\<bar> / sqrt L"
    by (simp add: real_sqrt_divide)
  moreover have "Sx + q * C - (Sx + A) = q * C - A" "Sy + q * D - (Sy + B) = q * D - B" by simp_all
  ultimately show ?thesis unfolding q_def L_def by simp
qed

text \<open>
  Claim C6. The distance \<open>findEdgeAtPosition\<close> computes from the probe position to an
  edge's segment: when the projection parameter is below 0 the nearest point is the
  source endpoint, which is then the nearer endpoint; when it is above 1 the nearest
  point is the target endpoint, which is then the nearer endpoint; otherwise the nearest
  point is the projection of the probe onto the line and the distance is the
  perpendicular distance. For the segment (0,0)-(10,0) and the probe (15,5) the nearest
  point is (10,0) and the distance is 5 * sqrt 2.
\<close>

theorem segmentDistance_cases:
  "(projectionParam (px, py) s e < 0 \<longrightarrow>
      nearestOnSegment (px, py) s e = (posX s, posY s) \<and>
      segmentDistance (px, py) s e = distance px py (posX s) (posY s) \<and>
      distance px py (posX s) (posY s) \<le> distance px py (posX e) (posY e)) \<and>
   (projectionParam (px, py) s e > 1 \<longrightarrow>
      nearestOnSegment (px, py) s e = (posX e, posY e) \<and>
      segmentDistance (px, py) s e = distance px py (posX e) (posY e) \<and>
      distance px py (posX e) (posY e) \<le> distance px py (posX s) (posY s)) \<and>
   (0 \<le> projectionParam (px, py) s e \<and> projectionParam (px, py) s e \<le> 1 \<longrightarrow>
      nearestOnSegment (px, py) s e =
        (posX s + projectionParam (px, py) s e * (posX e - posX s),
         posY s + projectionParam (px, py) s e * (posY e - posY s)) \<and>
      segmentDistance (px, py) s e =
        \<bar>(px - posX s) * (posY e - posY s) - (py - posY s) * (posX e - posX s)\<bar>
          / distance (posX s) (posY s) (posX e) (posY e)) \<and>
   nearestOnSegment (15, 5) (nodeAt 0 0 0) (nodeAt 1 10 0) = (10, 0) \<and>
   segmentDistance (15, 5) (nodeAt 0 0 0) (nodeAt 1 10 0) = 5 * sqrt 2"
proof -
  define A where "A = px - posX s"
  define B where "B = py - posY s"
  define C where "C = posX e - posX s"
  define D where "D = posY e - posY s"
  define L where "L = C * C + D * D"
  define q where "q = projectionParam (px, py) s e"
  have qdef: "q = (if L \<noteq> 0 then (A * C + B * D) / L else - 1)"
    by (simp add: q_def projectionParam_def Let_def A_def B_def C_def D_def L_def)
  have L0: "0 \<le> L" by (simp add: L_def)
  have ds: "(posX s - px)\<^sup>2 + (posY s - py)\<^sup>2 = A\<^sup>2 + B\<^sup>2"
    by (simp add: A_def B_def power2_commute)
  have de: "(posX e - px)\<^sup>2 + (posY e - py)\<^sup>2 = A\<^sup>2 + B\<^sup>2 - 2 * (A * C + B * D) + L"
    by (simp add: A_def B_def C_def D_def L_def power2_eq_square algebra_simps)
  have c1: "q < 0 \<longrightarrow>
      nearestOnSegment (px, py) s e = (posX s, posY s) \<and>
      segmentDistance (px, py) s e = distance px py (posX s) (posY s) \<and>
      distance px py (posX s) (posY s) \<le> distance px py (posX e) (posY e)"
  proof
    assume neg: "q < 0"
    have "A * C + B * D \<le> 0"
    proof (cases "L = 0")
      case True
      then have "C = 0 \<and> D = 0" unfolding L_def
        by (metis add_nonneg_eq_0_iff mult_eq_0_iff zero_le_square)
      then show ?thesis by simp
    next
      case False
      then have "0 < L" using L0 by simp
      with neg False show ?thesis by (simp add: qdef divide_less_0_iff)
    qed
    then have "distance px py (posX s) (posY s) \<le> distance px py (posX e) (posY e)"
      using L0 by (simp add: distance_le_iff ds de)
    with neg show "nearestOnSegment (px, py) s e = (posX s, posY s) \<and>
      segmentDistance (px, py) s e = distance px py (posX s) (posY s) \<and>
      distance px py (posX s) (posY s) \<le> distance px py (posX e) (posY e)"
      by (simp add: segmentDistance_def nearestOnSegment_def Let_def q_def[symmetric])
  qed
  have c2: "q > 1 \<longrightarrow>
      nearestOnSegment (px, py) s e = (posX e, posY e) \<and>
      segmentDistance (px, py) s e = distance px py (posX e) (posY e) \<and>
      distance px py (posX e) (posY e) \<le> distance px py (posX s) (posY s)"
  proof
    assume big: "q > 1"
    then have Lne: "L \<noteq> 0" by (auto simp: qdef split: if_splits)
    then have Lpos: "0 < L" using L0 by simp
    have "L < A * C + B * D" using big Lne Lpos by (simp add: qdef field_simps)
    then have "distance px py (posX e) (posY e) \<le> distance px py (posX s) (posY s)"
      using Lpos by (simp add: distance_le_iff ds de)
    with big show "nearestOnSegment (px, py) s e = (posX e, posY e) \<and>
      segmentDistance (px, py) s e = distance px py (posX e) (posY e) \<and>
      distance px py (posX e) (posY e) \<le> distance px py (posX s) (posY s)"
      by (simp add: segmentDistance_def nearestOnSegment_def Let_def q_def[symmetric])
  qed
  have c3: "0 \<le> q \<and> q \<le> 1 \<longrightarrow>
      nearestOnSegment (px, py) s e = (posX s + q * (posX e - posX s), posY s + q * (posY e - posY s)) \<and>
      segmentDistance (px, py) s e =
        \<bar>(px - posX s) * (posY e - posY s) - (py - posY s) * (posX e - posX s)\<bar>
          / distance (posX s) (posY s) (posX e) (posY e)"
  proof
    assume mid: "0 \<le> q \<and> q \<le> 1"
    then have Lne: "L \<noteq> 0" by (auto simp: qdef split: if_splits)
    then have qv: "q = (A * C + B * D) / (C * C + D * D)" by (simp add: qdef L_def)
    have near: "nearestOnSegment (px, py) s e = (posX s + q * C, posY s + q * D)"
      using mid by (simp add: nearestOnSegment_def Let_def q_def[symmetric] C_def D_def)
    have pxy: "px = posX s + A" "py = posY s + B" by (simp_all add: A_def B_def)
    have "segmentDistance (px, py) s e
        = sqrt ((posX s + q * C - (posX s + A))\<^sup>2 + (posY s + q * D - (posY s + B))\<^sup>2)"
      using near pxy by (simp add: segmentDistance_def Let_def distance_def)
    also have "\<dots> = \<bar>A * D - B * C\<bar> / sqrt (C * C + D * D)"
      unfolding qv using perpendicular_distance[of C D "posX s" A B "posY s"] Lne
      by (simp add: L_def)
    also have "sqrt (C * C + D * D) = distance (posX s) (posY s) (posX e) (posY e)"
      by (simp add: distance_def C_def D_def power2_eq_square)
    finally show "nearestOnSegment (px, py) s e = (posX s + q * (posX e - posX s), posY s + q * (posY e - posY s)) \<and>
      segmentDistance (px, py) s e =
        \<bar>(px - posX s) * (posY e - posY s) - (py - posY s) * (posX e - posX s)\<bar>
          / distance (posX s) (posY s) (posX e) (posY e)"
      using near by (simp add: A_def B_def C_def D_def)
  qed
  have p: "projectionParam (15, 5) (nodeAt 0 0 0) (nodeAt 1 10 0) = 3 / 2"
    by (simp add: projectionParam_def nodeAt_def Let_def)
  have n: "nearestOnSegment (15, 5) (nodeAt 0 0 0) (nodeAt 1 10 0) = (10, 0)"
    unfolding nearestOnSegment_def Let_def p by (simp add: nodeAt_def)
  have "segmentDistance (15, 5) (nodeAt 0 0 0) (nodeAt 1 10 0) = sqrt (5\<^sup>2 * 2)"
    unfolding segmentDistance_def Let_def n by (simp add: distance_def)
  also have "\<dots> = 5 * sqrt 2"
    by (simp only: real_sqrt_mult real_sqrt_abs)
  finally have ex: "segmentDistance (15, 5) (nodeAt 0 0 0) (nodeAt 1 10 0) = 5 * sqrt 2" .
  from c1 c2 c3 n ex show ?thesis unfolding q_def by blast
qed

theorem segmentDistance_cases_witness:
  "segmentDistance (- 3, 4) (nodeAt 0 0 0) (nodeAt 1 10 0) = 5 \<and>
   segmentDistance (13, 4) (nodeAt 0 0 0) (nodeAt 1 10 0) = 5 \<and>
   segmentDistance (5, 4) (nodeAt 0 0 0) (nodeAt 1 10 0) = 4"
proof -
  have p1: "projectionParam (- 3, 4) (nodeAt 0 0 0) (nodeAt 1 10 0) < 0"
    by (simp add: projectionParam_def nodeAt_def Let_def)
  have p2: "projectionParam (13, 4) (nodeAt 0 0 0) (nodeAt 1 10 0) > 1"
    by (simp add: projectionParam_def nodeAt_def Let_def)
  have p3: "0 \<le> projectionParam (5, 4) (nodeAt 0 0 0) (nodeAt 1 10 0) \<and>
            projectionParam (5, 4) (nodeAt 0 0 0) (nodeAt 1 10 0) \<le> 1"
    by (simp add: projectionParam_def nodeAt_def Let_def)
  have s25: "sqrt 25 = 5" using real_sqrt_abs[of 5] by simp
  have s100: "sqrt 100 = 10" using real_sqrt_abs[of 10] by simp
  have 1: "segmentDistance (- 3, 4) (nodeAt 0 0 0) (nodeAt 1 10 0) = 5"
    using segmentDistance_cases[of "- 3" 4 "nodeAt 0 0 0" "nodeAt 1 10 0"] p1
    by (simp add: distance_def nodeAt_def s25)
  have 2: "segmentDistance (13, 4) (nodeAt 0 0 0) (nodeAt 1 10 0) = 5"
    using segmentDistance_cases[of 13 4 "nodeAt 0 0 0" "nodeAt 1 10 0"] p2
    by (simp add: distance_def nodeAt_def s25)
  have 3: "segmentDistance (5, 4) (nodeAt 0 0 0) (nodeAt 1 10 0) = 4"
    using segmentDistance_cases[of 5 4 "nodeAt 0 0 0" "nodeAt 1 10 0"] p3
    by (simp add: distance_def nodeAt_def s100)
  from 1 2 3 show ?thesis by simp
qed

section \<open>Theorems: camera state machine\<close>

lemma closestLoop_result:
  "closestLoop x y acc ns = Some (n, d) \<Longrightarrow>
     (acc = Some (n, d) \<or> (n \<in> set ns \<and> isHighRisk n \<and> d = distance x y (posX n) (posY n)))"
proof (induction ns arbitrary: acc)
  case Nil
  then show ?case by simp
next
  case (Cons m ms)
  show ?case
  proof (cases "isHighRisk m")
    case False
    with Cons show ?thesis by auto
  next
    case True
    show ?thesis
    proof (cases acc)
      case None
      with True Cons.prems have "closestLoop x y (Some (m, distance x y (posX m) (posY m))) ms = Some (n, d)"
        by (simp add: Let_def)
      from Cons.IH[OF this] True show ?thesis by auto
    next
      case (Some a)
      obtain cn cd where a: "a = (cn, cd)" by (cases a)
      show ?thesis
      proof (cases "distance x y (posX m) (posY m) < cd")
        case T: True
        with True Some a Cons.prems have "closestLoop x y (Some (m, distance x y (posX m) (posY m))) ms = Some (n, d)"
          by (simp add: Let_def)
        from Cons.IH[OF this] True show ?thesis by auto
      next
        case F: False
        with True Some a Cons.prems have "closestLoop x y acc ms = Some (n, d)"
          by (simp add: Let_def)
        from Cons.IH[OF this] show ?thesis by auto
      qed
    qed
  qed
qed

lemma closestLoop_min:
  "closestLoop x y acc ns = Some (n, d) \<Longrightarrow>
     (\<forall>a da. acc = Some (a, da) \<longrightarrow> d \<le> da) \<and>
     (\<forall>m\<in>set ns. isHighRisk m \<longrightarrow> d \<le> distance x y (posX m) (posY m))"
proof (induction ns arbitrary: acc)
  case Nil
  then show ?case by simp
next
  case (Cons m ms)
  show ?case
  proof (cases "isHighRisk m")
    case False
    with Cons show ?thesis by auto
  next
    case True
    show ?thesis
    proof (cases acc)
      case None
      with True Cons.prems have "closestLoop x y (Some (m, distance x y (posX m) (posY m))) ms = Some (n, d)"
        by (simp add: Let_def)
      from Cons.IH[OF this] None show ?thesis by auto
    next
      case (Some a)
      obtain cn cd where a: "a = (cn, cd)" by (cases a)
      show ?thesis
      proof (cases "distance x y (posX m) (posY m) < cd")
        case T: True
        with True Some a Cons.prems have "closestLoop x y (Some (m, distance x y (posX m) (posY m))) ms = Some (n, d)"
          by (simp add: Let_def)
        from Cons.IH[OF this] Some a T show ?thesis by auto
      next
        case F: False
        with True Some a Cons.prems have "closestLoop x y acc ms = Some (n, d)"
          by (simp add: Let_def)
        from Cons.IH[OF this] Some a F show ?thesis by auto
      qed
    qed
  qed
qed

lemma closestLoop_some:
  "acc \<noteq> None \<or> (\<exists>m\<in>set ns. isHighRisk m) \<Longrightarrow> closestLoop x y acc ns \<noteq> None"
proof (induction ns arbitrary: acc)
  case Nil
  then show ?case by simp
next
  case (Cons m ms)
  show ?case
  proof (cases "isHighRisk m")
    case False
    with Cons.prems have "acc \<noteq> None \<or> (\<exists>m\<in>set ms. isHighRisk m)" by auto
    from Cons.IH[OF this] False show ?thesis by simp
  next
    case True
    then show ?thesis using Cons.IH by (auto simp: Let_def split: option.splits)
  qed
qed

lemma findClosestCluster_nearest:
  assumes "findClosestCluster w x y = Some n"
  shows "n \<in> set (nodes w) \<and> isHighRisk n \<and>
         (\<forall>m\<in>set (nodes w). isHighRisk m \<longrightarrow>
            distance x y (posX n) (posY n) \<le> distance x y (posX m) (posY m))"
proof -
  from assms obtain d where c: "closestLoop x y None (nodes w) = Some (n, d)"
    by (auto simp: findClosestCluster_def)
  from closestLoop_result[OF c] closestLoop_min[OF c] show ?thesis by auto
qed

lemma zoomOut_targetsIdle: "targetsIdle (transform (zoomOut w))"
  by (simp add: zoomOut_def targetsIdle_def)

lemma zoomToCluster_targetsCluster:
  "n \<in> set (nodes w) \<Longrightarrow> targetsCluster w (clusterId n) (transform (zoomToCluster w n))"
proof -
  assume "n \<in> set (nodes w)"
  then have "filter (\<lambda>m. clusterId m = clusterId n) (nodes w) \<noteq> []"
    by (auto simp: filter_empty_conv)
  then have "0 < length (filter (\<lambda>m. clusterId m = clusterId n) (nodes w))" by simp
  then show ?thesis
    by (simp add: zoomToCluster_def targetsCluster_def clusterCentroid_def Let_def)
qed

text \<open>
  Claim C8, as the code has it. The handlers of clicks and of taps follow the two rules.
  While a cluster is focused, every click and every one-finger tap sends the camera to
  idle: target scale 1, target offset (0,0), no focused cluster. While no cluster is
  focused, a click or one-finger tap at the screen point \<open>(x, y)\<close> focuses the cluster
  of the high-risk node nearest to the canvas point
  \<open>((x - offsetX) / scale, (y - offsetY) / scale)\<close>, however far it is: target scale
  ZOOM_LEVEL, the cluster's centroid shown at the centre of the canvas; it changes
  nothing when the graph has no high-risk node. A tap's handler does what the click's
  handler does, and a touch with no or several fingers changes nothing. The two rules
  are not the only ones: \<open>resetTransform\<close>, run on every resize, sets scale, offset
  and their targets to the idle values at once, whatever is focused, and leaves
  \<open>focusedCluster\<close> and the animation state as they are.
\<close>

theorem camera_triggers:
  "handleTouchStart w [(x, y)] = handleClick w x y \<and>
   (focusedCluster (transform w) \<noteq> None \<longrightarrow> targetsIdle (transform (handleClick w x y))) \<and>
   (focusedCluster (transform w) = None \<and> (\<exists>m\<in>set (nodes w). isHighRisk m) \<longrightarrow>
      (\<exists>n\<in>set (nodes w). isHighRisk n \<and>
         (\<forall>m\<in>set (nodes w). isHighRisk m \<longrightarrow>
            distance ((x - offsetX (transform w)) / scale (transform w))
                     ((y - offsetY (transform w)) / scale (transform w)) (posX n) (posY n)
            \<le> distance ((x - offsetX (transform w)) / scale (transform w))
                     ((y - offsetY (transform w)) / scale (transform w)) (posX m) (posY m)) \<and>
         targetsCluster w (clusterId n) (transform (handleClick w x y)))) \<and>
   (focusedCluster (transform w) = None \<and> \<not> (\<exists>m\<in>set (nodes w). isHighRisk m) \<longrightarrow>
      handleClick w x y = w) \<and>
   (length touches \<noteq> 1 \<longrightarrow> handleTouchStart w touches = w) \<and>
   cameraTargets (transform (resetTransform w)) = (1, 0, 0) \<and>
   scale (transform (resetTransform w)) = 1 \<and>
   offsetX (transform (resetTransform w)) = 0 \<and>
   offsetY (transform (resetTransform w)) = 0 \<and>
   focusedCluster (transform (resetTransform w)) = focusedCluster (transform w) \<and>
   isZooming (transform (resetTransform w)) = isZooming (transform w) \<and>
   zoomProgress (transform (resetTransform w)) = zoomProgress (transform w)"
proof -
  let ?cx = "(x - offsetX (transform w)) / scale (transform w)"
  let ?cy = "(y - offsetY (transform w)) / scale (transform w)"
  have sc: "screenToCanvas (transform w) x y = (?cx, ?cy)"
    by (simp add: screenToCanvas_def)
  have a: "handleTouchStart w [(x, y)] = handleClick w x y"
    by (simp add: handleTouchStart_def handleClick_def)
  have b: "focusedCluster (transform w) \<noteq> None \<longrightarrow> targetsIdle (transform (handleClick w x y))"
    using zoomOut_targetsIdle[of w] by (auto simp: handleClick_def)
  have c: "focusedCluster (transform w) = None \<and> (\<exists>m\<in>set (nodes w). isHighRisk m) \<longrightarrow>
      (\<exists>n\<in>set (nodes w). isHighRisk n \<and>
         (\<forall>m\<in>set (nodes w). isHighRisk m \<longrightarrow>
            distance ?cx ?cy (posX n) (posY n) \<le> distance ?cx ?cy (posX m) (posY m)) \<and>
         targetsCluster w (clusterId n) (transform (handleClick w x y)))"
  proof
    assume h: "focusedCluster (transform w) = None \<and> (\<exists>m\<in>set (nodes w). isHighRisk m)"
    then have "closestLoop ?cx ?cy None (nodes w) \<noteq> None"
      using closestLoop_some[of None "nodes w" ?cx ?cy] by blast
    then obtain n where n: "findClosestCluster w ?cx ?cy = Some n"
      by (auto simp: findClosestCluster_def)
    from findClosestCluster_nearest[OF n] have p: "n \<in> set (nodes w)" "isHighRisk n"
      "\<forall>m\<in>set (nodes w). isHighRisk m \<longrightarrow>
            distance ?cx ?cy (posX n) (posY n) \<le> distance ?cx ?cy (posX m) (posY m)" by auto
    have "handleClick w x y = zoomToCluster w n"
      using h n by (simp add: handleClick_def Let_def sc)
    with zoomToCluster_targetsCluster[OF p(1)] p show "\<exists>n\<in>set (nodes w). isHighRisk n \<and>
         (\<forall>m\<in>set (nodes w). isHighRisk m \<longrightarrow>
            distance ?cx ?cy (posX n) (posY n) \<le> distance ?cx ?cy (posX m) (posY m)) \<and>
         targetsCluster w (clusterId n) (transform (handleClick w x y))"
      by auto
  qed
  have d: "focusedCluster (transform w) = None \<and> \<not> (\<exists>m\<in>set (nodes w). isHighRisk m) \<longrightarrow>
      handleClick w x y = w"
  proof
    assume h: "focusedCluster (transform w) = None \<and> \<not> (\<exists>m\<in>set (nodes w). isHighRisk m)"
    have "closestLoop u v None ns = None" if "\<forall>m\<in>set ns. \<not> isHighRisk m" for u v ns
      using that by (induction ns) simp_all
    then have "findClosestCluster w ?cx ?cy = None"
      using h by (simp add: findClosestCluster_def)
    then show "handleClick w x y = w" using h by (simp add: handleClick_def Let_def sc)
  qed
  have e: "length touches \<noteq> 1 \<longrightarrow> handleTouchStart w touches = w"
    by (cases touches rule: list.exhaust[case_product list.exhaust])
       (auto simp: handleTouchStart_def split: list.splits)
  have f: "cameraTargets (transform (resetTransform w)) = (1, 0, 0)"
    "scale (transform (resetTransform w)) = 1"
    "offsetX (transform (resetTransform w)) = 0"
    "offsetY (transform (resetTransform w)) = 0"
    "focusedCluster (transform (resetTransform w)) = focusedCluster (transform w)"
    "isZooming (transform (resetTransform w)) = isZooming (transform w)"
    "zoomProgress (transform (resetTransform w)) = zoomProgress (transform w)"
    by (simp_all add: resetTransform_def cameraTargets_def)
  from a b c d e f show ?thesis by blast
qed

lemma example_distances:
  "distance 400 200 500 300 < distance 400 200 100 100"
  "distance 400 200 500 300 < distance 400 200 120 100"
  by (simp_all add: distance_def)

theorem camera_triggers_witness:
  "targetsIdle (transform (handleClick (zoomToCluster exampleWidget exampleHub) 130 100)) \<and>
   focusedCluster (transform (handleClick pannedWidget 200 100)) = Some 1 \<and>
   cameraTargets (transform (handleClick pannedWidget 200 100)) = (2, - 600, - 350) \<and>
   handleTouchStart pannedWidget [(200, 100), (210, 100)] = pannedWidget"
proof -
  let ?n0 = "exampleHub"
  have f: "focusedCluster (transform (zoomToCluster exampleWidget ?n0)) \<noteq> None"
    by (simp add: zoomToCluster_def Let_def nodeAt_def exampleHub_def)
  have 1: "targetsIdle (transform (handleClick (zoomToCluster exampleWidget ?n0) 130 100))"
    using camera_triggers[of "zoomToCluster exampleWidget ?n0" 130 100] f by blast
  have i: "focusedCluster (transform pannedWidget) = None"
    by (simp add: pannedWidget_def exampleWidget_def)
  have ns: "nodes pannedWidget =
      [exampleHub, (nodeAt 1 120 100)\<lparr>isHighRisk := True, clusterId := Some 0\<rparr>,
       (nodeAt 2 500 300)\<lparr>isHighRisk := True, clusterId := Some 1\<rparr>, nodeAt 3 110 100]"
    by (simp add: pannedWidget_def exampleWidget_def)
  have h: "\<exists>m\<in>set (nodes pannedWidget). isHighRisk m"
    unfolding ns by (simp add: nodeAt_def exampleHub_def)
  have tr: "offsetX (transform pannedWidget) = - 600" "offsetY (transform pannedWidget) = - 300"
    "scale (transform pannedWidget) = 2"
    by (simp_all add: pannedWidget_def)
  have cp: "(200 - offsetX (transform pannedWidget)) / scale (transform pannedWidget) = 400"
    "(100 - offsetY (transform pannedWidget)) / scale (transform pannedWidget) = 200"
    unfolding tr by simp_all
  from camera_triggers[of pannedWidget 200 100] i h
  obtain n where n: "n \<in> set (nodes pannedWidget)" "isHighRisk n"
    and near: "\<forall>m\<in>set (nodes pannedWidget). isHighRisk m \<longrightarrow>
            distance 400 200 (posX n) (posY n) \<le> distance 400 200 (posX m) (posY m)"
    and tc: "targetsCluster pannedWidget (clusterId n) (transform (handleClick pannedWidget 200 100))"
    unfolding cp by blast
  have far: "distance 400 200 (posX n) (posY n) \<le> distance 400 200 500 300"
    using near unfolding ns by (simp add: nodeAt_def)
  have c1: "clusterId n = Some 1"
    using n far example_distances unfolding ns
    by (auto simp: nodeAt_def exampleHub_def)
  have cen: "clusterCentroid pannedWidget (Some 1) = (500, 300)"
    unfolding clusterCentroid_def Let_def ns by (simp add: nodeAt_def exampleHub_def)
  have wh: "width pannedWidget = 800" "height pannedWidget = 500"
    by (simp_all add: pannedWidget_def exampleWidget_def)
  from tc have 2: "focusedCluster (transform (handleClick pannedWidget 200 100)) = Some 1"
    and 3: "cameraTargets (transform (handleClick pannedWidget 200 100)) = (2, - 600, - 350)"
    unfolding c1 targetsCluster_def cen wh cameraTargets_def by (simp_all add: ZOOM_LEVEL_def)
  have 4: "handleTouchStart pannedWidget [(200, 100), (210, 100)] = pannedWidget"
    using camera_triggers[of pannedWidget _ _ "[(200, 100), (210, 100)]"] by simp
  from 1 2 3 4 show ?thesis by simp
qed

text \<open>
  The claim as stated fails: taps are not the only trigger. With cluster 0 focused and
  the camera bound for scale 2, a resize (no tap) sets the targets to scale 1 and offset
  (0,0), and \<open>focusedCluster\<close> still names cluster 0.
\<close>

theorem camera_resize_counterexample:
  "focusedCluster (transform (zoomToCluster exampleWidget exampleHub)) = Some 0 \<and>
   cameraTargets (transform (zoomToCluster exampleWidget exampleHub)) = (2, 180, 50) \<and>
   cameraTargets (transform (resetTransform (zoomToCluster exampleWidget exampleHub))) = (1, 0, 0) \<and>
   focusedCluster (transform (resetTransform (zoomToCluster exampleWidget exampleHub))) = Some 0 \<and>
   \<not> targetsIdle (transform (resetTransform (zoomToCluster exampleWidget exampleHub)))"
  by (simp add: resetTransform_def zoomToCluster_def Let_def cameraTargets_def targetsIdle_def
      exampleWidget_def exampleHub_def nodeAt_def ZOOM_LEVEL_def)

section \<open>Theorems: idle motion\<close>

lemma axisStep_eq:
  "axisStep b (p, v) =
     (p + v * (7 / 20), clampVel ((v + (b - (p + v * (7 / 20))) * (8 / 1000)) * (98 / 100)))"
  by (simp add: axisStep_def idleAxis_def Let_def IDLE_SPEED_def)

lemma lyap_linear:
  "lyap b (p + v * (7 / 20), (v + (b - (p + v * (7 / 20))) * (8 / 1000)) * (98 / 100))
     = 49 / 50 * lyap b (p, v)"
  by (simp add: lyap_def power2_eq_square algebra_simps)

lemma lyap_lower: "900 * (fst s - b)\<^sup>2 \<le> lyap b s"
proof -
  define e where "e = fst s - b"
  define v where "v = snd s"
  have "lyap b s - 900 * e\<^sup>2 = 80 * (e + 2843 / 160 * v)\<^sup>2 + (43750 - 2843 * 2843 / 320) * v\<^sup>2"
    by (simp add: lyap_def e_def v_def power2_eq_square algebra_simps)
  moreover have "0 \<le> 80 * (e + 2843 / 160 * v)\<^sup>2 + (43750 - 2843 * 2843 / 320) * v\<^sup>2"
    by (intro add_nonneg_nonneg mult_nonneg_nonneg) auto
  ultimately have "0 \<le> lyap b s - 900 * e\<^sup>2" by linarith
  then show ?thesis by (simp add: e_def)
qed

lemma lyap_nonneg: "0 \<le> lyap b s"
proof -
  have "0 \<le> 900 * (fst s - b)\<^sup>2" by simp
  with lyap_lower[of s b] show ?thesis by linarith
qed

lemma lyap_sat_high:
  assumes v: "v \<le> 3 / 2"
    and w: "(v + (b - (p + v * (7 / 20))) * (8 / 1000)) * (98 / 100) > 3 / 2"
  shows "lyap b (p + v * (7 / 20), 3 / 2) \<le> lyap b (p, v) - 7875 / 4"
proof -
  define u where "u = b - (p + v * (7 / 20))"
  define s where "s = 3 / 2 - v"
  define u0 where "u0 = (3 / 2 - 49 / 50 * v) * (6250 / 49)"
  have s0: "0 \<le> s" using v by (simp add: s_def)
  have w': "(v + u * (8 / 1000)) * (98 / 100) > 3 / 2" using w by (simp add: u_def)
  have uu: "u0 \<le> u" using w' by (simp add: u0_def field_simps)
  have c0: "0 \<le> 8529 / 2 - 2157 * v" using v by simp
  have prod: "0 \<le> (u - u0) * (8529 / 2 - 2157 * v)"
    using uu c0 by (intro mult_nonneg_nonneg) auto
  have D: "lyap b (p, v) - lyap b (p + v * (7 / 20), 3 / 2)
         = u * (8529 / 2 - 2157 * v) + 42875 * v\<^sup>2 - 196875 / 2"
    by (simp add: lyap_def u_def power2_eq_square field_simps)
  have R: "u0 * (8529 / 2 - 2157 * v) + 42875 * v\<^sup>2 - 196875 / 2
         = 312500 * s\<^sup>2 + 808875 / 98 * s + 7875 / 4"
    by (simp add: u0_def s_def power2_eq_square field_simps)
  have "0 \<le> 312500 * s\<^sup>2 + 808875 / 98 * s"
    using s0 by (intro add_nonneg_nonneg mult_nonneg_nonneg) auto
  then have "7875 / 4 \<le> u0 * (8529 / 2 - 2157 * v) + 42875 * v\<^sup>2 - 196875 / 2"
    using R by linarith
  moreover have "u * (8529 / 2 - 2157 * v) = (u - u0) * (8529 / 2 - 2157 * v) + u0 * (8529 / 2 - 2157 * v)"
    by (simp add: field_simps)
  ultimately have "7875 / 4 \<le> u * (8529 / 2 - 2157 * v) + 42875 * v\<^sup>2 - 196875 / 2"
    using prod by linarith
  with D show ?thesis by linarith
qed

lemma lyap_neg: "lyap (- b) (- p, - v) = lyap b (p, v)"
  by (simp add: lyap_def power2_eq_square algebra_simps)

lemma lyap_sat_low:
  assumes v: "- (3 / 2) \<le> v"
    and w: "(v + (b - (p + v * (7 / 20))) * (8 / 1000)) * (98 / 100) < - (3 / 2)"
  shows "lyap b (p + v * (7 / 20), - (3 / 2)) \<le> lyap b (p, v) - 7875 / 4"
proof -
  have v': "- v \<le> 3 / 2" using v by simp
  have w': "(- v + (- b - (- p + (- v) * (7 / 20))) * (8 / 1000)) * (98 / 100) > 3 / 2"
    using w by (simp add: algebra_simps)
  from lyap_sat_high[OF v' w']
  have "lyap (- b) (- (p + v * (7 / 20)), 3 / 2) \<le> lyap (- b) (- p, - v) - 7875 / 4"
    by (simp add: algebra_simps)
  moreover have "lyap (- b) (- (p + v * (7 / 20)), 3 / 2) = lyap b (p + v * (7 / 20), - (3 / 2))"
    using lyap_neg[of b "p + v * (7 / 20)" "- (3 / 2)"] by simp
  ultimately show ?thesis by (simp add: lyap_neg)
qed

lemma axisStep_vel: "\<bar>snd (axisStep b s)\<bar> \<le> 3 / 2"
  by (cases s) (simp add: axisStep_eq clampVel_def abs_le_iff)

lemma axisStep_decrease:
  assumes "\<bar>snd s\<bar> \<le> 3 / 2"
  shows "lyap b (axisStep b s) = 49 / 50 * lyap b s
         \<or> lyap b (axisStep b s) \<le> lyap b s - 7875 / 4"
proof -
  obtain p v where s: "s = (p, v)" by (cases s)
  define w where "w = (v + (b - (p + v * (7 / 20))) * (8 / 1000)) * (98 / 100)"
  have v: "v \<le> 3 / 2" "- (3 / 2) \<le> v" using assms s by auto
  have st: "axisStep b (p, v) = (p + v * (7 / 20), clampVel w)"
    unfolding axisStep_eq w_def by (rule refl)
  consider (hi) "w > 3 / 2" | (lo) "w < - (3 / 2)" | (mid) "- (3 / 2) \<le> w \<and> w \<le> 3 / 2"
    by linarith
  then show ?thesis
  proof cases
    case hi
    then have c: "clampVel w = 3 / 2" by (simp add: clampVel_def)
    have "lyap b (p + v * (7 / 20), 3 / 2) \<le> lyap b (p, v) - 7875 / 4"
      using lyap_sat_high[OF v(1) hi[unfolded w_def]] .
    then show ?thesis unfolding s st c by (rule disjI2)
  next
    case lo
    then have c: "clampVel w = - (3 / 2)" by (simp add: clampVel_def)
    have "lyap b (p + v * (7 / 20), - (3 / 2)) \<le> lyap b (p, v) - 7875 / 4"
      using lyap_sat_low[OF v(2) lo[unfolded w_def]] .
    then show ?thesis unfolding s st c by (rule disjI2)
  next
    case mid
    then have c: "clampVel w = w" by (simp add: clampVel_def max_def min_def)
    have "lyap b (p + v * (7 / 20), w) = 49 / 50 * lyap b (p, v)"
      unfolding w_def by (rule lyap_linear)
    then show ?thesis unfolding s st c by (rule disjI1)
  qed
qed

lemma axis_converges: "(\<lambda>k. fst ((axisStep b ^^ k) s)) \<longlonglongrightarrow> b"
proof -
  define st where "st k = (axisStep b ^^ Suc k) s" for k
  define W where "W k = lyap b (st k)" for k
  have st_Suc: "st (Suc k) = axisStep b (st k)" for k by (simp add: st_def)
  have vel: "\<bar>snd (st k)\<bar> \<le> 3 / 2" for k
    using axisStep_vel[of b "(axisStep b ^^ k) s"] by (simp add: st_def)
  have W0: "0 \<le> W k" for k by (simp add: W_def lyap_nonneg)
  have dec: "W (Suc k) = 49 / 50 * W k \<or> W (Suc k) \<le> W k - 7875 / 4" for k
    unfolding W_def st_Suc using axisStep_decrease[OF vel] by blast
  have mono: "W (Suc k) \<le> W k" for k
    using dec[of k] W0[of k] by auto
  have bound: "W k \<le> W 0" for k
  proof (induction k)
    case 0 show ?case by simp
  next
    case (Suc k) with mono[of k] show ?case by linarith
  qed
  define kap :: real where "kap = 7875 / 4"
  define q where "q = kap / (W 0 + kap)"
  define rho where "rho = max (49 / 50) (1 - q)"
  have kap0: "0 < kap" by (simp add: kap_def)
  have den: "0 < W 0 + kap" using W0[of 0] kap0 by linarith
  have q0: "0 < q" using den kap0 by (simp add: q_def)
  have qden: "q * (W 0 + kap) = kap" using den by (simp add: q_def)
  have rho0: "0 \<le> rho" by (simp add: rho_def max_def)
  have rho1: "rho < 1" using q0 by (simp add: rho_def max_def)
  have dec': "W (Suc k) = 49 / 50 * W k \<or> W (Suc k) \<le> W k - kap" for k
    using dec[of k] by (simp add: kap_def)
  have contr: "W (Suc k) \<le> rho * W k" for k
  proof -
    from dec'[of k] show ?thesis
    proof
      assume "W (Suc k) = 49 / 50 * W k"
      moreover have "49 / 50 * W k \<le> rho * W k"
        using W0[of k] by (intro mult_right_mono) (simp_all add: rho_def)
      ultimately show ?thesis by simp
    next
      assume a: "W (Suc k) \<le> W k - kap"
      have "W k \<le> W 0 + kap" using bound[of k] kap0 by linarith
      then have "q * W k \<le> q * (W 0 + kap)"
        using q0 by (intro mult_left_mono) auto
      then have "q * W k \<le> kap" using qden by simp
      then have "W k - kap \<le> (1 - q) * W k"
        by (simp add: algebra_simps)
      also have "\<dots> \<le> rho * W k"
        using W0[of k] by (intro mult_right_mono) (simp_all add: rho_def)
      finally show ?thesis using a by linarith
    qed
  qed
  have geo: "W k \<le> rho ^ k * W 0" for k
  proof (induction k)
    case 0 show ?case by simp
  next
    case (Suc k)
    have "W (Suc k) \<le> rho * W k" by (rule contr)
    also have "\<dots> \<le> rho * (rho ^ k * W 0)" using Suc rho0 by (intro mult_left_mono) auto
    finally show ?case by (simp add: mult.assoc)
  qed
  have lim0: "(\<lambda>k. rho ^ k * W 0 / 900) \<longlonglongrightarrow> 0"
  proof -
    have "(\<lambda>k. rho ^ k) \<longlonglongrightarrow> 0" using rho0 rho1 by (rule LIMSEQ_realpow_zero)
    then have "(\<lambda>k. rho ^ k * (W 0 / 900)) \<longlonglongrightarrow> 0 * (W 0 / 900)"
      by (intro tendsto_mult tendsto_const)
    then show ?thesis by simp
  qed
  have sq_le: "(fst (st k) - b)\<^sup>2 \<le> rho ^ k * W 0 / 900" for k
  proof -
    have "900 * (fst (st k) - b)\<^sup>2 \<le> W k" unfolding W_def by (rule lyap_lower)
    with geo[of k] show ?thesis by simp
  qed
  have "(\<lambda>k. (fst (st k) - b)\<^sup>2) \<longlonglongrightarrow> 0"
  proof (rule tendsto_sandwich[OF _ _ tendsto_const lim0])
    show "\<forall>\<^sub>F k in sequentially. 0 \<le> (fst (st k) - b)\<^sup>2" by simp
    show "\<forall>\<^sub>F k in sequentially. (fst (st k) - b)\<^sup>2 \<le> rho ^ k * W 0 / 900"
      using sq_le by simp
  qed
  then have "(\<lambda>k. sqrt ((fst (st k) - b)\<^sup>2)) \<longlonglongrightarrow> sqrt 0"
    by (rule tendsto_real_sqrt)
  then have "(\<lambda>k. \<bar>fst (st k) - b\<bar>) \<longlonglongrightarrow> 0" by simp
  then have "(\<lambda>k. fst (st k) - b) \<longlonglongrightarrow> 0" by (rule tendsto_rabs_zero_cancel)
  then have "(\<lambda>k. fst (st k)) \<longlonglongrightarrow> b" by (simp add: LIM_zero_iff)
  then have "(\<lambda>k. fst ((axisStep b ^^ Suc k) s)) \<longlonglongrightarrow> b" by (simp add: st_def)
  then show ?thesis by (rule LIMSEQ_imp_Suc)
qed

lemma idleStep_iter:
  "baseX ((idleStep (1 / 2) (1 / 2) ^^ k) n) = baseX n \<and>
   baseY ((idleStep (1 / 2) (1 / 2) ^^ k) n) = baseY n \<and>
   (posX ((idleStep (1 / 2) (1 / 2) ^^ k) n), vx ((idleStep (1 / 2) (1 / 2) ^^ k) n))
     = (axisStep (baseX n) ^^ k) (posX n, vx n) \<and>
   (posY ((idleStep (1 / 2) (1 / 2) ^^ k) n), vy ((idleStep (1 / 2) (1 / 2) ^^ k) n))
     = (axisStep (baseY n) ^^ k) (posY n, vy n)"
proof (induction k)
  case 0
  show ?case by simp
next
  case (Suc k)
  let ?m = "(idleStep (1 / 2) (1 / 2) ^^ k) n"
  have x: "(posX (idleStep (1 / 2) (1 / 2) ?m), vx (idleStep (1 / 2) (1 / 2) ?m))
            = axisStep (baseX ?m) (posX ?m, vx ?m)"
    by (simp add: idleStep_def Let_def axisStep_def)
  have y: "(posY (idleStep (1 / 2) (1 / 2) ?m), vy (idleStep (1 / 2) (1 / 2) ?m))
            = axisStep (baseY ?m) (posY ?m, vy ?m)"
    by (simp add: idleStep_def Let_def axisStep_def)
  have b: "baseX (idleStep (1 / 2) (1 / 2) ?m) = baseX ?m" "baseY (idleStep (1 / 2) (1 / 2) ?m) = baseY ?m"
    by (simp_all add: idleStep_def Let_def)
  from Suc x y b show ?case by simp
qed

text \<open>
  Claim C5. For every node, from every position and velocity, iterating the idle-motion
  step with the noise term zero (the random draws equal to 1/2) brings the position to
  the rest position \<open>(baseX, baseY)\<close> in the limit.
\<close>

theorem idle_converges:
  "(\<lambda>k. posX ((idleStep (1 / 2) (1 / 2) ^^ k) n)) \<longlonglongrightarrow> baseX n \<and>
   (\<lambda>k. posY ((idleStep (1 / 2) (1 / 2) ^^ k) n)) \<longlonglongrightarrow> baseY n"
proof -
  have x: "posX ((idleStep (1 / 2) (1 / 2) ^^ k) n) = fst ((axisStep (baseX n) ^^ k) (posX n, vx n))" for k
    using idleStep_iter[of k n] by (metis fst_conv)
  have y: "posY ((idleStep (1 / 2) (1 / 2) ^^ k) n) = fst ((axisStep (baseY n) ^^ k) (posY n, vy n))" for k
    using idleStep_iter[of k n] by (metis fst_conv)
  show ?thesis unfolding x y using axis_converges by blast
qed

section \<open>Theorems: dendrite penetration\<close>

lemma penetrationAt_eq:
  "penetrationAt p r s =
     clamp (if p < 6 then (6 - p) / 4 * (4 / 10 + (r - 1 / 10) / (49 / 10) * (6 / 10))
            else max 0 (dendritePenetration s - 2 / 100)) 0 1"
proof -
  have th: "(p - 2) / 18 < 4 / 18 \<longleftrightarrow> p < 6" by (simp add: field_simps)
  have g: "1 - (p - 2) / 18 / (4 / 18) = (6 - p) / 4" by (simp add: field_simps)
  show ?thesis
    unfolding penetrationAt_def frameAt_def calculatePhysicsState_def Let_def
      updateCurrentDensityMap_def updateLithiumDeformation_def
      PRESSURE_MIN_def PRESSURE_MAX_def ROUGHNESS_MIN_def ROUGHNESS_MAX_def
      DENDRITE_THRESHOLD_PRESSURE_def
    using th
    apply simp
    apply (intro impI arg_cong[where f = "\<lambda>x. clamp x 0 1"])
    apply (simp add: field_simps)
    done
qed

lemma clamp_mono: "a \<le> b \<Longrightarrow> clamp a 0 1 \<le> clamp b 0 1"
  by (simp add: clamp_def max_def min_def)

lemma penetration_range: "0 \<le> penetrationAt p r s \<and> penetrationAt p r s \<le> 1"
  by (simp add: penetrationAt_eq clamp_def)

lemma frameAt_penetration: "dendritePenetration (frameAt p r s) = penetrationAt p r s"
  by (simp add: penetrationAt_def)

lemma decay_iter:
  "6 \<le> p \<Longrightarrow> 0 \<le> dendritePenetration s \<Longrightarrow> dendritePenetration s \<le> 1 \<Longrightarrow>
   dendritePenetration ((frameAt p r ^^ k) s) = max 0 (dendritePenetration s - real k * (2 / 100))"
proof (induction k)
  case 0
  then show ?case by simp
next
  case (Suc k)
  have "dendritePenetration ((frameAt p r ^^ Suc k) s) = penetrationAt p r ((frameAt p r ^^ k) s)"
    by (simp add: penetrationAt_def)
  also have "\<dots> = clamp (max 0 (max 0 (dendritePenetration s - real k * (2 / 100)) - 2 / 100)) 0 1"
    using Suc by (simp add: penetrationAt_eq)
  also have "\<dots> = max 0 (dendritePenetration s - real (Suc k) * (2 / 100))"
    using Suc.prems by (simp add: clamp_def max_def min_def field_simps)
  finally show ?case .
qed

text \<open>
  Claim C4. The penetration a frame of \<open>calculatePhysicsState\<close> leaves, from a given
  prior state, is non-decreasing in roughness at every pressure, and non-increasing in
  pressure whenever the two pressures are on the same side of the dendrite threshold
  (pressure 6). At or above the threshold the penetration is the prior penetration less
  0.02, floored at zero, so that \<open>k\<close> frames bring a prior penetration \<open>d\<close> to
  \<open>max 0 (d - 0.02 k)\<close>. At pressure 2, roughness 5 gives penetration 1 and roughness
  0.1 gives 0.4.
\<close>

theorem penetration_monotone:
  "(r1 \<le> r2 \<longrightarrow> penetrationAt p r1 s \<le> penetrationAt p r2 s) \<and>
   (p1 \<le> p2 \<and> (p2 < DENDRITE_THRESHOLD_PRESSURE \<or> DENDRITE_THRESHOLD_PRESSURE \<le> p1) \<longrightarrow>
      penetrationAt p2 r s \<le> penetrationAt p1 r s) \<and>
   (DENDRITE_THRESHOLD_PRESSURE \<le> p \<and> 0 \<le> dendritePenetration s \<and> dendritePenetration s \<le> 1 \<longrightarrow>
      penetrationAt p r s = max 0 (dendritePenetration s - 2 / 100) \<and>
      (\<forall>k. dendritePenetration ((frameAt p r ^^ k) s)
             = max 0 (dendritePenetration s - real k * (2 / 100)))) \<and>
   penetrationAt 2 5 s = 1 \<and> penetrationAt 2 (1 / 10) s = 4 / 10"
proof -
  have a: "r1 \<le> r2 \<longrightarrow> penetrationAt p r1 s \<le> penetrationAt p r2 s"
  proof
    assume le: "r1 \<le> r2"
    show "penetrationAt p r1 s \<le> penetrationAt p r2 s"
    proof (cases "p < 6")
      case True
      then have g: "0 \<le> (6 - p) / 4" by simp
      have "4 / 10 + (r1 - 1 / 10) / (49 / 10) * (6 / 10) \<le> 4 / 10 + (r2 - 1 / 10) / (49 / 10) * (6 / 10)"
        using le by (simp add: field_simps)
      then have "(6 - p) / 4 * (4 / 10 + (r1 - 1 / 10) / (49 / 10) * (6 / 10))
               \<le> (6 - p) / 4 * (4 / 10 + (r2 - 1 / 10) / (49 / 10) * (6 / 10))"
        using g by (rule mult_left_mono)
      then show ?thesis using True clamp_mono by (simp add: penetrationAt_eq)
    next
      case False
      then show ?thesis by (simp add: penetrationAt_eq)
    qed
  qed
  have b: "p1 \<le> p2 \<and> (p2 < DENDRITE_THRESHOLD_PRESSURE \<or> DENDRITE_THRESHOLD_PRESSURE \<le> p1) \<longrightarrow>
      penetrationAt p2 r s \<le> penetrationAt p1 r s"
  proof
    assume h: "p1 \<le> p2 \<and> (p2 < DENDRITE_THRESHOLD_PRESSURE \<or> DENDRITE_THRESHOLD_PRESSURE \<le> p1)"
    show "penetrationAt p2 r s \<le> penetrationAt p1 r s"
    proof (cases "p2 < 6")
      case True
      then have p1: "p1 < 6" using h by simp
      define k where "k = 4 / 10 + (r - 1 / 10) / (49 / 10) * (6 / 10)"
      have g: "0 < (6 - p2) / 4" "(6 - p2) / 4 \<le> (6 - p1) / 4" using True h by simp_all
      show ?thesis
      proof (cases "0 \<le> k")
        case T: True
        have "(6 - p2) / 4 * k \<le> (6 - p1) / 4 * k"
          using g(2) T by (rule mult_right_mono)
        then show ?thesis using True p1 clamp_mono by (simp add: penetrationAt_eq k_def)
      next
        case F: False
        then have "(6 - p2) / 4 * k < 0" "(6 - p1) / 4 * k < 0"
          using g p1 by (simp_all add: mult_pos_neg)
        then have "clamp ((6 - p2) / 4 * k) 0 1 = 0" "clamp ((6 - p1) / 4 * k) 0 1 = 0"
          by (simp_all add: clamp_def)
        then show ?thesis using True p1 by (simp add: penetrationAt_eq k_def)
      qed
    next
      case False
      then have "\<not> p1 < 6" using h by (simp add: DENDRITE_THRESHOLD_PRESSURE_def)
      with False show ?thesis by (simp add: penetrationAt_eq)
    qed
  qed
  have c: "DENDRITE_THRESHOLD_PRESSURE \<le> p \<and> 0 \<le> dendritePenetration s \<and> dendritePenetration s \<le> 1 \<longrightarrow>
      penetrationAt p r s = max 0 (dendritePenetration s - 2 / 100) \<and>
      (\<forall>k. dendritePenetration ((frameAt p r ^^ k) s)
             = max 0 (dendritePenetration s - real k * (2 / 100)))"
  proof
    assume h: "DENDRITE_THRESHOLD_PRESSURE \<le> p \<and> 0 \<le> dendritePenetration s \<and> dendritePenetration s \<le> 1"
    then have p: "6 \<le> p" by (simp add: DENDRITE_THRESHOLD_PRESSURE_def)
    have 1: "penetrationAt p r s = max 0 (dendritePenetration s - 2 / 100)"
      using p h by (simp add: penetrationAt_eq clamp_def max_def min_def)
    have 2: "\<forall>k. dendritePenetration ((frameAt p r ^^ k) s)
             = max 0 (dendritePenetration s - real k * (2 / 100))"
      using decay_iter[OF p] h by blast
    from 1 2 show "penetrationAt p r s = max 0 (dendritePenetration s - 2 / 100) \<and>
      (\<forall>k. dendritePenetration ((frameAt p r ^^ k) s)
             = max 0 (dendritePenetration s - real k * (2 / 100)))" by simp
  qed
  have d: "penetrationAt 2 5 s = 1" "penetrationAt 2 (1 / 10) s = 4 / 10"
    by (simp_all add: penetrationAt_eq clamp_def)
  from a b c d show ?thesis by blast
qed

theorem penetration_monotone_witness:
  "penetrationAt 3 1 initialSimulation \<le> penetrationAt 3 4 initialSimulation \<and>
   penetrationAt 5 1 initialSimulation \<le> penetrationAt 3 1 initialSimulation \<and>
   penetrationAt 18 1 (initialSimulation\<lparr>dendritePenetration := 1 / 2\<rparr>) = 48 / 100 \<and>
   dendritePenetration ((frameAt 18 1 ^^ 30) (initialSimulation\<lparr>dendritePenetration := 1 / 2\<rparr>)) = 0"
proof -
  have 1: "penetrationAt 3 1 initialSimulation \<le> penetrationAt 3 4 initialSimulation"
    using penetration_monotone[of 1 4 3 initialSimulation] by simp
  have 2: "penetrationAt 5 1 initialSimulation \<le> penetrationAt 3 1 initialSimulation"
    using penetration_monotone[of _ _ _ initialSimulation 3 5 1]
    by (simp add: DENDRITE_THRESHOLD_PRESSURE_def)
  let ?s = "initialSimulation\<lparr>dendritePenetration := 1 / 2\<rparr>"
  have h: "DENDRITE_THRESHOLD_PRESSURE \<le> 18 \<and> 0 \<le> dendritePenetration ?s \<and> dendritePenetration ?s \<le> 1"
    by (simp add: DENDRITE_THRESHOLD_PRESSURE_def)
  have c: "penetrationAt 18 1 ?s = max 0 (dendritePenetration ?s - 2 / 100) \<and>
      (\<forall>k. dendritePenetration ((frameAt 18 1 ^^ k) ?s)
             = max 0 (dendritePenetration ?s - real k * (2 / 100)))"
    using penetration_monotone[of _ _ 18 ?s _ _ 1] h by blast
  have 3: "penetrationAt 18 1 ?s = 48 / 100" using c by simp
  have "dendritePenetration ((frameAt 18 1 ^^ 30) ?s) = max 0 (dendritePenetration ?s - real 30 * (2 / 100))"
    using c by blast
  then have 4: "dendritePenetration ((frameAt 18 1 ^^ 30) ?s) = 0" by simp
  from 1 2 3 4 show ?thesis by simp
qed

section \<open>Theorems: generateNetworkData\<close>

subsection \<open>Lists that only grow\<close>

lemma extends_refl: "extends Q xs xs"
  by (simp add: extends_def)

lemma extends_trans: "extends Q xs ys \<Longrightarrow> extends Q ys zs \<Longrightarrow> extends Q xs zs"
  by (auto simp: extends_def)

lemma extends_snoc: "Q z \<Longrightarrow> extends Q xs (xs @ [z])"
  by (simp add: extends_def)

lemma extends_mono: "extends Q xs ys \<Longrightarrow> (\<And>z. Q z \<Longrightarrow> R z) \<Longrightarrow> extends R xs ys"
  by (auto simp: extends_def list_all_iff)

lemma extends_length: "extends Q xs ys \<Longrightarrow> length xs \<le> length ys"
  by (auto simp: extends_def)

lemma extends_set: "extends Q xs ys \<Longrightarrow> set xs \<subseteq> set ys"
  by (auto simp: extends_def)

lemma extends_nth: "extends Q xs ys \<Longrightarrow> i < length xs \<Longrightarrow> ys ! i = xs ! i"
  by (auto simp: extends_def nth_append)

lemma extends_new: "extends Q xs ys \<Longrightarrow> y \<in> set ys \<Longrightarrow> y \<in> set xs \<or> Q y"
  by (auto simp: extends_def list_all_iff)

lemma extends_all: "extends Q xs ys \<Longrightarrow> list_all Q xs \<Longrightarrow> list_all Q ys"
  by (auto simp: extends_def)

lemma extends_foldl:
  assumes "\<And>acc x. x \<in> set xs \<Longrightarrow> extends Q acc (f acc x)"
  shows "extends Q acc (foldl f acc xs)"
  using assms
proof (induction xs arbitrary: acc)
  case Nil
  show ?case by (simp add: extends_refl)
next
  case (Cons x xs)
  have "extends Q acc (f acc x)" using Cons.prems by simp
  moreover have "extends Q (f acc x) (foldl f (f acc x) xs)"
    using Cons.IH Cons.prems by simp
  ultimately show ?case using extends_trans by fastforce
qed

lemma foldl_invariant:
  assumes "P acc" and "\<And>a x. x \<in> set xs \<Longrightarrow> P a \<Longrightarrow> P (f a x)"
  shows "P (foldl f acc xs)"
  using assms by (induction xs arbitrary: acc) auto

subsection \<open>pickOrder gives a permutation\<close>

lemma pickOrder_mset: "mset (pickOrder ks xs) = mset xs"
proof (induction ks arbitrary: xs)
  case Nil
  show ?case by simp
next
  case (Cons k ks)
  show ?case
  proof (cases "xs = []")
    case True
    then show ?thesis by simp
  next
    case False
    define j where "j = k mod length xs"
    have j: "j < length xs" using False by (simp add: j_def)
    have "mset xs = mset (take j xs @ xs ! j # drop (Suc j) xs)"
      using j by (simp add: id_take_nth_drop[symmetric])
    then have "mset xs = add_mset (xs ! j) (mset (take j xs @ drop (Suc j) xs))" by simp
    then show ?thesis using False Cons.IH[of "take j xs @ drop (Suc j) xs"]
      by (simp add: Let_def j_def)
  qed
qed

lemma pickOrder_set: "set (pickOrder ks xs) = set xs"
  using pickOrder_mset[of ks xs] by (metis set_mset_mset)

lemma pickOrder_length: "length (pickOrder ks xs) = length xs"
  using pickOrder_mset[of ks xs] by (metis size_mset)

subsection \<open>Pushing edges\<close>

lemma edgeExists_iff:
  "edgeExists es a b \<longleftrightarrow>
     (\<exists>e\<in>set es. (source e = a \<and> target e = b) \<or> (source e = b \<and> target e = a))"
  by (simp add: edgeExists_def list_ex_iff)

lemma pushIfNew_extends: "Q e \<Longrightarrow> extends Q es (pushIfNew es e)"
  by (simp add: pushIfNew_def extends_refl extends_snoc)

lemma pushIfNew_exists: "edgeExists (pushIfNew es e) (source e) (target e)"
  by (auto simp: pushIfNew_def edgeExists_iff)

lemma edgeExists_extends: "extends Q es es' \<Longrightarrow> edgeExists es a b \<Longrightarrow> edgeExists es' a b"
  using extends_set by (fastforce simp: edgeExists_iff)

lemma pushIfNew_noDup: "noDuplicateEdges es \<Longrightarrow> noDuplicateEdges (pushIfNew es e)"
proof -
  assume d: "noDuplicateEdges es"
  show ?thesis
  proof (cases "edgeExists es (source e) (target e)")
    case True
    then show ?thesis using d by (simp add: pushIfNew_def)
  next
    case False
    have "edgeKey e \<notin> edgeKey ` set es"
    proof
      assume "edgeKey e \<in> edgeKey ` set es"
      then obtain e' where e': "e' \<in> set es" "edgeKey e' = edgeKey e" by auto
      then have "(source e' = source e \<and> target e' = target e) \<or>
                 (source e' = target e \<and> target e' = source e)"
        by (auto simp: edgeKey_def min_def max_def split: if_splits)
      with e'(1) False show False by (auto simp: edgeExists_iff)
    qed
    then show ?thesis using d False by (simp add: pushIfNew_def noDuplicateEdges_def)
  qed
qed

subsection \<open>Counts drawn from a valid random source\<close>

lemma randomRange_bounds:
  assumes "0 \<le> r" "r < 1" "lo < hi"
  shows "lo \<le> randomRange r lo hi \<and> randomRange r lo hi < hi"
proof -
  have "0 \<le> r * (hi - lo)" using assms by simp
  moreover have "r * (hi - lo) < 1 * (hi - lo)"
    using assms by (intro mult_strict_right_mono) auto
  ultimately show ?thesis by (simp add: randomRange_def)
qed

lemma floor_randomRange:
  assumes "validOracle orc" "lo < hi"
  shows "lo \<le> \<lfloor>randomRange (rnd orc s ix) (real_of_int lo) (real_of_int hi)\<rfloor> \<and>
         \<lfloor>randomRange (rnd orc s ix) (real_of_int lo) (real_of_int hi)\<rfloor> < hi"
proof -
  have r: "0 \<le> rnd orc s ix" "rnd orc s ix < 1"
    using assms(1) by (auto simp: validOracle_def)
  have "real_of_int lo < real_of_int hi" using assms(2) by simp
  from randomRange_bounds[OF r this] show ?thesis
    by (simp add: le_floor_iff floor_less_iff)
qed

lemma clusterCount_bounds:
  assumes "validOracle orc"
  shows "8 \<le> \<lfloor>randomRange (rnd orc ClusterCount ix) NODES_PER_CLUSTER_MIN (NODES_PER_CLUSTER_MAX + 1)\<rfloor> \<and>
         \<lfloor>randomRange (rnd orc ClusterCount ix) NODES_PER_CLUSTER_MIN (NODES_PER_CLUSTER_MAX + 1)\<rfloor> \<le> 14"
  using floor_randomRange[OF assms, of 8 15 ClusterCount ix]
  by (simp add: NODES_PER_CLUSTER_MIN_def NODES_PER_CLUSTER_MAX_def)

lemma connCount_bounds:
  assumes "validOracle orc"
  shows "2 \<le> \<lfloor>randomRange (rnd orc ConnCount ix) 2 5\<rfloor>"
  using floor_randomRange[OF assms, of 2 5 ConnCount ix] by simp

lemma innCount_bounds:
  assumes "validOracle orc"
  shows "\<lfloor>randomRange (rnd orc InnCount ix) 3 6\<rfloor> \<le> 5"
  using floor_randomRange[OF assms, of 3 6 InnCount ix] by simp

lemma satCount_bounds:
  assumes "validOracle orc"
  shows "\<lfloor>randomRange (rnd orc SatCount ix) 2 4\<rfloor> \<le> 3"
  using floor_randomRange[OF assms, of 2 4 SatCount ix] by simp

lemma satConn_bounds:
  assumes "validOracle orc"
  shows "1 \<le> \<lfloor>randomRange (rnd orc SatConnCount ix) 1 4\<rfloor>"
  using floor_randomRange[OF assms, of 1 4 SatConnCount ix] by simp

subsection \<open>Cluster nodes\<close>

lemma clusterNode_fields:
  "nid (clusterNode orc c ctr cnt base i) = base + i"
  "isHighRisk (clusterNode orc c ctr cnt base i)"
  "clusterId (clusterNode orc c ctr cnt base i) = Some c"
  "\<not> isSatellite (clusterNode orc c ctr cnt base i)"
  "\<not> isInnocentNearCluster (clusterNode orc c ctr cnt base i)"
  "isHub (clusterNode orc c ctr cnt base i) = (i = 0)"
  by (simp_all add: clusterNode_def Let_def)

text \<open>What the proofs need of a cluster's main nodes: made at \<open>base\<close>, one per index.\<close>

lemma innocentNode_fields:
  "nid (innocentNode orc c inn k pos) = k"
  "\<not> isHighRisk (innocentNode orc c inn k pos)"
  "clusterId (innocentNode orc c inn k pos) = None"
  "\<not> isSatellite (innocentNode orc c inn k pos)"
  "isInnocentNearCluster (innocentNode orc c inn k pos)"
  "posX (innocentNode orc c inn k pos) = fst pos"
  "posY (innocentNode orc c inn k pos) = snd pos"
  by (simp_all add: innocentNode_def)

lemma satelliteNode_fields:
  "nid (satelliteNode orc c s k pos) = k"
  "isHighRisk (satelliteNode orc c s k pos)"
  "clusterId (satelliteNode orc c s k pos) = Some c"
  "isSatellite (satelliteNode orc c s k pos)"
  "\<not> isInnocentNearCluster (satelliteNode orc c s k pos)"
  by (simp_all add: satelliteNode_def)

lemma lowRiskNode_fields:
  "nid (lowRiskNode orc i k pos) = k"
  "\<not> isHighRisk (lowRiskNode orc i k pos)"
  "clusterId (lowRiskNode orc i k pos) = None"
  "\<not> isSatellite (lowRiskNode orc i k pos)"
  "\<not> isInnocentNearCluster (lowRiskNode orc i k pos)"
  "posX (lowRiskNode orc i k pos) = fst pos"
  "posY (lowRiskNode orc i k pos) = snd pos"
  by (simp_all add: lowRiskNode_def)

lemma mkEdge_fields:
  "source (mkEdge s d hr ato cid) = s"
  "target (mkEdge s d hr ato cid) = d"
  "edgeClusterId (mkEdge s d hr ato cid) = cid"
  "edgeHighRisk (mkEdge s d hr ato cid) = hr"
  "atoRisk (mkEdge s d hr ato cid) = ato"
  by (simp_all add: mkEdge_def)

lemma idsOk_snoc: "idsOk ns \<Longrightarrow> nid n = length ns \<Longrightarrow> idsOk (ns @ [n])"
  by (simp add: idsOk_def)

lemma idsOk_nth: "idsOk ns \<Longrightarrow> i < length ns \<Longrightarrow> nid (ns ! i) = i"
  by (metis idsOk_def length_map nth_map nth_upt add_0)

lemma idsOk_mem: "idsOk ns \<Longrightarrow> n \<in> set ns \<Longrightarrow> nid n < length ns"
  by (metis idsOk_nth in_set_conv_nth)

lemma idsOk_inj: "idsOk ns \<Longrightarrow> n \<in> set ns \<Longrightarrow> m \<in> set ns \<Longrightarrow> nid n = nid m \<Longrightarrow> n = m"
  by (metis idsOk_nth in_set_conv_nth)

lemma idsOk_append_cluster:
  "idsOk ns \<Longrightarrow> idsOk (ns @ map (clusterNode orc c ctr cnt (length ns)) [0..<k])"
proof (induction k)
  case 0
  then show ?case by simp
next
  case (Suc k)
  then have "idsOk (ns @ map (clusterNode orc c ctr cnt (length ns)) [0..<k])" by simp
  from idsOk_snoc[OF this, of "clusterNode orc c ctr cnt (length ns) k"]
  show ?case by (simp add: clusterNode_fields)
qed

subsection \<open>Web connections and cross-connections\<close>

lemma webTargets_mem:
  assumes "tgt \<in> set (webTargets orc c cn i)"
  shows "\<exists>j<length cn. j \<noteq> i \<and> tgt = cn ! j"
proof -
  from assms have "tgt \<in> set (map snd (filter (\<lambda>(idx, n). idx \<noteq> i) (enumerate 0 cn)))"
    by (auto simp: webTargets_def Let_def pickOrder_set dest: in_set_takeD)
  then obtain idx where "(idx, tgt) \<in> set (enumerate 0 cn)" "idx \<noteq> i" by auto
  then show ?thesis by (auto simp: in_set_enumerate_eq)
qed

lemma available_length_gen:
  "length (filter (\<lambda>(idx, n). idx \<noteq> i) (enumerate k cn))
     = length cn - (if k \<le> i \<and> i < k + length cn then 1 else 0)"
  by (induction cn arbitrary: k) auto

lemma webTargets_nonempty:
  assumes "validOracle orc" "i < length cn" "2 \<le> length cn"
  shows "webTargets orc c cn i \<noteq> []"
proof -
  define avail where "avail = map snd (filter (\<lambda>(idx, n). idx \<noteq> i) (enumerate 0 cn))"
  define shuffled where "shuffled = pickOrder (shuffle orc ConnShuffle [c, i]) avail"
  define cc where "cc = \<lfloor>randomRange (rnd orc ConnCount [c, i]) 2 5\<rfloor>"
  have l: "length shuffled = length cn - 1"
    using assms(2) by (simp add: shuffled_def avail_def pickOrder_length available_length_gen)
  have cc: "2 \<le> cc" unfolding cc_def using connCount_bounds[OF assms(1)] .
  have "1 \<le> int (length shuffled)" using l assms(3) by linarith
  then have "1 \<le> min cc (int (length shuffled))" using cc by (auto simp: min_def)
  then have k: "nat (min cc (int (length shuffled))) \<noteq> 0" by linarith
  have ne: "shuffled \<noteq> []" using l assms(3) by auto
  have "take (nat (min cc (int (length shuffled)))) shuffled \<noteq> []"
    using k ne by (simp only: take_eq_Nil) simp
  then show ?thesis
    unfolding webTargets_def Let_def cc_def shuffled_def avail_def .
qed

lemma enumerate_snd_mem: "x \<in> set (enumerate n ts) \<Longrightarrow> snd x \<in> set ts"
  by (induction ts arbitrary: n) auto

lemma pushAll_extends:
  assumes "\<And>k tgt. tgt \<in> set ts \<Longrightarrow> Q (E k tgt)"
  shows "extends Q es (foldl (\<lambda>acc (k, tgt). pushIfNew acc (E k tgt)) es (enumerate n ts))"
proof (rule extends_foldl)
  fix acc x
  assume "x \<in> set (enumerate n ts)"
  then have "snd x \<in> set ts" by (rule enumerate_snd_mem)
  then have "Q (E (fst x) (snd x))" using assms by simp
  then show "extends Q acc (case x of (k, tgt) \<Rightarrow> pushIfNew acc (E k tgt))"
    by (cases x) (simp add: pushIfNew_extends)
qed

lemma pushAll_exists:
  assumes "tgt \<in> set ts" and "\<And>k x. source (E k x) = a \<and> target (E k x) = f x"
  shows "edgeExists (foldl (\<lambda>acc (k, tgt). pushIfNew acc (E k tgt)) es (enumerate n ts)) a (f tgt)"
  using assms(1)
proof (induction ts arbitrary: es n)
  case Nil
  then show ?case by simp
next
  case (Cons x xs)
  let ?es1 = "pushIfNew es (E n x)"
  show ?case
  proof (cases "tgt = x")
    case True
    have "edgeExists ?es1 a (f x)" using pushIfNew_exists[of es "E n x"] assms(2) by simp
    moreover have "extends (\<lambda>e. True) ?es1 (foldl (\<lambda>acc (k, tgt). pushIfNew acc (E k tgt)) ?es1 (enumerate (Suc n) xs))"
      by (rule pushAll_extends) simp
    ultimately show ?thesis using True edgeExists_extends by simp
  next
    case False
    with Cons.prems have "tgt \<in> set xs" by simp
    from Cons.IH[OF this] show ?thesis by simp
  qed
qed

lemma webStep_extends:
  "i < length cn \<Longrightarrow> extends (webShape orc c cn) es (webStep orc c cn es i)"
  unfolding webStep_def
  by (rule pushAll_extends) (auto simp: webShape_def)

lemma webConnections_extends:
  "extends (webShape orc c cn) es (webConnections orc c cn es)"
  unfolding webConnections_def
  by (rule extends_foldl) (simp add: webStep_extends)

lemma webStep_exists:
  "tgt \<in> set (webTargets orc c cn i) \<Longrightarrow>
   edgeExists (webStep orc c cn es i) (nid (cn ! i)) (nid tgt)"
  unfolding webStep_def
  by (rule pushAll_exists) (simp_all add: mkEdge_fields)

lemma foldl_upt_split:
  "i < n \<Longrightarrow> foldl f a [0..<n] = foldl f (f (foldl f a [0..<i]) i) [Suc i..<n]"
proof -
  assume i: "i < n"
  have "[0..<i + (n - i)] = [0..<i] @ [i..<i + (n - i)]"
    by (rule upt_add_eq_append) simp
  then have "[0..<n] = [0..<i] @ [i..<n]" using i by simp
  also have "[i..<n] = i # [Suc i..<n]" using i by (rule upt_conv_Cons)
  finally show ?thesis by simp
qed

lemma webConnections_exists:
  assumes "i < length cn" "tgt \<in> set (webTargets orc c cn i)"
  shows "edgeExists (webConnections orc c cn es) (nid (cn ! i)) (nid tgt)"
proof -
  let ?mid = "webStep orc c cn (foldl (webStep orc c cn) es [0..<i]) i"
  have "webConnections orc c cn es = foldl (webStep orc c cn) ?mid [Suc i..<length cn]"
    unfolding webConnections_def by (rule foldl_upt_split[OF assms(1)])
  moreover have "extends (webShape orc c cn) ?mid (foldl (webStep orc c cn) ?mid [Suc i..<length cn])"
    by (rule extends_foldl) (simp add: webStep_extends)
  moreover have "edgeExists ?mid (nid (cn ! i)) (nid tgt)"
    using webStep_exists[OF assms(2)] .
  ultimately show ?thesis using edgeExists_extends by simp
qed

lemma crossPairs_mem: "(i, j) \<in> set (crossPairs n) \<Longrightarrow> i < n \<and> j < n \<and> i \<noteq> j"
  by (auto simp: crossPairs_def)

lemma crossConnections_extends:
  "extends (crossShape c cn) es (crossConnections orc c cn es)"
  unfolding crossConnections_def
proof (rule extends_foldl)
  fix acc x
  assume "x \<in> set (crossPairs (length cn))"
  then have "fst x < length cn \<and> snd x < length cn \<and> fst x \<noteq> snd x"
    using crossPairs_mem[of "fst x" "snd x"] by simp
  then have "crossShape c cn (mkEdge (nid (cn ! fst x)) (nid (cn ! snd x)) True ato (Some c))" for ato
    unfolding crossShape_def by blast
  then show "extends (crossShape c cn) acc (crossStep orc c cn acc x)"
    by (simp add: crossStep_def pushIfNew_extends extends_refl)
qed

lemma webShape_cross: "webShape orc c cn e \<Longrightarrow> crossShape c cn e"
  unfolding webShape_def crossShape_def using webTargets_mem by blast

subsection \<open>Innocent nodes\<close>

lemma edgesBelow_mono: "edgesBelow n es \<Longrightarrow> n \<le> m \<Longrightarrow> edgesBelow m es"
  by (auto simp: edgesBelow_def list_all_iff)

lemma edgesBelow_extends:
  "edgesBelow n es \<Longrightarrow> extends (\<lambda>e. source e < n \<and> target e < n) es es' \<Longrightarrow> edgesBelow n es'"
  unfolding edgesBelow_def by (rule extends_all)

lemma foldl_length_le:
  assumes "\<And>a x. length (f a x) \<le> Suc (length a)"
  shows "length (foldl f a xs) \<le> length a + length xs"
proof (induction xs arbitrary: a)
  case Nil
  show ?case by simp
next
  case (Cons x xs)
  have "length (foldl f (f a x) xs) \<le> length (f a x) + length xs" by (rule Cons.IH)
  with assms[of a x] show ?case by simp
qed

lemma innocentLike_fields:
  assumes "innocentLike orc c ctr cn u"
  shows "isInnocentNearCluster u" "\<not> isHighRisk u" "\<not> isSatellite u" "clusterId u = None"
    "\<not> tooCloseToHighRisk cn (posX u) (posY u)"
proof -
  from assms obtain inn where
    u: "u = innocentNode orc c inn (nid u) (innocentPos orc c ctr inn)"
    and c: "innocentClear orc c ctr cn inn"
    unfolding innocentLike_def by blast
  show "isInnocentNearCluster u" "\<not> isHighRisk u" "\<not> isSatellite u" "clusterId u = None"
    by (subst u, simp add: innocentNode_fields)+
  have "posX u = fst (innocentPos orc c ctr inn)" "posY u = snd (innocentPos orc c ctr inn)"
    by (subst u, simp add: innocentNode_fields)+
  with c show "\<not> tooCloseToHighRisk cn (posX u) (posY u)"
    by (simp add: innocentClear_def)
qed

lemma innocentStep_cases:
  "innocentStep orc c ctr cn ns inn =
     (if innocentClear orc c ctr cn inn
      then ns @ [innocentNode orc c inn (length ns) (innocentPos orc c ctr inn)] else ns)"
  by (simp add: innocentStep_def Let_def innocentClear_def)

lemma innocentStep_extends:
  assumes "inn < innocentCount orc c"
  shows "extends (innocentLike orc c ctr cn) ns (innocentStep orc c ctr cn ns inn)"
proof (cases "innocentClear orc c ctr cn inn")
  case False
  then show ?thesis by (simp add: innocentStep_cases extends_refl)
next
  case True
  have "innocentLike orc c ctr cn (innocentNode orc c inn (length ns) (innocentPos orc c ctr inn))"
    unfolding innocentLike_def using assms True
    by (intro exI[of _ inn]) (simp add: innocentNode_fields)
  then have "extends (innocentLike orc c ctr cn) ns
      (ns @ [innocentNode orc c inn (length ns) (innocentPos orc c ctr inn)])"
    by (rule extends_snoc)
  then show ?thesis using True by (simp add: innocentStep_cases)
qed

lemma innocentStep_grows: "extends (\<lambda>u. True) ns (innocentStep orc c ctr cn ns inn)"
  by (simp add: innocentStep_cases extends_refl extends_snoc)

lemma innocents_extends: "extends (innocentLike orc c ctr cn) ns (innocents orc c ctr cn ns)"
  unfolding innocents_def innocentCount_def[symmetric]
  by (rule extends_foldl) (simp add: innocentStep_extends)

text \<open>Every candidate that passes the test is in the list the innocent loop leaves.\<close>

lemma innocents_placed: "innocentsPlaced orc c ctr cn (innocents orc c ctr cn ns)"
  unfolding innocentsPlaced_def
proof (intro allI impI)
  fix inn assume i: "inn < innocentCount orc c" and cl: "innocentClear orc c ctr cn inn"
  let ?f = "innocentStep orc c ctr cn"
  define acc where "acc = foldl ?f ns [0..<inn]"
  define u where "u = innocentNode orc c inn (length acc) (innocentPos orc c ctr inn)"
  have sp: "innocents orc c ctr cn ns = foldl ?f (?f acc inn) [Suc inn..<innocentCount orc c]"
    unfolding innocents_def innocentCount_def[symmetric] acc_def using i by (rule foldl_upt_split)
  have st: "?f acc inn = acc @ [u]" using cl by (simp add: innocentStep_cases u_def)
  have "extends (\<lambda>u. True) (acc @ [u]) (innocents orc c ctr cn ns)"
    unfolding sp st by (rule extends_foldl) (rule innocentStep_grows)
  then have "u \<in> set (innocents orc c ctr cn ns)"
    using extends_set by fastforce
  moreover have "u = innocentNode orc c inn (nid u) (innocentPos orc c ctr inn)"
    by (simp add: u_def innocentNode_fields innocentNode_def)
  ultimately show "\<exists>u\<in>set (innocents orc c ctr cn ns).
      u = innocentNode orc c inn (nid u) (innocentPos orc c ctr inn)" by blast
qed

lemma innocentStep_idsOk: "idsOk ns \<Longrightarrow> idsOk (innocentStep orc c ctr cn ns inn)"
  by (simp add: innocentStep_def Let_def idsOk_snoc innocentNode_fields)

lemma innocents_idsOk: "idsOk ns \<Longrightarrow> idsOk (innocents orc c ctr cn ns)"
  unfolding innocents_def by (rule foldl_invariant) (simp_all add: innocentStep_idsOk)

lemma innocents_length:
  assumes "validOracle orc"
  shows "length (innocents orc c ctr cn ns) \<le> length ns + 5"
proof -
  have "length (innocents orc c ctr cn ns)
        \<le> length ns + length [0..<nat \<lfloor>randomRange (rnd orc InnCount [c]) 3 6\<rfloor>]"
    unfolding innocents_def
    by (rule foldl_length_le) (simp add: innocentStep_def Let_def)
  moreover have "nat \<lfloor>randomRange (rnd orc InnCount [c]) 3 6\<rfloor> \<le> 5"
    using innCount_bounds[OF assms, of "[c]"] by linarith
  ultimately show ?thesis by simp
qed

subsection \<open>Satellites\<close>

lemma satelliteEdges_extends:
  assumes "\<And>m. m < length (filter (\<lambda>n. \<not> isSatellite n) cnx) \<Longrightarrow>
              Q (pickOrder (shuffle orc SatShuffle [c, s]) (filter (\<lambda>n. \<not> isSatellite n) cnx) ! m)"
  shows "extends (\<lambda>e. edgeClusterId e = Some c \<and> source e = nid sat \<and> (\<exists>v. Q v \<and> target e = nid v))
           es (satelliteEdges orc c s sat cnx es)"
  unfolding satelliteEdges_def Let_def
proof (rule extends_foldl)
  fix acc m
  let ?sh = "pickOrder (shuffle orc SatShuffle [c, s]) (filter (\<lambda>n. \<not> isSatellite n) cnx)"
  assume "m \<in> set [0..<nat (min \<lfloor>randomRange (rnd orc SatConnCount [c, s]) 1 4\<rfloor> (int (length ?sh)))]"
  then have "m < length (filter (\<lambda>n. \<not> isSatellite n) cnx)"
    by (simp add: pickOrder_length)
  then have "Q (?sh ! m)" by (rule assms)
  then show "extends (\<lambda>e. edgeClusterId e = Some c \<and> source e = nid sat \<and> (\<exists>v. Q v \<and> target e = nid v))
          acc (acc @ [mkEdge (nid sat) (nid (?sh ! m)) True
                 (Some (randomRange (rnd orc SatAto [c, s, m]) (4 / 100) (14 / 100))) (Some c)])"
    by (intro extends_snoc) (auto simp: mkEdge_fields)
qed

lemma satelliteEdges_first:
  assumes "validOracle orc" "filter (\<lambda>n. \<not> isSatellite n) cnx \<noteq> []"
  shows "\<exists>e\<in>set (satelliteEdges orc c s sat cnx es). \<exists>v\<in>set (filter (\<lambda>n. \<not> isSatellite n) cnx).
           edgeClusterId e = Some c \<and> source e = nid sat \<and> target e = nid v"
proof -
  let ?main = "filter (\<lambda>n. \<not> isSatellite n) cnx"
  let ?sh = "pickOrder (shuffle orc SatShuffle [c, s]) ?main"
  let ?k = "nat (min \<lfloor>randomRange (rnd orc SatConnCount [c, s]) 1 4\<rfloor> (int (length ?sh)))"
  let ?f = "\<lambda>acc m. acc @ [mkEdge (nid sat) (nid (?sh ! m)) True
                 (Some (randomRange (rnd orc SatAto [c, s, m]) (4 / 100) (14 / 100))) (Some c)]"
  have len: "1 \<le> int (length ?sh)" using assms(2) by (simp add: pickOrder_length Suc_le_eq)
  have "1 \<le> \<lfloor>randomRange (rnd orc SatConnCount [c, s]) 1 4\<rfloor>"
    using satConn_bounds[OF assms(1)] .
  then have "1 \<le> min \<lfloor>randomRange (rnd orc SatConnCount [c, s]) 1 4\<rfloor> (int (length ?sh))"
    using len by (auto simp: min_def)
  then have k: "0 < ?k" by linarith
  have "satelliteEdges orc c s sat cnx es = foldl ?f (?f (foldl ?f es [0..<0]) 0) [Suc 0..<?k]"
    unfolding satelliteEdges_def Let_def by (rule foldl_upt_split[OF k])
  moreover have "extends (\<lambda>e. True) (?f es 0) (foldl ?f (?f es 0) [Suc 0..<?k])"
    by (rule extends_foldl) (simp add: extends_snoc)
  ultimately have "set (?f es 0) \<subseteq> set (satelliteEdges orc c s sat cnx es)"
    using extends_set by fastforce
  then have "mkEdge (nid sat) (nid (?sh ! 0)) True
                 (Some (randomRange (rnd orc SatAto [c, s, 0]) (4 / 100) (14 / 100))) (Some c)
             \<in> set (satelliteEdges orc c s sat cnx es)" by auto
  moreover have "?sh ! 0 \<in> set ?main"
  proof -
    have "0 < length ?sh" using len by linarith
    then have "?sh ! 0 \<in> set ?sh" by (rule nth_mem)
    then show ?thesis by (simp only: pickOrder_set)
  qed
  ultimately show ?thesis
    by (intro bexI[where x = "mkEdge (nid sat) (nid (?sh ! 0)) True
                 (Some (randomRange (rnd orc SatAto [c, s, 0]) (4 / 100) (14 / 100))) (Some c)"]
              bexI[where x = "?sh ! 0"])
       (simp_all add: mkEdge_fields)
qed

lemma filter_main_extends:
  assumes "extends (satelliteLike c) cn0 cnx" "list_all (mainLike c) cn0"
  shows "filter (\<lambda>n. \<not> isSatellite n) cnx = cn0"
proof -
  from assms(1) obtain zs where z: "cnx = cn0 @ zs" "list_all (satelliteLike c) zs"
    by (auto simp: extends_def)
  have "filter (\<lambda>n. \<not> isSatellite n) cn0 = cn0"
    using assms(2) by (auto simp: list_all_iff mainLike_def filter_id_conv)
  moreover have "filter (\<lambda>n. \<not> isSatellite n) zs = []"
    using z(2) by (auto simp: list_all_iff satelliteLike_def filter_empty_conv)
  ultimately show ?thesis using z(1) by simp
qed

lemma satelliteStep_inv:
  assumes v: "validOracle orc"
    and inv: "satInv c cn0 ns0 es0 st"
    and main: "list_all (mainLike c) cn0" "cn0 \<noteq> []" "set cn0 \<subseteq> set ns0" "idsOk ns0"
  shows "satInv c cn0 ns0 es0 (satelliteStep orc W H pad c ctr st s)"
proof -
  define ns where "ns = fst st"
  define cnx where "cnx = fst (snd st)"
  define es where "es = snd (snd st)"
  define sat where "sat = satelliteNode orc c s (length ns) (satellitePos orc W H pad c ctr s)"
  define es' where "es' = satelliteEdges orc c s sat (cnx @ [sat]) es"
  have step: "satelliteStep orc W H pad c ctr st s = (ns @ [sat], cnx @ [sat], es')"
    by (simp add: satelliteStep_def Let_def ns_def cnx_def es_def sat_def es'_def)
  have i1: "idsOk ns" and i2: "extends (satelliteLike c) ns0 ns"
    and i3: "extends (satelliteLike c) cn0 cnx"
    and i4: "extends (satEdgeLike c cn0 (length ns0)) es0 es"
    and i5: "edgesBelow (length ns) es"
    and i7: "set cnx \<subseteq> set ns"
    and i6: "\<forall>u\<in>set ns. u \<notin> set ns0 \<longrightarrow>
            (\<exists>e\<in>set es. \<exists>v\<in>set cn0. edgeClusterId e = Some c \<and> source e = nid u \<and> target e = nid v)"
    using inv by (simp_all add: satInv_def ns_def cnx_def es_def)
  have satl: "satelliteLike c sat" by (simp add: sat_def satelliteLike_def satelliteNode_fields)
  have sid: "nid sat = length ns" by (simp add: sat_def satelliteNode_fields)
  have len0: "length ns0 \<le> length ns" using i2 by (rule extends_length)
  have cnx': "extends (satelliteLike c) cn0 (cnx @ [sat])"
    using i3 extends_snoc[of "satelliteLike c" sat cnx, OF satl] by (rule extends_trans)
  have fm: "filter (\<lambda>n. \<not> isSatellite n) (cnx @ [sat]) = cn0"
    using filter_main_extends[OF cnx' main(1)] .
  have o1: "idsOk (ns @ [sat])" using i1 sid by (rule idsOk_snoc)
  have o2: "extends (satelliteLike c) ns0 (ns @ [sat])"
    using i2 extends_snoc[of "satelliteLike c" sat ns, OF satl] by (rule extends_trans)
  have shm: "pickOrder (shuffle orc SatShuffle [c, s]) cn0 ! m \<in> set cn0" if "m < length cn0" for m
  proof -
    have "pickOrder (shuffle orc SatShuffle [c, s]) cn0 ! m \<in> set (pickOrder (shuffle orc SatShuffle [c, s]) cn0)"
      using that by (intro nth_mem) (simp add: pickOrder_length)
    then show ?thesis by (simp only: pickOrder_set)
  qed
  have ext: "extends (\<lambda>e. edgeClusterId e = Some c \<and> source e = nid sat \<and> (\<exists>v. v \<in> set cn0 \<and> target e = nid v))
           es es'"
    unfolding es'_def
  proof (rule satelliteEdges_extends[where Q = "\<lambda>v. v \<in> set cn0"])
    fix m assume "m < length (filter (\<lambda>n. \<not> isSatellite n) (cnx @ [sat]))"
    then show "pickOrder (shuffle orc SatShuffle [c, s]) (filter (\<lambda>n. \<not> isSatellite n) (cnx @ [sat])) ! m
               \<in> set cn0"
      unfolding fm by (rule shm)
  qed
  have o4: "extends (satEdgeLike c cn0 (length ns0)) es0 es'"
  proof (rule extends_trans[OF i4])
    show "extends (satEdgeLike c cn0 (length ns0)) es es'"
      using ext by (rule extends_mono) (auto simp: satEdgeLike_def sid len0)
  qed
  have tb: "nid v < length ns" if "v \<in> set cn0" for v
  proof -
    have "v \<in> set ns0" using that main(3) by blast
    then have "nid v < length ns0" using main(4) idsOk_mem by blast
    with len0 show ?thesis by linarith
  qed
  have o5: "edgesBelow (length (ns @ [sat])) es'"
  proof (rule edgesBelow_extends)
    show "edgesBelow (length (ns @ [sat])) es" using i5 by (rule edgesBelow_mono) simp
    show "extends (\<lambda>e. source e < length (ns @ [sat]) \<and> target e < length (ns @ [sat])) es es'"
      using ext by (rule extends_mono) (auto simp: sid dest: tb)
  qed
  have ess: "set es \<subseteq> set es'" using ext by (rule extends_set)
  have o6: "\<forall>u\<in>set (ns @ [sat]). u \<notin> set ns0 \<longrightarrow>
            (\<exists>e\<in>set es'. \<exists>v\<in>set cn0. edgeClusterId e = Some c \<and> source e = nid u \<and> target e = nid v)"
  proof (intro ballI impI)
    fix u assume u: "u \<in> set (ns @ [sat])" "u \<notin> set ns0"
    show "\<exists>e\<in>set es'. \<exists>v\<in>set cn0. edgeClusterId e = Some c \<and> source e = nid u \<and> target e = nid v"
    proof (cases "u = sat")
      case True
      have "filter (\<lambda>n. \<not> isSatellite n) (cnx @ [sat]) \<noteq> []" using fm main(2) by simp
      from satelliteEdges_first[OF v this, of c s sat es]
      show ?thesis unfolding es'_def[symmetric] fm True .
    next
      case False
      with u have "u \<in> set ns" by simp
      with i6 u(2) obtain e w where "e \<in> set es" "w \<in> set cn0"
        "edgeClusterId e = Some c \<and> source e = nid u \<and> target e = nid w" by blast
      with ess show ?thesis by blast
    qed
  qed
  have o7: "set (cnx @ [sat]) \<subseteq> set (ns @ [sat])" using i7 by auto
  show ?thesis unfolding step satInv_def using o1 o2 cnx' o4 o5 o6 o7 by simp
qed

lemma satellites_inv:
  assumes v: "validOracle orc"
    and main: "list_all (mainLike c) cn0" "cn0 \<noteq> []" "set cn0 \<subseteq> set ns0" "idsOk ns0"
    and eb: "edgesBelow (length ns0) es0"
  shows "satInv c cn0 ns0 es0 (satellites orc W H pad c ctr (ns0, cn0, es0))"
  unfolding satellites_def
proof (rule foldl_invariant)
  show "satInv c cn0 ns0 es0 (ns0, cn0, es0)"
    using main(3,4) eb by (simp add: satInv_def extends_refl)
next
  fix a x assume "satInv c cn0 ns0 es0 a"
  then show "satInv c cn0 ns0 es0 (satelliteStep orc W H pad c ctr a x)"
    using satelliteStep_inv[OF v _ main] by blast
qed

lemma satellites_length:
  assumes "validOracle orc"
  shows "length (fst (satellites orc W H pad c ctr st)) \<le> length (fst st) + 3"
proof -
  have g: "length (fst (foldl (satelliteStep orc W H pad c ctr) st xs)) = length (fst st) + length xs"
    for xs
    by (induction xs arbitrary: st) (simp_all add: satelliteStep_def Let_def)
  have "nat \<lfloor>randomRange (rnd orc SatCount [c]) 2 4\<rfloor> \<le> 3"
    using satCount_bounds[OF assms, of "[c]"] by linarith
  then show ?thesis unfolding satellites_def g by simp
qed

subsection \<open>One iteration of the cluster loop\<close>

lemma hasPartner_mono:
  "hasPartner j ns es u \<Longrightarrow> set ns \<subseteq> set ns' \<Longrightarrow> set es \<subseteq> set es' \<Longrightarrow> hasPartner j ns' es' u"
  unfolding hasPartner_def by blast

lemma crossShape_fields:
  assumes "crossShape c cn e" "\<And>i. i < length cn \<Longrightarrow> nid (cn ! i) = base + i"
  shows "edgeClusterId e = Some c \<and> base \<le> source e \<and> source e < base + length cn
         \<and> base \<le> target e \<and> target e < base + length cn"
  using assms unfolding crossShape_def by (auto simp: mkEdge_fields)

lemma innocentsPlaced_mono:
  "innocentsPlaced orc c ctr cn ns \<Longrightarrow> set ns \<subseteq> set ns' \<Longrightarrow> innocentsPlaced orc c ctr cn ns'"
  unfolding innocentsPlaced_def by blast

lemma genCluster_step:
  assumes v: "validOracle orc" and inv: "genInv orc W H k st"
  shows "genInv orc W H (Suc k) (genCluster orc W H pad st k)"
proof -
  define ns where "ns = fst st"
  define es where "es = fst (snd st)"
  define cls where "cls = snd (snd st)"
  define cnt where "cnt = \<lfloor>randomRange (rnd orc ClusterCount [k]) NODES_PER_CLUSTER_MIN (NODES_PER_CLUSTER_MAX + 1)\<rfloor>"
  define ctr where "ctr = clusterPositions W H ! k"
  define cn where "cn = map (clusterNode orc k ctr cnt (length ns)) [0..<nat cnt]"
  define ns1 where "ns1 = ns @ cn"
  define es1 where "es1 = webConnections orc k cn es"
  define es2 where "es2 = crossConnections orc k cn es1"
  define ns2 where "ns2 = innocents orc k ctr cn ns1"
  define sat where "sat = satellites orc W H pad k ctr (ns2, cn, es2)"
  define ns3 where "ns3 = fst sat"
  define cn3 where "cn3 = fst (snd sat)"
  define es3 where "es3 = snd (snd sat)"
  have eq: "genCluster orc W H pad st k = (ns3, es3, cls @ [cn3])"
    by (simp add: genCluster_def Let_def ns_def es_def cls_def cnt_def ctr_def cn_def ns1_def
        es1_def es2_def ns2_def sat_def ns3_def cn3_def es3_def)
  have I1: "idsOk ns" and I2: "edgesBelow (length ns) es" and I3: "length ns \<le> 22 * k"
    and I4: "length cls = k" and I5: "list_all (nodeOk orc W H k ns es cls) ns"
    and I6: "list_all (\<lambda>e. \<exists>j<k. edgeClusterId e = Some j) es"
    and I7: "\<forall>j<k. set (cls ! j) \<subseteq> set ns \<and> list_all (\<lambda>u. clusterId u = Some j) (cls ! j) \<and> 2 \<le> length (cls ! j)
                \<and> innocentsPlaced orc j (clusterPositions W H ! j) (mainNodes cls j) ns"
    using inv by (simp_all add: genInv_def ns_def es_def cls_def)
  \<comment> \<open>the main nodes\<close>
  have cb: "8 \<le> cnt" "cnt \<le> 14" using clusterCount_bounds[OF v, of "[k]"] by (simp_all add: cnt_def)
  have len_cn: "length cn = nat cnt" by (simp add: cn_def)
  have n8: "8 \<le> length cn" "length cn \<le> 14" using cb len_cn by linarith+
  have cn_nth: "cn ! i = clusterNode orc k ctr cnt (length ns) i" if "i < length cn" for i
    using that by (simp add: cn_def)
  have cn_id: "nid (cn ! i) = length ns + i" if "i < length cn" for i
    using that by (simp add: cn_nth clusterNode_fields)
  have cn_main: "list_all (mainLike k) cn"
    by (simp add: cn_def list_all_iff mainLike_def clusterNode_fields)
  have cn_ne: "cn \<noteq> []" using n8 by auto
  have ids1: "idsOk ns1" unfolding ns1_def cn_def using I1 by (rule idsOk_append_cluster)
  \<comment> \<open>web and cross edges\<close>
  have w1: "extends (webShape orc k cn) es es1" unfolding es1_def by (rule webConnections_extends)
  have w1': "extends (crossShape k cn) es es1"
    using w1 by (rule extends_mono) (rule webShape_cross)
  have w2: "extends (crossShape k cn) es1 es2" unfolding es2_def by (rule crossConnections_extends)
  have w12: "extends (crossShape k cn) es es2" using w1' w2 by (rule extends_trans)
  have eb2: "edgesBelow (length ns1) es2"
  proof (rule edgesBelow_extends)
    show "edgesBelow (length ns1) es" using I2 by (rule edgesBelow_mono) (simp add: ns1_def)
    show "extends (\<lambda>e. source e < length ns1 \<and> target e < length ns1) es es2"
      using w12
    proof (rule extends_mono)
      fix z assume "crossShape k cn z"
      from crossShape_fields[OF this, of "length ns"] cn_id
      show "source z < length ns1 \<and> target z < length ns1" by (simp add: ns1_def)
    qed
  qed
  \<comment> \<open>innocents\<close>
  have n2: "extends (innocentLike orc k ctr cn) ns1 ns2" unfolding ns2_def by (rule innocents_extends)
  have pl2: "innocentsPlaced orc k ctr cn ns2" unfolding ns2_def by (rule innocents_placed)
  have ids2: "idsOk ns2" unfolding ns2_def using ids1 by (rule innocents_idsOk)
  have len2: "length ns2 \<le> length ns1 + 5" unfolding ns2_def using v by (rule innocents_length)
  have l12: "length ns1 \<le> length ns2" using n2 by (rule extends_length)
  have s12: "set ns1 \<subseteq> set ns2" using n2 by (rule extends_set)
  have cn_in2: "set cn \<subseteq> set ns2" using s12 by (auto simp: ns1_def)
  have eb2': "edgesBelow (length ns2) es2" using eb2 l12 by (rule edgesBelow_mono)
  \<comment> \<open>satellites\<close>
  have si: "satInv k cn ns2 es2 sat"
    unfolding sat_def using v cn_main cn_ne cn_in2 ids2 eb2' by (rule satellites_inv)
  have ids3: "idsOk ns3" and n3: "extends (satelliteLike k) ns2 ns3"
    and c3: "extends (satelliteLike k) cn cn3"
    and e3: "extends (satEdgeLike k cn (length ns2)) es2 es3"
    and eb3: "edgesBelow (length ns3) es3" and cn3_in: "set cn3 \<subseteq> set ns3"
    and sp: "\<forall>u\<in>set ns3. u \<notin> set ns2 \<longrightarrow>
            (\<exists>e\<in>set es3. \<exists>w\<in>set cn. edgeClusterId e = Some k \<and> source e = nid u \<and> target e = nid w)"
    using si by (simp_all add: satInv_def ns3_def cn3_def es3_def)
  have len3: "length ns3 \<le> length ns2 + 3"
    using satellites_length[OF v, of W H pad k ctr "(ns2, cn, es2)"] by (simp add: ns3_def sat_def)
  have s23: "set ns2 \<subseteq> set ns3" using n3 by (rule extends_set)
  have s03: "set ns \<subseteq> set ns3" using s12 s23 by (auto simp: ns1_def)
  have cn_in3: "set cn \<subseteq> set ns3" using cn_in2 s23 by blast
  have e01: "set es \<subseteq> set es1" using w1 by (rule extends_set)
  have e12: "set es1 \<subseteq> set es2" using w2 by (rule extends_set)
  have e23: "set es2 \<subseteq> set es3" using e3 by (rule extends_set)
  have e03: "set es \<subseteq> set es3" using e01 e12 e23 by blast
  have e13: "set es1 \<subseteq> set es3" using e12 e23 by blast
  have fm: "filter (\<lambda>n. \<not> isSatellite n) cn3 = cn" using c3 cn_main by (rule filter_main_extends)
  \<comment> \<open>the conjuncts of the invariant\<close>
  have O3: "length ns3 \<le> 22 * Suc k"
    using len3 len2 I3 n8 by (simp add: ns1_def)
  have O4: "length (cls @ [cn3]) = Suc k" using I4 by simp
  have cls_old: "(cls @ [cn3]) ! j = cls ! j" if "j < k" for j
    using that I4 by (simp add: nth_append)
  have cls_new: "(cls @ [cn3]) ! k = cn3" using I4 by (simp add: nth_append)
  have main_old: "mainNodes (cls @ [cn3]) j = mainNodes cls j" if "j < k" for j
    using that by (simp add: mainNodes_def cls_old)
  have main_new: "mainNodes (cls @ [cn3]) k = cn" by (simp add: mainNodes_def cls_new fm)
  have main_partner: "hasPartner k ns3 es3 (cn ! i)" if i: "i < length cn" for i
  proof -
    have "webTargets orc k cn i \<noteq> []" using v i n8 by (intro webTargets_nonempty) auto
    then obtain tgt where tgt: "tgt \<in> set (webTargets orc k cn i)" by (cases "webTargets orc k cn i") auto
    from webTargets_mem[OF tgt] obtain j where j: "j < length cn" "j \<noteq> i" "tgt = cn ! j" by blast
    have "edgeExists es1 (nid (cn ! i)) (nid tgt)"
      unfolding es1_def using i tgt by (rule webConnections_exists)
    then obtain e where e: "e \<in> set es1"
      "(source e = nid (cn ! i) \<and> target e = nid tgt) \<or> (source e = nid tgt \<and> target e = nid (cn ! i))"
      by (auto simp: edgeExists_iff)
    have "e \<notin> set es"
    proof
      assume "e \<in> set es"
      then have "source e < length ns" using I2 by (auto simp: edgesBelow_def list_all_iff)
      with e(2) j i show False by (auto simp: cn_id)
    qed
    with extends_new[OF w1 e(1)] have "webShape orc k cn e" by blast
    then have cid: "edgeClusterId e = Some k" by (auto simp: webShape_def mkEdge_fields)
    have "cn ! j \<in> set cn" using j(1) by (rule nth_mem)
    then have vin: "cn ! j \<in> set ns3" using cn_in3 by blast
    have vc: "clusterId (cn ! j) = Some k" using j(1) by (simp add: cn_nth clusterNode_fields)
    have vne: "nid (cn ! j) \<noteq> nid (cn ! i)" using i j by (simp add: cn_id)
    have "e \<in> set es3" using e(1) e13 by blast
    then show ?thesis unfolding hasPartner_def using vin vc vne cid e(2) j(3) by blast
  qed
  have O5: "list_all (nodeOk orc W H (Suc k) ns3 es3 (cls @ [cn3])) ns3"
    unfolding list_all_iff
  proof
    fix u assume u3: "u \<in> set ns3"
    consider (old) "u \<in> set ns" | (main) "u \<in> set cn" | (inn) "u \<in> set ns2" "u \<notin> set ns1"
      | (sat) "u \<notin> set ns2"
      by (auto simp: ns1_def)
    then show "nodeOk orc W H (Suc k) ns3 es3 (cls @ [cn3]) u"
    proof cases
      case old
      then have ok: "nodeOk orc W H k ns es cls u" using I5 by (simp add: list_all_iff)
      show ?thesis
      proof (cases "isHighRisk u")
        case True
        with ok obtain j where "j < k" "clusterId u = Some j" "\<not> isInnocentNearCluster u" "hasPartner j ns es u"
          by (auto simp: nodeOk_def)
        moreover from this(4) have "hasPartner j ns3 es3 u" using s03 e03 by (rule hasPartner_mono)
        ultimately show ?thesis using True unfolding nodeOk_def by (auto intro: less_SucI)
      next
        case False
        with ok obtain j where j: "j < k"
          "innocentLike orc j (clusterPositions W H ! j) (mainNodes cls j) u"
          by (auto simp: nodeOk_def)
        then have "j < Suc k"
          "innocentLike orc j (clusterPositions W H ! j) (mainNodes (cls @ [cn3]) j) u"
          by (simp_all add: main_old)
        then show ?thesis using False unfolding nodeOk_def by auto
      qed
    next
      case main
      then obtain i where i: "i < length cn" "u = cn ! i" by (auto simp: in_set_conv_nth)
      have "isHighRisk u" "clusterId u = Some k" "\<not> isInnocentNearCluster u"
        using i by (simp_all add: cn_nth clusterNode_fields)
      moreover have "hasPartner k ns3 es3 u" using main_partner[OF i(1)] i(2) by simp
      ultimately show ?thesis unfolding nodeOk_def by auto
    next
      case inn
      from extends_new[OF n2 inn(1)] inn(2) have il: "innocentLike orc k ctr cn u" by blast
      then have "innocentLike orc k (clusterPositions W H ! k) (mainNodes (cls @ [cn3]) k) u"
        by (simp add: main_new ctr_def)
      moreover have "\<not> isHighRisk u" using il by (rule innocentLike_fields)
      ultimately show ?thesis unfolding nodeOk_def by auto
    next
      case sat
      from extends_new[OF n3 u3] sat have sl: "satelliteLike k u" by blast
      from sp u3 sat obtain e w where ew: "e \<in> set es3" "w \<in> set cn"
        "edgeClusterId e = Some k" "source e = nid u" "target e = nid w" by blast
      have wv: "w \<in> set ns3" "clusterId w = Some k"
        using ew(2) cn_in3 cn_main by (auto simp: list_all_iff mainLike_def)
      have "nid w < length ns2" using ew(2) cn_in2 ids2 idsOk_mem by blast
      moreover have "length ns2 \<le> nid u"
      proof (rule ccontr)
        assume "\<not> length ns2 \<le> nid u"
        then have lt: "nid u < length ns2" by simp
        obtain i where i: "i < length ns3" "u = ns3 ! i" using u3 by (auto simp: in_set_conv_nth)
        have "nid u = i" using idsOk_nth[OF ids3 i(1)] i(2) by simp
        then have "u = ns2 ! i" "i < length ns2" using extends_nth[OF n3, of i] lt i(2) by simp_all
        then have "u \<in> set ns2" by simp
        with sat show False by simp
      qed
      ultimately have "nid w \<noteq> nid u" by linarith
      then have "hasPartner k ns3 es3 u" unfolding hasPartner_def using wv ew by blast
      then show ?thesis using sl unfolding nodeOk_def satelliteLike_def by auto
    qed
  qed
  have O6: "list_all (\<lambda>e. \<exists>j<Suc k. edgeClusterId e = Some j) es3"
    unfolding list_all_iff
  proof
    fix e assume "e \<in> set es3"
    from extends_new[OF e3 this] show "\<exists>j<Suc k. edgeClusterId e = Some j"
    proof
      assume "e \<in> set es2"
      from extends_new[OF w12 this] show ?thesis
      proof
        assume "e \<in> set es"
        then show ?thesis using I6 by (auto simp: list_all_iff intro: less_SucI)
      next
        assume "crossShape k cn e"
        then show ?thesis by (auto simp: crossShape_def mkEdge_fields)
      qed
    next
      assume "satEdgeLike k cn (length ns2) e"
      then show ?thesis by (auto simp: satEdgeLike_def)
    qed
  qed
  have O7: "\<forall>j<Suc k. set ((cls @ [cn3]) ! j) \<subseteq> set ns3
                 \<and> list_all (\<lambda>u. clusterId u = Some j) ((cls @ [cn3]) ! j)
                 \<and> 2 \<le> length ((cls @ [cn3]) ! j)
                 \<and> innocentsPlaced orc j (clusterPositions W H ! j) (mainNodes (cls @ [cn3]) j) ns3"
  proof (intro allI impI)
    fix j assume "j < Suc k"
    then consider "j < k" | "j = k" by linarith
    then show "set ((cls @ [cn3]) ! j) \<subseteq> set ns3
                 \<and> list_all (\<lambda>u. clusterId u = Some j) ((cls @ [cn3]) ! j)
                 \<and> 2 \<le> length ((cls @ [cn3]) ! j)
                 \<and> innocentsPlaced orc j (clusterPositions W H ! j) (mainNodes (cls @ [cn3]) j) ns3"
    proof cases
      case 1
      then have "innocentsPlaced orc j (clusterPositions W H ! j) (mainNodes cls j) ns"
        using I7 by blast
      then have "innocentsPlaced orc j (clusterPositions W H ! j) (mainNodes (cls @ [cn3]) j) ns3"
        unfolding main_old[OF 1] using s03 by (rule innocentsPlaced_mono)
      then show ?thesis using 1 I7 s03 by (auto simp: cls_old)
    next
      case 2
      have a: "list_all (\<lambda>u. clusterId u = Some k) cn3"
        using extends_all[OF extends_mono[OF c3, of "\<lambda>u. clusterId u = Some k"]] cn_main
        by (auto simp: satelliteLike_def mainLike_def list_all_iff)
      have b: "2 \<le> length cn3" using extends_length[OF c3] n8 by linarith
      have "innocentsPlaced orc k ctr cn ns3" using pl2 s23 by (rule innocentsPlaced_mono)
      then have c: "innocentsPlaced orc k (clusterPositions W H ! k) (mainNodes (cls @ [cn3]) k) ns3"
        by (simp add: main_new ctr_def)
      show ?thesis unfolding 2 cls_new using cn3_in a b c by simp
    qed
  qed
  show ?thesis unfolding eq genInv_def using ids3 eb3 O3 O4 O5 O6 O7 by simp
qed

subsection \<open>The cluster loop\<close>

lemma clusters_inv:
  assumes "validOracle orc"
  shows "genInv orc W H k (foldl (genCluster orc W H pad) ([], [], []) [0..<k])"
proof (induction k)
  case 0
  show ?case by (simp add: genInv_def idsOk_def edgesBelow_def)
next
  case (Suc k)
  from genCluster_step[OF assms Suc] show ?case by simp
qed

subsection \<open>The low-risk loop\<close>

lemma lowRiskLoop_stop:
  "\<not> (real i < real_of_int (lowRiskCount g) * (13 / 10) \<and> int cr < lowRiskCount g) \<Longrightarrow>
   lowRiskLoop orc g i cr ns = ns"
  by (subst lowRiskLoop.simps) (simp only: if_True if_False simp_thms)

lemma lowRiskLoop_close:
  "real i < real_of_int (lowRiskCount g) * (13 / 10) \<and> int cr < lowRiskCount g \<Longrightarrow>
   tooCloseToCluster g (lowRiskPos orc g i) \<Longrightarrow>
   lowRiskLoop orc g i cr ns = lowRiskLoop orc g (Suc i) cr ns"
  by (subst lowRiskLoop.simps) (simp only: if_True if_False simp_thms)

lemma lowRiskLoop_outside:
  "real i < real_of_int (lowRiskCount g) * (13 / 10) \<and> int cr < lowRiskCount g \<Longrightarrow>
   \<not> tooCloseToCluster g (lowRiskPos orc g i) \<Longrightarrow>
   outsideBounds g (lowRiskPos orc g i) \<Longrightarrow>
   lowRiskLoop orc g i cr ns = lowRiskLoop orc g (Suc i) cr ns"
  by (subst lowRiskLoop.simps) (simp only: if_True if_False simp_thms)

lemma lowRiskLoop_place:
  "real i < real_of_int (lowRiskCount g) * (13 / 10) \<and> int cr < lowRiskCount g \<Longrightarrow>
   \<not> tooCloseToCluster g (lowRiskPos orc g i) \<Longrightarrow>
   \<not> outsideBounds g (lowRiskPos orc g i) \<Longrightarrow>
   lowRiskLoop orc g i cr ns
     = lowRiskLoop orc g (Suc i) (Suc cr) (ns @ [lowRiskNode orc i (length ns) (lowRiskPos orc g i)])"
  by (subst lowRiskLoop.simps) (simp only: if_True if_False simp_thms)

lemma lowRiskLoop_extends: "extends (lowLike g) ns (lowRiskLoop orc g i cr ns)"
proof (induction orc g i cr ns rule: lowRiskLoop.induct)
  case (1 orc g i cr ns)
  let ?pos = "lowRiskPos orc g i"
  show ?case
  proof (cases "real i < real_of_int (lowRiskCount g) * (13 / 10) \<and> int cr < lowRiskCount g")
    case False
    show ?thesis unfolding lowRiskLoop_stop[OF False] by (rule extends_refl)
  next
    case c: True
    show ?thesis
    proof (cases "tooCloseToCluster g ?pos")
      case True
      show ?thesis unfolding lowRiskLoop_close[OF c True] using c True by (rule 1(1))
    next
      case t: False
      show ?thesis
      proof (cases "outsideBounds g ?pos")
        case True
        show ?thesis unfolding lowRiskLoop_outside[OF c t True] using c t True by (rule 1(2))
      next
        case False
        have "lowLike g (lowRiskNode orc i (length ns) ?pos)"
          using t False by (simp add: lowLike_def lowRiskNode_fields)
        then have "extends (lowLike g) ns (ns @ [lowRiskNode orc i (length ns) ?pos])"
          by (rule extends_snoc)
        moreover have "extends (lowLike g) (ns @ [lowRiskNode orc i (length ns) ?pos])
            (lowRiskLoop orc g (Suc i) (Suc cr) (ns @ [lowRiskNode orc i (length ns) ?pos]))"
          using c t False by (rule 1(3))
        ultimately show ?thesis
          unfolding lowRiskLoop_place[OF c t False] by (rule extends_trans)
      qed
    qed
  qed
qed

lemma lowRiskLoop_idsOk: "idsOk ns \<Longrightarrow> idsOk (lowRiskLoop orc g i cr ns)"
proof (induction orc g i cr ns rule: lowRiskLoop.induct)
  case (1 orc g i cr ns)
  let ?pos = "lowRiskPos orc g i"
  show ?case
  proof (cases "real i < real_of_int (lowRiskCount g) * (13 / 10) \<and> int cr < lowRiskCount g")
    case False
    show ?thesis unfolding lowRiskLoop_stop[OF False] by (rule 1(4))
  next
    case c: True
    show ?thesis
    proof (cases "tooCloseToCluster g ?pos")
      case True
      show ?thesis unfolding lowRiskLoop_close[OF c True] using c True 1(4) by (rule 1(1))
    next
      case t: False
      show ?thesis
      proof (cases "outsideBounds g ?pos")
        case True
        show ?thesis unfolding lowRiskLoop_outside[OF c t True] using c t True 1(4) by (rule 1(2))
      next
        case False
        have "idsOk (ns @ [lowRiskNode orc i (length ns) ?pos])"
          using 1(4) by (rule idsOk_snoc) (simp add: lowRiskNode_fields)
        with c t False show ?thesis unfolding lowRiskLoop_place[OF c t False] by (rule 1(3))
      qed
    qed
  qed
qed


subsection \<open>Edges without a cluster id, and the diameter edges\<close>

lemma nthOpt_mem: "nthOpt xs k = Some x \<Longrightarrow> x \<in> set xs"
  by (auto simp: nthOpt_def split: if_splits)

lemma lowTargets_mem: "tgt \<in> set (lowTargets orc low i) \<Longrightarrow> tgt \<in> set low"
  by (auto simp: lowTargets_def Let_def dest!: in_set_takeD)

lemma lowRiskEdges_extends:
  assumes "\<And>u. u \<in> set low \<Longrightarrow> nid u < n"
  shows "extends (plainEdge n) es (lowRiskEdges orc low es)"
  unfolding lowRiskEdges_def
proof (rule extends_foldl)
  fix acc i assume "i \<in> set [0..<length low]"
  then have i: "low ! i \<in> set low" by simp
  show "extends (plainEdge n) acc (lowStep orc low acc i)"
    unfolding lowStep_def
  proof (rule extends_foldl)
    fix a tgt assume "tgt \<in> set (lowTargets orc low i)"
    then have "tgt \<in> set low" by (rule lowTargets_mem)
    then have "plainEdge n (mkEdge (nid (low ! i)) (nid tgt) False None None)"
      using i assms by (simp add: plainEdge_def mkEdge_fields)
    then show "extends (plainEdge n) a (pushIfNew a (mkEdge (nid (low ! i)) (nid tgt) False None None))"
      by (rule pushIfNew_extends)
  qed
qed

lemma longStep_extends:
  assumes "\<And>u. u \<in> set low \<Longrightarrow> nid u < n"
  shows "extends (plainEdge n) acc (longStep orc low acc i)"
proof (cases "nthOpt low \<lfloor>rnd orc LongA [i] * real (length low)\<rfloor>")
  case None
  then show ?thesis by (simp add: longStep_def extends_refl)
next
  case a: (Some nodeA)
  show ?thesis
  proof (cases "nthOpt low \<lfloor>rnd orc LongB [i] * real (length low)\<rfloor>")
    case None
    then show ?thesis using a by (simp add: longStep_def extends_refl)
  next
    case b: (Some nodeB)
    have "nid nodeA < n" "nid nodeB < n"
      using nthOpt_mem[OF a] nthOpt_mem[OF b] assms by blast+
    then have "plainEdge n (mkEdge (nid nodeA) (nid nodeB) False None None)"
      by (simp add: plainEdge_def mkEdge_fields)
    then have "extends (plainEdge n) acc (pushIfNew acc (mkEdge (nid nodeA) (nid nodeB) False None None))"
      by (rule pushIfNew_extends)
    then show ?thesis using a b by (simp add: longStep_def extends_refl)
  qed
qed

lemma longRangeEdges_extends:
  assumes "\<And>u. u \<in> set low \<Longrightarrow> nid u < n"
  shows "extends (plainEdge n) es (longRangeEdges orc low es)"
  unfolding longRangeEdges_def
  by (rule extends_foldl) (rule longStep_extends[OF assms])

lemma falseStep_extends:
  assumes "\<And>u. u \<in> set low \<Longrightarrow> nid u < n" "\<And>u. u \<in> set high \<Longrightarrow> nid u < n"
  shows "extends (plainEdge n) acc (falseStep orc low high acc i)"
proof (cases "nthOpt low \<lfloor>rnd orc FalseLow [i] * real (length low)\<rfloor>")
  case None
  then show ?thesis by (simp add: falseStep_def extends_refl)
next
  case a: (Some lowRisk)
  show ?thesis
  proof (cases "nthOpt high \<lfloor>rnd orc FalseHigh [i] * real (length high)\<rfloor>")
    case None
    then show ?thesis using a by (simp add: falseStep_def extends_refl)
  next
    case b: (Some highRisk)
    have "nid lowRisk < n" "nid highRisk < n"
      using nthOpt_mem[OF a] nthOpt_mem[OF b] assms by blast+
    then have "plainEdge n (mkEdge (nid lowRisk) (nid highRisk) False None None)"
      by (simp add: plainEdge_def mkEdge_fields)
    then have "extends (plainEdge n) acc (acc @ [mkEdge (nid lowRisk) (nid highRisk) False None None])"
      by (rule extends_snoc)
    then show ?thesis using a b by (simp add: falseStep_def extends_refl)
  qed
qed

lemma falseConnections_extends:
  assumes "\<And>u. u \<in> set low \<Longrightarrow> nid u < n" "\<And>u. u \<in> set high \<Longrightarrow> nid u < n"
  shows "extends (plainEdge n) es (falseConnections orc low high es)"
  unfolding falseConnections_def
  by (rule extends_foldl) (rule falseStep_extends[OF assms])

lemma diameterPairs_mem: "(i, j) \<in> set (diameterPairs n) \<Longrightarrow> i < n \<and> j < n"
  by (auto simp: diameterPairs_def)

lemma furthestFold_mem:
  "(\<And>a b. snd acc = Some (a, b) \<Longrightarrow> a \<in> set cl \<and> b \<in> set cl) \<Longrightarrow>
   (\<And>p. p \<in> set ps \<Longrightarrow> fst p < length cl \<and> snd p < length cl) \<Longrightarrow>
   snd (foldl (furthestStep cl) acc ps) = Some (a, b) \<Longrightarrow> a \<in> set cl \<and> b \<in> set cl"
proof (induction ps arbitrary: acc)
  case Nil
  then show ?case by simp
next
  case (Cons p ps)
  have p: "fst p < length cl" "snd p < length cl" using Cons.prems(2)[of p] by simp_all
  have st: "\<And>a b. snd (furthestStep cl acc p) = Some (a, b) \<Longrightarrow> a \<in> set cl \<and> b \<in> set cl"
  proof -
    fix a b assume h: "snd (furthestStep cl acc p) = Some (a, b)"
    show "a \<in> set cl \<and> b \<in> set cl"
    proof (cases "furthestStep cl acc p = acc")
      case True
      with h Cons.prems(1) show ?thesis by simp
    next
      case False
      then have "snd (furthestStep cl acc p) = Some (cl ! fst p, cl ! snd p)"
        by (simp add: furthestStep_def Let_def split: if_splits)
      with h have "a = cl ! fst p" "b = cl ! snd p" by simp_all
      with p show ?thesis by simp
    qed
  qed
  have "snd (foldl (furthestStep cl) (furthestStep cl acc p) ps) = Some (a, b)"
    using Cons.prems(3) by simp
  from Cons.IH[OF st _ this] Cons.prems(2) show ?case by simp
qed

lemma furthestPair_mem:
  assumes "furthestPair cl = Some (a, b)"
  shows "a \<in> set cl \<and> b \<in> set cl"
proof (rule furthestFold_mem[of "(Fin 0, None)" cl "diameterPairs (length cl)"])
  show "snd (foldl (furthestStep cl) (Fin 0, None) (diameterPairs (length cl))) = Some (a, b)"
    using assms by (simp add: furthestPair_def)
next
  fix p assume "p \<in> set (diameterPairs (length cl))"
  then show "fst p < length cl \<and> snd p < length cl"
    using diameterPairs_mem[of "fst p" "snd p" "length cl"] by simp
qed simp

lemma diameterStep_extends:
  assumes "j < length cls" "\<And>u. u \<in> set (cls ! j) \<Longrightarrow> nid u < n"
  shows "extends (diameterEdge cls n) acc (diameterStep orc acc (j', cls ! j))"
proof (cases "furthestPair (cls ! j)")
  case None
  then show ?thesis by (simp add: diameterStep_def extends_refl)
next
  case (Some ab)
  obtain a b where ab: "ab = (a, b)" by (cases ab)
  from furthestPair_mem[OF Some[unfolded ab]] have m: "a \<in> set (cls ! j)" "b \<in> set (cls ! j)"
    by simp_all
  have "diameterEdge cls n (mkEdge (nid a) (nid b) True ato (clusterId a))" for ato
    unfolding diameterEdge_def mkEdge_fields
    using m assms(1) assms(2)[OF m(1)] assms(2)[OF m(2)] by blast
  then have "extends (diameterEdge cls n) acc
      (pushIfNew acc (mkEdge (nid a) (nid b) True ato (clusterId a)))" for ato
    by (rule pushIfNew_extends)
  then show ?thesis
    using Some ab by (simp add: diameterStep_def extends_refl)
qed

lemma diameterEdges_extends:
  assumes "\<And>j u. j < length cls \<Longrightarrow> u \<in> set (cls ! j) \<Longrightarrow> nid u < n"
  shows "extends (diameterEdge cls n) es (diameterEdges orc cls es)"
  unfolding diameterEdges_def
proof (rule extends_foldl)
  fix acc x assume x: "x \<in> set (enumerate 0 cls)"
  then have j: "fst x < length cls" "snd x = cls ! fst x"
    by (simp_all add: in_set_enumerate_eq)
  have "extends (diameterEdge cls n) acc (diameterStep orc acc (fst x, cls ! fst x))"
    using j(1) assms[OF j(1)] by (rule diameterStep_extends)
  then show "extends (diameterEdge cls n) acc (diameterStep orc acc x)"
    using j(2) by (metis prod.collapse)
qed

subsection \<open>The stages of generateNetworkData\<close>

lemma jsNode_fields:
  "nid (jsNode n) = nid n"
  "isHighRisk (jsNode n) = isHighRisk n"
  "clusterId (jsNode n) = clusterId n"
  "isSatellite (jsNode n) = isSatellite n"
  "isInnocentNearCluster (jsNode n) = isInnocentNearCluster n"
  "posX (jsNode n) = Fin (posX n)"
  "posY (jsNode n) = Fin (posY n)"
  by (simp_all add: jsNode_def)

lemma idsOk_jsNode: "idsOk ns \<Longrightarrow> idsOk (map jsNode ns)"
  by (simp add: idsOk_def o_def jsNode_fields)

lemma generate_nodes:
  "nodes (generateNetworkData orc w)
     = lowRiskLoop orc (gridOf orc w) 0 0 (map jsNode (fst (clusterPhase orc w)))"
  by (simp add: generateNetworkData_def gridOf_def clusterPhase_def paddingOf_def
      topPaddingOf_def Let_def)

lemma generate_clusters:
  "muleClusters (generateNetworkData orc w) = map (map jsNode) (snd (snd (clusterPhase orc w)))"
  by (simp add: generateNetworkData_def clusterPhase_def paddingOf_def Let_def)

lemma generate_edges:
  "edges (generateNetworkData orc w) =
     diameterEdges orc (map (map jsNode) (snd (snd (clusterPhase orc w))))
       (falseConnections orc (filter (\<lambda>n. \<not> isHighRisk n) (nodes (generateNetworkData orc w)))
          (filter isHighRisk (nodes (generateNetworkData orc w)))
          (longRangeEdges orc (filter (\<lambda>n. \<not> isHighRisk n) (nodes (generateNetworkData orc w)))
             (lowRiskEdges orc (filter (\<lambda>n. \<not> isHighRisk n) (nodes (generateNetworkData orc w)))
                (fst (snd (clusterPhase orc w))))))"
  by (simp add: generateNetworkData_def gridOf_def clusterPhase_def paddingOf_def
      topPaddingOf_def Let_def)

lemma clusterPhase_inv:
  "validOracle orc \<Longrightarrow> genInv orc (width w) (height w) 3 (clusterPhase orc w)"
  unfolding clusterPhase_def MULE_CLUSTERS_def by (rule clusters_inv)

lemma gridOf_fields:
  "gridW (gridOf orc w) = width w"
  "gridH (gridOf orc w) = height w"
  "gridPadding (gridOf orc w) = paddingOf w"
  "lowRiskCount (gridOf orc w) = TOTAL_NODES - int (length (fst (clusterPhase orc w)))"
  by (simp_all add: gridOf_def mkGrid_def Let_def)

lemma generate_nodes_extends:
  "extends (lowLike (gridOf orc w)) (map jsNode (fst (clusterPhase orc w)))
     (nodes (generateNetworkData orc w))"
  unfolding generate_nodes by (rule lowRiskLoop_extends)

lemma generate_idsOk:
  assumes "validOracle orc"
  shows "idsOk (nodes (generateNetworkData orc w))"
proof -
  from clusterPhase_inv[OF assms] have "idsOk (fst (clusterPhase orc w))"
    by (simp add: genInv_def)
  then have "idsOk (map jsNode (fst (clusterPhase orc w)))" by (rule idsOk_jsNode)
  then show ?thesis unfolding generate_nodes by (rule lowRiskLoop_idsOk)
qed

lemma clusterPhase_length:
  assumes "validOracle orc"
  shows "length (fst (clusterPhase orc w)) \<le> 66"
  using clusterPhase_inv[OF assms, of w] by (simp add: genInv_def)


text \<open>
  The low-risk loop in closed form: it appends a node for each candidate it keeps, in
  order, with consecutive ids.
\<close>

lemma loop_condition:
  "(real i < real_of_int L * (13 / 10) \<and> int cr < L)
     \<longleftrightarrow> (i < nat \<lceil>real_of_int L * (13 / 10)\<rceil> \<and> cr < nat L)"
proof -
  have "real i < real_of_int L * (13 / 10) \<longleftrightarrow> int i < \<lceil>real_of_int L * (13 / 10)\<rceil>"
    by (simp add: less_ceiling_iff)
  then show ?thesis by (simp add: zless_nat_eq_int_zless)
qed

lemma lowRiskLoop_eq:
  "lowRiskLoop orc g i cr ns =
     ns @ map (\<lambda>(newId, j). lowRiskNode orc j newId (lowRiskPos orc g j))
            (enumerate (length ns)
               (take (nat (lowRiskCount g) - cr)
                  (filter (lowRiskClear orc g)
                     [i..<nat \<lceil>real_of_int (lowRiskCount g) * (13 / 10)\<rceil>])))"
proof (induction orc g i cr ns rule: lowRiskLoop.induct)
  case (1 orc g i cr ns)
  let ?pos = "lowRiskPos orc g i"
  let ?N = "nat \<lceil>real_of_int (lowRiskCount g) * (13 / 10)\<rceil>"
  let ?f = "\<lambda>(newId, j). lowRiskNode orc j newId (lowRiskPos orc g j)"
  show ?case
  proof (cases "real i < real_of_int (lowRiskCount g) * (13 / 10) \<and> int cr < lowRiskCount g")
    case False
    then have "\<not> i < ?N \<or> \<not> cr < nat (lowRiskCount g)" unfolding loop_condition by blast
    then have tk0: "take (nat (lowRiskCount g) - cr) (filter (lowRiskClear orc g) [i..<?N]) = []"
    proof
      assume "\<not> i < ?N"
      then have "?N \<le> i" by (rule leI)
      then have e: "[i..<?N] = []" by (rule upt_conv_Nil)
      show ?thesis unfolding e by simp
    next
      assume "\<not> cr < nat (lowRiskCount g)"
      then have e: "nat (lowRiskCount g) - cr = 0" by simp
      show ?thesis unfolding e by simp
    qed
    show ?thesis unfolding lowRiskLoop_stop[OF False] tk0 by simp
  next
    case c: True
    then have iN: "i < ?N" and cL: "cr < nat (lowRiskCount g)" unfolding loop_condition by blast+
    have up: "[i..<?N] = i # [Suc i..<?N]" using iN by (rule upt_conv_Cons)
    show ?thesis
    proof (cases "tooCloseToCluster g ?pos")
      case True
      then have n: "\<not> lowRiskClear orc g i" by (simp add: lowRiskClear_def)
      show ?thesis
        unfolding lowRiskLoop_close[OF c True] 1(1)[OF c True] up using n by simp
    next
      case t: False
      show ?thesis
      proof (cases "outsideBounds g ?pos")
        case True
        then have n: "\<not> lowRiskClear orc g i" by (simp add: lowRiskClear_def)
        show ?thesis
          unfolding lowRiskLoop_outside[OF c t True] 1(2)[OF c t True] up using n by simp
      next
        case False
        with t have y: "lowRiskClear orc g i" by (simp add: lowRiskClear_def)
        have tk: "take (nat (lowRiskCount g) - cr) (i # xs)
                    = i # take (nat (lowRiskCount g) - Suc cr) xs" for xs
        proof -
          have "nat (lowRiskCount g) - cr = Suc (nat (lowRiskCount g) - Suc cr)"
            using cL by simp
          then show ?thesis by (simp only: take_Suc_Cons)
        qed
        show ?thesis
          unfolding lowRiskLoop_place[OF c t False] 1(3)[OF c t False] up
          using y by (simp add: tk)
      qed
    qed
  qed
qed

lemma generate_nodes_eq:
  "nodes (generateNetworkData orc w) =
     map jsNode (fst (clusterPhase orc w))
     @ map (\<lambda>(newId, i). lowRiskNode orc i newId (lowRiskPos orc (gridOf orc w) i))
         (enumerate (length (fst (clusterPhase orc w))) (keptCandidates orc (gridOf orc w)))"
  unfolding generate_nodes lowRiskLoop_eq keptCandidates_def by simp

lemma generate_cluster_nodes_sub:
  "set (map jsNode (fst (clusterPhase orc w))) \<subseteq> set (nodes (generateNetworkData orc w))"
  using generate_nodes_extends by (rule extends_set)

lemma genInv_cluster_sub:
  assumes "genInv orc W H k st" "j < k"
  shows "set (snd (snd st) ! j) \<subseteq> set (fst st)"
proof -
  from assms(1) have "\<forall>j<k. set (snd (snd st) ! j) \<subseteq> set (fst st)
                 \<and> list_all (\<lambda>u. clusterId u = Some j) (snd (snd st) ! j)
                 \<and> 2 \<le> length (snd (snd st) ! j)
                 \<and> innocentsPlaced orc j (clusterPositions W H ! j) (mainNodes (snd (snd st)) j)
                       (fst st)"
    unfolding genInv_def by (elim conjE)
  with assms(2) show ?thesis by simp
qed

lemma generate_edges_extends:
  assumes v: "validOracle orc"
  shows "extends (\<lambda>e. plainEdge (length (nodes (generateNetworkData orc w))) e
                     \<or> diameterEdge (muleClusters (generateNetworkData orc w))
                          (length (nodes (generateNetworkData orc w))) e)
           (fst (snd (clusterPhase orc w))) (edges (generateNetworkData orc w))"
proof -
  define g where "g = generateNetworkData orc w"
  define N where "N = length (nodes g)"
  define cls where "cls = map (map jsNode) (snd (snd (clusterPhase orc w)))"
  define low where "low = filter (\<lambda>n. \<not> isHighRisk n) (nodes g)"
  define high where "high = filter isHighRisk (nodes g)"
  have ids: "idsOk (nodes g)" unfolding g_def by (rule generate_idsOk[OF v])
  have below: "\<And>u. u \<in> set (nodes g) \<Longrightarrow> nid u < N"
    unfolding N_def using ids by (rule idsOk_mem)
  have lo: "\<And>u. u \<in> set low \<Longrightarrow> nid u < N" unfolding low_def using below by simp
  have hi: "\<And>u. u \<in> set high \<Longrightarrow> nid u < N" unfolding high_def using below by simp
  have inv: "genInv orc (width w) (height w) 3 (clusterPhase orc w)"
    by (rule clusterPhase_inv[OF v])
  have sub: "set (map jsNode (fst (clusterPhase orc w))) \<subseteq> set (nodes g)"
    unfolding g_def by (rule generate_cluster_nodes_sub)
  have len: "length cls = 3" using inv by (simp add: genInv_def cls_def)
  have cl: "\<And>j u. j < length cls \<Longrightarrow> u \<in> set (cls ! j) \<Longrightarrow> nid u < N"
  proof -
    fix j u assume j: "j < length cls" and u: "u \<in> set (cls ! j)"
    from j have j3: "j < 3" using len by simp
    then have "j < length (snd (snd (clusterPhase orc w)))" using len by (simp add: cls_def)
    then have "cls ! j = map jsNode (snd (snd (clusterPhase orc w)) ! j)"
      by (simp add: cls_def)
    with u have "u \<in> jsNode ` set (snd (snd (clusterPhase orc w)) ! j)" by simp
    then obtain u0 where u0: "u0 \<in> set (snd (snd (clusterPhase orc w)) ! j)" "u = jsNode u0"
      by (rule imageE)
    have "u0 \<in> set (fst (clusterPhase orc w))"
      using genInv_cluster_sub[OF inv j3] u0(1) by (rule subsetD)
    then have "u \<in> set (map jsNode (fst (clusterPhase orc w)))" using u0(2) by simp
    with sub have "u \<in> set (nodes g)" by (rule subsetD)
    then show "nid u < N" by (rule below)
  qed
  let ?Q = "\<lambda>e. plainEdge N e \<or> diameterEdge cls N e"
  let ?e1 = "lowRiskEdges orc low (fst (snd (clusterPhase orc w)))"
  let ?e2 = "longRangeEdges orc low ?e1"
  let ?e3 = "falseConnections orc low high ?e2"
  let ?e4 = "diameterEdges orc cls ?e3"
  have 1: "extends ?Q (fst (snd (clusterPhase orc w))) ?e1"
    by (rule extends_mono[OF lowRiskEdges_extends[of low N, OF lo]]) simp_all
  have 2: "extends ?Q ?e1 ?e2"
    by (rule extends_mono[OF longRangeEdges_extends[of low N, OF lo]]) simp_all
  have 3: "extends ?Q ?e2 ?e3"
    by (rule extends_mono[OF falseConnections_extends[of low N high, OF lo hi]]) simp_all
  have 4: "extends ?Q ?e3 ?e4"
    by (rule extends_mono[OF diameterEdges_extends[of cls N, OF cl]]) simp_all
  have "extends ?Q (fst (snd (clusterPhase orc w))) ?e4"
    by (rule extends_trans[OF extends_trans[OF extends_trans[OF 1 2] 3] 4])
  moreover have "edges g = ?e4"
    unfolding g_def low_def high_def cls_def by (rule generate_edges)
  moreover have "muleClusters g = cls" unfolding g_def cls_def by (rule generate_clusters)
  ultimately show ?thesis unfolding g_def N_def by simp
qed



text \<open>A node of the generated graph was made by the cluster loop or by the low-risk loop.\<close>

lemma generate_node_cases:
  assumes v: "validOracle orc" and u: "u \<in> set (nodes (generateNetworkData orc w))"
  shows "(\<exists>u0\<in>set (fst (clusterPhase orc w)). u = jsNode u0 \<and>
            nodeOk orc (width w) (height w) 3 (fst (clusterPhase orc w))
              (fst (snd (clusterPhase orc w))) (snd (snd (clusterPhase orc w))) u0)
         \<or> lowLike (gridOf orc w) u"
proof (cases "u \<in> set (map jsNode (fst (clusterPhase orc w)))")
  case False
  from extends_new[OF generate_nodes_extends u] False
  have "lowLike (gridOf orc w) u" by simp
  then show ?thesis by (rule disjI2)
next
  case True
  then have "u \<in> jsNode ` set (fst (clusterPhase orc w))" by simp
  then obtain u0 where u0: "u0 \<in> set (fst (clusterPhase orc w))" "u = jsNode u0" by (rule imageE)
  from clusterPhase_inv[OF v, of w]
  have "list_all (nodeOk orc (width w) (height w) 3 (fst (clusterPhase orc w))
            (fst (snd (clusterPhase orc w))) (snd (snd (clusterPhase orc w))))
          (fst (clusterPhase orc w))"
    by (simp add: genInv_def)
  with u0(1) have "nodeOk orc (width w) (height w) 3 (fst (clusterPhase orc w))
            (fst (snd (clusterPhase orc w))) (snd (snd (clusterPhase orc w))) u0"
    by (simp add: list_all_iff)
  with u0 show ?thesis by blast
qed

lemma nodeOk_innocent:
  assumes "nodeOk orc W H k ns es cls u0" "\<not> isHighRisk u0"
  shows "isInnocentNearCluster u0 \<and> clusterId u0 = None"
proof -
  from assms obtain j where
    "innocentLike orc j (clusterPositions W H ! j) (mainNodes cls j) u0"
    by (auto simp: nodeOk_def)
  from innocentLike_fields(1,4)[OF this] show ?thesis by simp
qed


lemma hasPartner_jsNode:
  assumes "hasPartner c ns es u"
  shows "hasPartner c (map jsNode ns) es (jsNode u)"
proof -
  from assms obtain v e where v: "v \<in> set ns" "clusterId v = Some c" "nid v \<noteq> nid u"
    and e: "e \<in> set es" "edgeClusterId e = Some c"
      "(source e = nid u \<and> target e = nid v) \<or> (source e = nid v \<and> target e = nid u)"
    unfolding hasPartner_def by blast
  have "jsNode v \<in> set (map jsNode ns)" using v(1) by simp
  moreover have "clusterId (jsNode v) = Some c" "nid (jsNode v) \<noteq> nid (jsNode u)"
    using v(2,3) by (simp_all add: jsNode_fields)
  moreover have "(source e = nid (jsNode u) \<and> target e = nid (jsNode v))
               \<or> (source e = nid (jsNode v) \<and> target e = nid (jsNode u))"
    using e(3) by (simp add: jsNode_fields)
  ultimately show ?thesis unfolding hasPartner_def using e(1,2) by blast
qed

lemma generate_partner:
  assumes v: "validOracle orc" and u: "u \<in> set (nodes (generateNetworkData orc w))"
    and c: "clusterId u = Some c"
  shows "c < 3 \<and> hasPartner c (nodes (generateNetworkData orc w)) (edges (generateNetworkData orc w)) u"
proof -
  have "\<not> lowLike (gridOf orc w) u" using c by (simp add: lowLike_def)
  with generate_node_cases[OF v u] obtain u0 where
    u0: "u0 \<in> set (fst (clusterPhase orc w))" "u = jsNode u0"
    and ok: "nodeOk orc (width w) (height w) 3 (fst (clusterPhase orc w))
              (fst (snd (clusterPhase orc w))) (snd (snd (clusterPhase orc w))) u0"
    by blast
  have c0: "clusterId u0 = Some c" using c u0(2) by (simp add: jsNode_fields)
  have hr: "isHighRisk u0"
  proof (rule ccontr)
    assume "\<not> isHighRisk u0"
    from nodeOk_innocent[OF ok this] c0 show False by simp
  qed
  with ok obtain j where "j < 3" "clusterId u0 = Some j"
    "hasPartner j (fst (clusterPhase orc w)) (fst (snd (clusterPhase orc w))) u0"
    unfolding nodeOk_def by auto
  with c0 have p: "c < 3"
    "hasPartner c (fst (clusterPhase orc w)) (fst (snd (clusterPhase orc w))) u0"
    by simp_all
  from p(2) have a: "hasPartner c (map jsNode (fst (clusterPhase orc w)))
                    (fst (snd (clusterPhase orc w))) u"
    unfolding u0(2) by (rule hasPartner_jsNode)
  have b: "set (fst (snd (clusterPhase orc w))) \<subseteq> set (edges (generateNetworkData orc w))"
    using generate_edges_extends[OF v] by (rule extends_set)
  have "hasPartner c (nodes (generateNetworkData orc w))
                     (edges (generateNetworkData orc w)) u"
    using a generate_cluster_nodes_sub[of orc w] b by (rule hasPartner_mono)
  with p(1) show ?thesis by simp
qed

text \<open>
  On a canvas larger than its padding the grid is finite, and so is every candidate
  position; the tests of the low-risk loop are then comparisons of real numbers.
\<close>

lemma jsDistance_Fin:
  "jsDistance (Fin x1) (Fin y1) (Fin x2) (Fin y2) = Fin (distance x1 y1 x2 y2)"
  by (simp add: jsDistance_def jsSub_def distance_def power2_eq_square not_less)






lemma generate_low_node:
  assumes v: "validOracle orc" and u: "u \<in> set (nodes (generateNetworkData orc w))"
    and k: "\<not> isHighRisk u" "\<not> isInnocentNearCluster u"
  shows "\<exists>i newId. i \<in> set (keptCandidates orc (gridOf orc w))
           \<and> u = lowRiskNode orc i newId (lowRiskPos orc (gridOf orc w) i)"
proof -
  let ?K = "keptCandidates orc (gridOf orc w)"
  let ?n = "length (fst (clusterPhase orc w))"
  let ?f = "\<lambda>(newId, i). lowRiskNode orc i newId (lowRiskPos orc (gridOf orc w) i)"
  have old: "u \<notin> set (map jsNode (fst (clusterPhase orc w)))"
  proof
    assume "u \<in> set (map jsNode (fst (clusterPhase orc w)))"
    then have "u \<in> jsNode ` set (fst (clusterPhase orc w))" by simp
    then obtain u0 where u0: "u0 \<in> set (fst (clusterPhase orc w))" "u = jsNode u0"
      by (rule imageE)
    from clusterPhase_inv[OF v, of w]
    have "list_all (nodeOk orc (width w) (height w) 3 (fst (clusterPhase orc w))
              (fst (snd (clusterPhase orc w))) (snd (snd (clusterPhase orc w))))
            (fst (clusterPhase orc w))"
      by (simp add: genInv_def)
    with u0(1) have ok: "nodeOk orc (width w) (height w) 3 (fst (clusterPhase orc w))
              (fst (snd (clusterPhase orc w))) (snd (snd (clusterPhase orc w))) u0"
      by (simp add: list_all_iff)
    have "\<not> isHighRisk u0" using k(1) u0(2) by (simp add: jsNode_fields)
    from nodeOk_innocent[OF ok this] have "isInnocentNearCluster u" using u0(2)
      by (simp add: jsNode_fields)
    with k(2) show False by simp
  qed
  from u have "u \<in> set (map jsNode (fst (clusterPhase orc w))) \<or> u \<in> set (map ?f (enumerate ?n ?K))"
    unfolding generate_nodes_eq by simp
  with old have "u \<in> ?f ` set (enumerate ?n ?K)" by simp
  then obtain p where p: "p \<in> set (enumerate ?n ?K)" "u = ?f p" by (rule imageE)
  from p(1) have "?K ! (fst p - ?n) = snd p" "fst p - ?n < length ?K"
    by (auto simp: in_set_enumerate_eq)
  then have "snd p \<in> set ?K" using nth_mem by metis
  moreover have "u = lowRiskNode orc (snd p) (fst p) (lowRiskPos orc (gridOf orc w) (snd p))"
    using p(2) by (simp add: case_prod_beta)
  ultimately show ?thesis by blast
qed


lemma lowRiskNode_pos:
  "posX (lowRiskNode orc i newId pos) = fst pos" "posY (lowRiskNode orc i newId pos) = snd pos"
  by (simp_all add: lowRiskNode_def)


text \<open>
  On a canvas whose height is exactly the two vertical paddings (800 by 80 on a desktop)
  the effective height is 0: \<open>gridCols\<close> is infinite, \<open>gridRows\<close> is 0 and
  \<open>cellHeight\<close> is NaN. Every candidate then sits at x = padding with y = NaN, passes
  both tests of the loop (a comparison with NaN is false) and is kept: the graph has all
  of its \<open>TOTAL_NODES\<close> nodes, the low-risk ones at no place of the canvas.
\<close>

lemma flat_grid:
  assumes "0 < W - padding * 2" "H - padding - topPadding = 0" "int k < TOTAL_NODES"
  shows "mkGrid W H padding topPadding k =
          \<lparr>gridW = W, gridH = H, gridPadding = padding, lowRiskCount = TOTAL_NODES - int k,
           gridCols = PosInf, cellWidth = Fin 0, cellHeight = NaN\<rparr>"
proof -
  define L where "L = real_of_int (TOTAL_NODES - int k)"
  define eW where "eW = W - padding * 2"
  have L: "0 < L" "L \<noteq> 0" unfolding L_def using assms(3) by simp_all
  have eW: "0 < eW" "eW \<noteq> 0" unfolding eW_def using assms(1) by simp_all
  have e1: "jsDiv (Fin eW) (Fin 0) = PosInf" using eW by (simp add: infOfSign_def)
  have e2: "jsMul (Fin L) PosInf = PosInf" using L by (simp add: infOfSign_def)
  have e3: "jsCeil (jsSqrt PosInf) = PosInf" by simp
  have e4: "jsCeil (jsDiv (Fin L) PosInf) = Fin 0" by simp
  have e5: "jsDiv (Fin eW) PosInf = Fin 0" by simp
  have e6: "jsDiv (Fin 0) (Fin 0) = NaN" by simp
  show ?thesis
    unfolding mkGrid_def Let_def assms(2) L_def[symmetric] eW_def[symmetric]
      e1 e2 e3 e4 e5 e6 ..
qed

lemma flat_pos:
  assumes "gridCols g = PosInf" "cellWidth g = Fin 0" "cellHeight g = NaN"
  shows "lowRiskPos orc g i = (Fin (gridPadding g), NaN)"
  unfolding lowRiskPos_def Let_def assms
  by (simp add: jsRandomRange_def jsSub_def)

lemma flat_clear:
  assumes "gridCols g = PosInf" "cellWidth g = Fin 0" "cellHeight g = NaN"
    and "2 * gridPadding g \<le> gridW g"
  shows "lowRiskClear orc g i"
  unfolding lowRiskClear_def flat_pos[OF assms(1-3)] using assms(4)
  by (simp add: tooCloseToCluster_def outsideBounds_def jsDistance_def jsSub_def list_ex_iff)

lemma keptCandidates_all:
  assumes c: "\<And>i. lowRiskClear orc g i" and l: "0 \<le> lowRiskCount g"
  shows "keptCandidates orc g = [0..<nat (lowRiskCount g)]"
proof -
  have "real_of_int (lowRiskCount g) \<le> real_of_int (lowRiskCount g) * (13 / 10)"
    using l by simp
  then have "\<lceil>real_of_int (lowRiskCount g)\<rceil> \<le> \<lceil>real_of_int (lowRiskCount g) * (13 / 10)\<rceil>"
    by (rule ceiling_mono)
  then have "lowRiskCount g \<le> \<lceil>real_of_int (lowRiskCount g) * (13 / 10)\<rceil>"
    by (simp only: ceiling_of_int)
  then have m: "0 + nat (lowRiskCount g) \<le> nat \<lceil>real_of_int (lowRiskCount g) * (13 / 10)\<rceil>"
    by simp
  have f: "filter (lowRiskClear orc g) xs = xs" for xs
    by (rule filter_True) (simp add: c)
  show ?thesis unfolding keptCandidates_def f take_upt[OF m] by simp
qed

lemma generate_flat_canvas:
  assumes v: "validOracle orc"
    and s: "2 * paddingOf w < width w" "height w = paddingOf w + topPaddingOf w"
  shows "length (nodes (generateNetworkData orc w)) = nat TOTAL_NODES"
    and "\<forall>u\<in>set (nodes (generateNetworkData orc w)).
           \<not> isHighRisk u \<and> \<not> isInnocentNearCluster u \<longrightarrow>
             posX u = Fin (paddingOf w) \<and> posY u = NaN"
proof -
  let ?n = "length (fst (clusterPhase orc w))"
  have n: "?n \<le> 66" by (rule clusterPhase_length[OF v])
  have "gridOf orc w =
          \<lparr>gridW = width w, gridH = height w, gridPadding = paddingOf w,
           lowRiskCount = TOTAL_NODES - int ?n,
           gridCols = PosInf, cellWidth = Fin 0, cellHeight = NaN\<rparr>"
    unfolding gridOf_def
  proof (rule flat_grid)
    show "0 < width w - paddingOf w * 2" using s(1) by simp
    show "height w - paddingOf w - topPaddingOf w = 0" using s(2) by simp
    show "int ?n < TOTAL_NODES" using n by (simp add: TOTAL_NODES_def)
  qed
  then have g: "gridCols (gridOf orc w) = PosInf" "cellWidth (gridOf orc w) = Fin 0"
    "cellHeight (gridOf orc w) = NaN" by simp_all
  have p: "2 * gridPadding (gridOf orc w) \<le> gridW (gridOf orc w)"
    unfolding gridOf_fields using s(1) by simp
  have "0 \<le> lowRiskCount (gridOf orc w)"
    unfolding gridOf_fields using n by (simp add: TOTAL_NODES_def)
  with flat_clear[OF g p] have "keptCandidates orc (gridOf orc w)
      = [0..<nat (lowRiskCount (gridOf orc w))]" by (rule keptCandidates_all)
  then have "length (keptCandidates orc (gridOf orc w)) = nat (TOTAL_NODES - int ?n)"
    by (simp add: gridOf_fields)
  then show "length (nodes (generateNetworkData orc w)) = nat TOTAL_NODES"
    unfolding generate_nodes_eq using n by (simp add: TOTAL_NODES_def)
  show "\<forall>u\<in>set (nodes (generateNetworkData orc w)).
           \<not> isHighRisk u \<and> \<not> isInnocentNearCluster u \<longrightarrow>
             posX u = Fin (paddingOf w) \<and> posY u = NaN"
  proof (intro ballI impI)
    fix u assume u: "u \<in> set (nodes (generateNetworkData orc w))"
      and k: "\<not> isHighRisk u \<and> \<not> isInnocentNearCluster u"
    from generate_low_node[OF v u] k obtain i newId where
      "u = lowRiskNode orc i newId (lowRiskPos orc (gridOf orc w) i)" by blast
    then show "posX u = Fin (paddingOf w) \<and> posY u = NaN"
      unfolding flat_pos[OF g] by (simp add: lowRiskNode_pos gridOf_fields)
  qed
qed

lemma lowRiskNode_flags:
  "\<not> isHighRisk (lowRiskNode orc i newId pos)"
  "\<not> isInnocentNearCluster (lowRiskNode orc i newId pos)"
  by (simp_all add: lowRiskNode_def)

lemma generate_low_count:
  "length (keptCandidates orc (gridOf orc w))
     \<le> length (filter (\<lambda>u. \<not> isHighRisk u \<and> \<not> isInnocentNearCluster u)
                 (nodes (generateNetworkData orc w)))"
proof -
  let ?P = "\<lambda>u :: jsnode. \<not> isHighRisk u \<and> \<not> isInnocentNearCluster u"
  let ?ls = "map (\<lambda>(newId, i). lowRiskNode orc i newId (lowRiskPos orc (gridOf orc w) i))
               (enumerate (length (fst (clusterPhase orc w))) (keptCandidates orc (gridOf orc w)))"
  have "filter ?P ?ls = ?ls"
    by (rule filter_True) (auto simp: lowRiskNode_flags)
  then have "length (filter ?P ?ls) = length (keptCandidates orc (gridOf orc w))" by simp
  then show ?thesis unfolding generate_nodes_eq filter_append by simp
qed

text \<open>The same on the 800 by 80 canvas: at least 434 nodes of the 500 are at y = NaN.\<close>

lemma generate_flat_example:
  assumes v: "validOracle orc"
  shows "length (nodes (generateNetworkData orc flatWidget)) = 500"
    and "434 \<le> length (filter (\<lambda>u. \<not> isHighRisk u \<and> \<not> isInnocentNearCluster u)
                       (nodes (generateNetworkData orc flatWidget)))"
    and "\<forall>u\<in>set (nodes (generateNetworkData orc flatWidget)).
           \<not> isHighRisk u \<and> \<not> isInnocentNearCluster u \<longrightarrow> posX u = Fin 40 \<and> posY u = NaN"
proof -
  have s: "2 * paddingOf flatWidget < width flatWidget"
    "height flatWidget = paddingOf flatWidget + topPaddingOf flatWidget"
    by (simp_all add: flatWidget_def exampleWidget_def paddingOf_def topPaddingOf_def)
  have p: "paddingOf flatWidget = 40"
    by (simp add: flatWidget_def exampleWidget_def paddingOf_def)
  from generate_flat_canvas(1)[OF v s]
  show l: "length (nodes (generateNetworkData orc flatWidget)) = 500"
    by (simp add: TOTAL_NODES_def)
  from generate_flat_canvas(2)[OF v s]
  show "\<forall>u\<in>set (nodes (generateNetworkData orc flatWidget)).
           \<not> isHighRisk u \<and> \<not> isInnocentNearCluster u \<longrightarrow> posX u = Fin 40 \<and> posY u = NaN"
    unfolding p .
  have "length (nodes (generateNetworkData orc flatWidget))
          = length (fst (clusterPhase orc flatWidget))
            + length (keptCandidates orc (gridOf orc flatWidget))"
    unfolding generate_nodes_eq by simp
  with l clusterPhase_length[OF v, of flatWidget]
  have "434 \<le> length (keptCandidates orc (gridOf orc flatWidget))" by linarith
  with generate_low_count[of orc flatWidget]
  show "434 \<le> length (filter (\<lambda>u. \<not> isHighRisk u \<and> \<not> isInnocentNearCluster u)
                       (nodes (generateNetworkData orc flatWidget)))"
    by linarith
qed






lemma validOracle_halfSource: "validOracle halfSource"
  by (simp add: validOracle_def halfSource_def)

lemma validOracle_splitSource: "validOracle splitSource"
  by (simp add: validOracle_def splitSource_def)

lemma generate_cluster_nonempty:
  assumes v: "validOracle orc" and c: "c < 3"
  shows "\<exists>u\<in>set (nodes (generateNetworkData orc w)). clusterId u = Some c"
proof -
  let ?cl = "clusterPhase orc w"
  from clusterPhase_inv[OF v, of w]
  have "\<forall>j<3. set (snd (snd ?cl) ! j) \<subseteq> set (fst ?cl)
                 \<and> list_all (\<lambda>u. clusterId u = Some j) (snd (snd ?cl) ! j)
                 \<and> 2 \<le> length (snd (snd ?cl) ! j)
                 \<and> innocentsPlaced orc j (clusterPositions (width w) (height w) ! j)
                       (mainNodes (snd (snd ?cl)) j) (fst ?cl)"
    unfolding genInv_def by (elim conjE)
  with c have a: "set (snd (snd ?cl) ! c) \<subseteq> set (fst ?cl)"
    and b: "list_all (\<lambda>u. clusterId u = Some c) (snd (snd ?cl) ! c)"
    and l: "2 \<le> length (snd (snd ?cl) ! c)"
    by simp_all
  from l have "snd (snd ?cl) ! c \<noteq> []" by auto
  then have "hd (snd (snd ?cl) ! c) \<in> set (snd (snd ?cl) ! c)" by (rule hd_in_set)
  then obtain u where u: "u \<in> set (snd (snd ?cl) ! c)" ..
  with b have "clusterId u = Some c" by (simp add: list_all_iff)
  then have "clusterId (jsNode u) = Some c" by (simp add: jsNode_fields)
  moreover have "u \<in> set (fst ?cl)" using a u by (rule subsetD)
  then have "jsNode u \<in> set (map jsNode (fst ?cl))" by simp
  with generate_cluster_nodes_sub have "jsNode u \<in> set (nodes (generateNetworkData orc w))"
    by (rule subsetD)
  ultimately show ?thesis by blast
qed

text \<open>
  Claim C3, as the code has it. In every generated graph, every node with cluster id
  \<open>c\<close> is joined by an edge with cluster id \<open>c\<close> to another node with cluster id \<open>c\<close>:
  no node of a cluster is isolated in the cluster's edge set. (The whole cluster need
  not be connected.)
\<close>

theorem cluster_node_joined:
  assumes "validOracle orc"
  shows "\<forall>u\<in>set (nodes (generateNetworkData orc w)). \<forall>c. clusterId u = Some c \<longrightarrow>
           (\<exists>v\<in>set (nodes (generateNetworkData orc w)).
              clusterId v = Some c \<and> nid v \<noteq> nid u
              \<and> (nid u, nid v) \<in> clusterAdj (generateNetworkData orc w) c)"
proof (intro ballI allI impI)
  fix u c
  assume u: "u \<in> set (nodes (generateNetworkData orc w))" and c: "clusterId u = Some c"
  from generate_partner[OF assms u c]
  have "hasPartner c (nodes (generateNetworkData orc w)) (edges (generateNetworkData orc w)) u"
    by simp
  then show "\<exists>v\<in>set (nodes (generateNetworkData orc w)).
              clusterId v = Some c \<and> nid v \<noteq> nid u
              \<and> (nid u, nid v) \<in> clusterAdj (generateNetworkData orc w) c"
    unfolding hasPartner_def clusterAdj_def by blast
qed

theorem cluster_node_joined_witness:
  "validOracle splitSource
   \<and> (\<exists>u\<in>set (nodes (generateNetworkData splitSource exampleWidget)).
        \<exists>v\<in>set (nodes (generateNetworkData splitSource exampleWidget)).
          clusterId u = Some 0 \<and> clusterId v = Some 0 \<and> nid v \<noteq> nid u
          \<and> (nid u, nid v) \<in> clusterAdj (generateNetworkData splitSource exampleWidget) 0)"
proof -
  have v: "validOracle splitSource" by (simp add: validOracle_def splitSource_def)
  from generate_cluster_nonempty[OF v, of 0 exampleWidget]
  obtain u where u: "u \<in> set (nodes (generateNetworkData splitSource exampleWidget))"
    "clusterId u = Some 0" by auto
  from cluster_node_joined[OF v, of exampleWidget] u
  show ?thesis using v by blast
qed

subsection \<open>A run that leaves a cluster in three pieces\<close>

lemma available_above:
  "i < k \<Longrightarrow> map snd (filter (\<lambda>(idx, n). idx \<noteq> i) (enumerate k cn)) = cn"
  by (induction cn arbitrary: k) auto

lemma available_from:
  "map snd (filter (\<lambda>(idx, n). idx \<noteq> k + i) (enumerate k cn)) = take i cn @ drop (Suc i) cn"
proof (induction cn arbitrary: k i)
  case Nil
  show ?case by simp
next
  case (Cons x xs)
  show ?case
  proof (cases i)
    case 0
    then show ?thesis using available_above[of k "Suc k" xs] by simp
  next
    case (Suc i')
    then show ?thesis using Cons.IH[of "Suc k" i'] by simp
  qed
qed

lemma available_eq:
  "map snd (filter (\<lambda>(idx, n). idx \<noteq> i) (enumerate 0 cn)) = take i cn @ drop (Suc i) cn"
  using available_from[of 0 i cn] by simp

lemma pickOrder_two:
  assumes "Suc k < length xs"
  shows "take 2 (pickOrder [k, k] xs) = [xs ! k, xs ! Suc k]"
proof -
  let ?ys = "take k xs @ drop (Suc k) xs"
  have x: "xs \<noteq> []" "k mod length xs = k" using assms by auto
  have l: "length ?ys = length xs - 1" using assms by simp
  then have y: "?ys \<noteq> []" "k mod length ?ys = k" using assms by auto
  have n: "?ys ! k = xs ! Suc k" using assms by (simp add: nth_append)
  have "pickOrder [k, k] xs = xs ! k # pickOrder [k] ?ys"
    using x by (simp add: Let_def)
  also have "pickOrder [k] ?ys = ?ys ! k # take k ?ys @ drop (Suc k) ?ys"
    using y by (simp only: pickOrder.simps Let_def if_False)
  finally show ?thesis using n by simp
qed

lemma pick_three:
  "tgt = f (if P then a else b) \<or> tgt = f (if Q then b else c) \<Longrightarrow>
   \<exists>j. (j = a \<or> j = b \<or> j = c) \<and> tgt = f j"
  by (cases P; cases Q) auto

lemma webTargets_split:
  assumes l: "length cn = 9" and i: "i < 9"
    and m: "tgt \<in> set (webTargets splitSource c cn i)"
  shows "\<exists>j<9. j div 3 = i div 3 \<and> tgt = cn ! j"
proof -
  define k where "k = 3 * (i div 3)"
  define av where "av = take i cn @ drop (Suc i) cn"
  have la: "length av = 8" unfolding av_def using l i by simp
  have d3: "i div 3 < 3" using i less_mult_imp_div_less[of i 3 3] by simp
  have k8: "k < 8" "Suc k < 8" unfolding k_def using d3 by linarith+
  have k: "Suc k < length av" unfolding la by (rule k8(2))
  have cc: "\<lfloor>randomRange (rnd splitSource ConnCount [c, i]) 2 5\<rfloor> = 2"
    by (simp add: splitSource_def randomRange_def)
  have sh: "shuffle splitSource ConnShuffle [c, i] = [k, k]"
    by (simp add: splitSource_def k_def)
  have pl: "length (pickOrder [k, k] av) = 8" by (simp only: pickOrder_length la)
  have n2: "nat (min 2 (int 8)) = 2" by simp
  have "webTargets splitSource c cn i = take (nat (min 2 (int 8))) (pickOrder [k, k] av)"
    unfolding webTargets_def available_eq Let_def cc sh av_def[symmetric] pl ..
  then have w: "webTargets splitSource c cn i = [av ! k, av ! Suc k]"
    unfolding n2 pickOrder_two[OF k] .
  have a: "av ! m = cn ! (if m < i then m else Suc m)" if "m < 8" for m
    unfolding av_def using that l i by (simp add: nth_append min_def)
  from m have "tgt = av ! k \<or> tgt = av ! Suc k" unfolding w by simp
  then have "tgt = cn ! (if k < i then k else Suc k)
           \<or> tgt = cn ! (if Suc k < i then Suc k else Suc (Suc k))"
    unfolding a[OF k8(1)] a[OF k8(2)] .
  from pick_three[of tgt "(!) cn" "k < i" k "Suc k" "Suc k < i" "Suc (Suc k)", OF this]
  obtain j where j: "j = k \<or> j = Suc k \<or> j = Suc (Suc k)" "tgt = cn ! j"
    by (elim exE conjE) (rule that)
  from d3 have "i div 3 = 0 \<or> i div 3 = 1 \<or> i div 3 = 2" by linarith
  with j(1) have "j < 9 \<and> j div 3 = i div 3"
    unfolding k_def by (elim disjE) simp_all
  with j(2) show ?thesis by blast
qed

lemma clusterCount_split:
  "\<lfloor>randomRange (rnd splitSource ClusterCount [c]) NODES_PER_CLUSTER_MIN (NODES_PER_CLUSTER_MAX + 1)\<rfloor> = 9"
  by (simp add: splitSource_def randomRange_def NODES_PER_CLUSTER_MIN_def NODES_PER_CLUSTER_MAX_def)

lemma webShape_split:
  assumes cn: "cn = map (clusterNode splitSource c ctr 9 base) [0..<9]"
    and w: "webShape splitSource c cn e"
  shows "splitEdge c base e"
proof -
  have l: "length cn = 9" by (simp add: cn)
  have id: "nid (cn ! i) = base + i" if "i < 9" for i
    using that by (simp add: cn clusterNode_fields)
  from w obtain i tgt ato where i: "i < length cn" and tg: "tgt \<in> set (webTargets splitSource c cn i)"
    and e: "e = mkEdge (nid (cn ! i)) (nid tgt) True ato (Some c)"
    unfolding webShape_def by blast
  have i9: "i < 9" using i l by simp
  from webTargets_split[OF l i9 tg] obtain j where j: "j < 9" "j div 3 = i div 3" "tgt = cn ! j"
    by blast
  have "source e = base + i" "target e = base + j" "edgeClusterId e = Some c"
    unfolding e mkEdge_fields j(3) by (simp_all add: id i9 j(1))
  then show ?thesis unfolding splitEdge_def blockLabel_def using i9 j by simp
qed

lemma crossConnections_split: "crossConnections splitSource c cn es = es"
proof -
  have "foldl (crossStep splitSource c cn) es ps = es" for ps
    by (induction ps) (simp_all add: crossStep_def splitSource_def)
  then show ?thesis by (simp add: crossConnections_def)
qed

lemma satelliteEdges_split:
  assumes "filter (\<lambda>n. \<not> isSatellite n) cnx = cn0" "cn0 \<noteq> []"
  shows "\<exists>ato. satelliteEdges splitSource c s sat cnx es
           = es @ [mkEdge (nid sat) (nid (cn0 ! 0)) True ato (Some c)]"
proof -
  have a: "\<lfloor>randomRange (rnd splitSource SatConnCount [c, s]) 1 4\<rfloor> = 1"
    by (simp add: splitSource_def randomRange_def)
  have b: "pickOrder (shuffle splitSource SatShuffle [c, s]) cn0 = cn0"
    by (simp add: splitSource_def)
  have "1 \<le> length cn0" using assms(2) by (simp add: Suc_le_eq)
  then have n: "nat (min 1 (int (length cn0))) = 1" by simp
  have u: "[0..<1] = [0::nat]" by simp
  show ?thesis
    unfolding satelliteEdges_def Let_def assms(1) a b n u by simp blast
qed

lemma satellites_split:
  assumes main: "list_all (mainLike c) cn0" "cn0 \<noteq> []"
  shows "extends (\<lambda>u. True) ns0 (fst (satellites splitSource W H pad c ctr (ns0, cn0, es0)))
       \<and> extends (\<lambda>e. edgeClusterId e = Some c \<and> length ns0 \<le> source e \<and> target e = nid (cn0 ! 0))
           es0 (snd (snd (satellites splitSource W H pad c ctr (ns0, cn0, es0))))"
proof -
  let ?Q = "\<lambda>e. edgeClusterId e = Some c \<and> length ns0 \<le> source e \<and> target e = nid (cn0 ! 0)"
  let ?P = "\<lambda>st. extends (\<lambda>u. True) ns0 (fst st) \<and> extends (satelliteLike c) cn0 (fst (snd st))
                 \<and> extends ?Q es0 (snd (snd st))"
  have "?P (satellites splitSource W H pad c ctr (ns0, cn0, es0))"
    unfolding satellites_def
  proof (rule foldl_invariant)
    show "?P (ns0, cn0, es0)" by (simp add: extends_refl)
  next
    fix st s assume p: "?P st"
    define ns where "ns = fst st"
    define cnx where "cnx = fst (snd st)"
    define es where "es = snd (snd st)"
    define sat where "sat = satelliteNode splitSource c s (length ns) (satellitePos splitSource W H pad c ctr s)"
    have step: "satelliteStep splitSource W H pad c ctr st s
                 = (ns @ [sat], cnx @ [sat], satelliteEdges splitSource c s sat (cnx @ [sat]) es)"
      by (simp add: satelliteStep_def Let_def ns_def cnx_def es_def sat_def)
    from p have p1: "extends (\<lambda>u. True) ns0 ns" and p2: "extends (satelliteLike c) cn0 cnx"
      and p3: "extends ?Q es0 es" by (simp_all add: ns_def cnx_def es_def)
    have satl: "satelliteLike c sat" by (simp add: sat_def satelliteLike_def satelliteNode_fields)
    have sid: "nid sat = length ns" by (simp add: sat_def satelliteNode_fields)
    have len0: "length ns0 \<le> length ns" using p1 by (rule extends_length)
    have o1: "extends (\<lambda>u. True) ns0 (ns @ [sat])"
      using p1 extends_snoc[of "\<lambda>u. True" sat ns] by (blast intro: extends_trans)
    have o2: "extends (satelliteLike c) cn0 (cnx @ [sat])"
      using p2 extends_snoc[of "satelliteLike c" sat cnx, OF satl] by (rule extends_trans)
    have fm: "filter (\<lambda>n. \<not> isSatellite n) (cnx @ [sat]) = cn0"
      using filter_main_extends[OF o2 main(1)] .
    from satelliteEdges_split[OF fm main(2), of c s sat es] obtain ato where
      se: "satelliteEdges splitSource c s sat (cnx @ [sat]) es
             = es @ [mkEdge (nid sat) (nid (cn0 ! 0)) True ato (Some c)]" by blast
    have "?Q (mkEdge (nid sat) (nid (cn0 ! 0)) True ato (Some c))"
      using len0 by (simp add: mkEdge_fields sid)
    then have "extends ?Q es (es @ [mkEdge (nid sat) (nid (cn0 ! 0)) True ato (Some c)])"
      by (rule extends_snoc)
    with p3 have o3: "extends ?Q es0 (es @ [mkEdge (nid sat) (nid (cn0 ! 0)) True ato (Some c)])"
      by (rule extends_trans)
    show "?P (satelliteStep splitSource W H pad c ctr st s)"
      unfolding step se using o1 o2 o3 by simp
  qed
  then show ?thesis by blast
qed

lemma genCluster_split:
  "extends (splitEdge c (length (fst st))) (fst (snd st))
     (fst (snd (genCluster splitSource W H pad st c)))
   \<and> extends (\<lambda>u. True)
       (fst st @ map (clusterNode splitSource c (clusterPositions W H ! c) 9 (length (fst st))) [0..<9])
       (fst (genCluster splitSource W H pad st c))"
proof -
  define cn where
    "cn = map (clusterNode splitSource c (clusterPositions W H ! c) 9 (length (fst st))) [0..<9]"
  define ns where "ns = fst st"
  define es where "es = fst (snd st)"
  define ctr where "ctr = clusterPositions W H ! c"
  define es1 where "es1 = webConnections splitSource c cn es"
  define ns2 where "ns2 = innocents splitSource c ctr cn (ns @ cn)"
  define sat where "sat = satellites splitSource W H pad c ctr (ns2, cn, es1)"
  have n9: "nat 9 = (9::nat)" by simp
  have eq: "fst (genCluster splitSource W H pad st c) = fst sat"
           "fst (snd (genCluster splitSource W H pad st c)) = snd (snd sat)"
    unfolding genCluster_def Let_def clusterCount_split crossConnections_split n9
    by (simp_all add: sat_def ns2_def es1_def cn_def ns_def es_def ctr_def)
  have l: "length cn = 9" by (simp add: cn_def)
  have cn_main: "list_all (mainLike c) cn"
    by (simp add: cn_def list_all_iff mainLike_def clusterNode_fields)
  have cn_ne: "cn \<noteq> []" using l by auto
  have id0: "nid (cn ! 0) = length ns" by (simp add: cn_def clusterNode_fields ns_def)
  have w1: "extends (splitEdge c (length ns)) es es1"
    unfolding es1_def
    by (rule extends_mono[OF webConnections_extends])
       (rule webShape_split[of cn c ctr "length ns"], simp_all add: cn_def ctr_def ns_def)
  have n2: "extends (\<lambda>u. True) (ns @ cn) ns2"
    unfolding ns2_def by (rule extends_mono[OF innocents_extends]) simp
  have len2: "length ns + 9 \<le> length ns2" using extends_length[OF n2] l by simp
  from satellites_split[OF cn_main cn_ne, of ns2 W H pad ctr es1]
  have s1: "extends (\<lambda>u. True) ns2 (fst sat)"
    and s2: "extends (\<lambda>e. edgeClusterId e = Some c \<and> length ns2 \<le> source e \<and> target e = nid (cn ! 0))
               es1 (snd (snd sat))"
    unfolding sat_def by blast+
  have s2': "extends (splitEdge c (length ns)) es1 (snd (snd sat))"
    using s2
  proof (rule extends_mono)
    fix e :: edge
    assume "edgeClusterId e = Some c \<and> length ns2 \<le> source e \<and> target e = nid (cn ! 0)"
    then have a: "edgeClusterId e = Some c" "length ns2 \<le> source e" "target e = length ns"
      unfolding id0 by simp_all
    have "\<not> source e - length ns < 9" using a(2) len2 by linarith
    then show "splitEdge c (length ns) e"
      unfolding splitEdge_def blockLabel_def using a len2 by simp
  qed
  have "extends (splitEdge c (length ns)) es (snd (snd sat))" using w1 s2' by (rule extends_trans)
  moreover have "extends (\<lambda>u. True) (ns @ cn) (fst sat)" using n2 s1 by (rule extends_trans)
  ultimately show ?thesis unfolding eq ns_def es_def cn_def by simp
qed

lemma extends_prefix: "extends Q (xs @ as) ys \<Longrightarrow> extends (\<lambda>u. True) xs ys"
  by (auto simp: extends_def list_all_iff)

lemma diameterStep_furthest:
  "extends (\<lambda>e. \<exists>a b. furthestPair cl = Some (a, b) \<and> edgeClusterId e = clusterId a
                  \<and> source e = nid a \<and> target e = nid b)
     acc (diameterStep orc acc (j, cl))"
proof (cases "furthestPair cl")
  case None
  then show ?thesis by (simp add: diameterStep_def extends_refl)
next
  case (Some ab)
  obtain a b where ab: "ab = (a, b)" by (cases ab)
  let ?Q = "\<lambda>e. \<exists>a b. furthestPair cl = Some (a, b) \<and> edgeClusterId e = clusterId a
                  \<and> source e = nid a \<and> target e = nid b"
  have "?Q (mkEdge (nid a) (nid b) True ato (clusterId a))" for ato
    unfolding mkEdge_fields using Some ab by blast
  then have "extends ?Q acc (pushIfNew acc (mkEdge (nid a) (nid b) True ato (clusterId a)))" for ato
    by (rule pushIfNew_extends)
  then show ?thesis
    using Some ab by (simp add: diameterStep_def extends_refl)
qed

lemma diameterEdges_furthest:
  "extends (\<lambda>e. \<exists>j<length cls. \<exists>a b. furthestPair (cls ! j) = Some (a, b)
                  \<and> edgeClusterId e = clusterId a \<and> source e = nid a \<and> target e = nid b)
     es (diameterEdges orc cls es)"
  unfolding diameterEdges_def
proof (rule extends_foldl)
  fix acc x assume x: "x \<in> set (enumerate 0 cls)"
  then have j: "fst x < length cls" "snd x = cls ! fst x"
    by (simp_all add: in_set_enumerate_eq)
  have "extends (\<lambda>e. \<exists>a b. furthestPair (cls ! fst x) = Some (a, b) \<and> edgeClusterId e = clusterId a
                  \<and> source e = nid a \<and> target e = nid b)
          acc (diameterStep orc acc (fst x, cls ! fst x))"
    by (rule diameterStep_furthest)
  then have "extends (\<lambda>e. \<exists>j<length cls. \<exists>a b. furthestPair (cls ! j) = Some (a, b)
                  \<and> edgeClusterId e = clusterId a \<and> source e = nid a \<and> target e = nid b)
          acc (diameterStep orc acc (fst x, cls ! fst x))"
    by (rule extends_mono) (use j(1) in blast)
  moreover have "x = (fst x, cls ! fst x)" using j(2) by (cases x) simp
  ultimately show "extends (\<lambda>e. \<exists>j<length cls. \<exists>a b. furthestPair (cls ! j) = Some (a, b)
                  \<and> edgeClusterId e = clusterId a \<and> source e = nid a \<and> target e = nid b)
          acc (diameterStep orc acc x)" by simp
qed

text \<open>
  The edges of a generated graph that carry cluster id \<open>c\<close>: those the cluster loop
  made, and at most the one edge between the two nodes of the cluster furthest apart.
\<close>

lemma generate_cluster_edges:
  assumes v: "validOracle orc"
    and e: "e \<in> set (edges (generateNetworkData orc w))" and c: "edgeClusterId e = Some c"
  shows "e \<in> set (fst (snd (clusterPhase orc w)))
       \<or> (\<exists>a b. furthestPair (muleClusters (generateNetworkData orc w) ! c) = Some (a, b)
                \<and> source e = nid a \<and> target e = nid b)"
proof -
  define g where "g = generateNetworkData orc w"
  define N where "N = length (nodes g)"
  define cls where "cls = map (map jsNode) (snd (snd (clusterPhase orc w)))"
  define low where "low = filter (\<lambda>n. \<not> isHighRisk n) (nodes g)"
  define high where "high = filter isHighRisk (nodes g)"
  have ids: "idsOk (nodes g)" unfolding g_def by (rule generate_idsOk[OF v])
  have below: "\<And>u. u \<in> set (nodes g) \<Longrightarrow> nid u < N"
    unfolding N_def using ids by (rule idsOk_mem)
  have lo: "\<And>u. u \<in> set low \<Longrightarrow> nid u < N" unfolding low_def using below by simp
  have hi: "\<And>u. u \<in> set high \<Longrightarrow> nid u < N" unfolding high_def using below by simp
  have inv: "genInv orc (width w) (height w) 3 (clusterPhase orc w)"
    by (rule clusterPhase_inv[OF v])
  have len0: "length (snd (snd (clusterPhase orc w))) = 3" using inv by (simp add: genInv_def)
  then have len: "length cls = 3" by (simp add: cls_def)
  have cid: "clusterId u = Some j" if j: "j < 3" and u: "u \<in> set (cls ! j)" for j u
  proof -
    from j len0 have "cls ! j = map jsNode (snd (snd (clusterPhase orc w)) ! j)"
      by (simp add: cls_def)
    with u have "u \<in> jsNode ` set (snd (snd (clusterPhase orc w)) ! j)" by simp
    then obtain u0 where u0: "u0 \<in> set (snd (snd (clusterPhase orc w)) ! j)" "u = jsNode u0"
      by (rule imageE)
    from inv have "\<forall>j<3. set (snd (snd (clusterPhase orc w)) ! j) \<subseteq> set (fst (clusterPhase orc w))
                 \<and> list_all (\<lambda>u. clusterId u = Some j) (snd (snd (clusterPhase orc w)) ! j)
                 \<and> 2 \<le> length (snd (snd (clusterPhase orc w)) ! j)
                 \<and> innocentsPlaced orc j (clusterPositions (width w) (height w) ! j)
                       (mainNodes (snd (snd (clusterPhase orc w))) j) (fst (clusterPhase orc w))"
      unfolding genInv_def by (elim conjE)
    with j have "list_all (\<lambda>u. clusterId u = Some j) (snd (snd (clusterPhase orc w)) ! j)"
      by simp
    with u0(1) have "clusterId u0 = Some j" by (simp add: list_all_iff)
    then show ?thesis unfolding u0(2) by (simp add: jsNode_fields)
  qed
  let ?e0 = "fst (snd (clusterPhase orc w))"
  let ?e1 = "lowRiskEdges orc low ?e0"
  let ?e2 = "longRangeEdges orc low ?e1"
  let ?e3 = "falseConnections orc low high ?e2"
  let ?e4 = "diameterEdges orc cls ?e3"
  have 1: "extends (plainEdge N) ?e0 ?e1" by (rule lowRiskEdges_extends[of low N, OF lo])
  have 2: "extends (plainEdge N) ?e1 ?e2" by (rule longRangeEdges_extends[of low N, OF lo])
  have 3: "extends (plainEdge N) ?e2 ?e3"
    by (rule falseConnections_extends[of low N high, OF lo hi])
  have 123: "extends (plainEdge N) ?e0 ?e3"
    by (rule extends_trans[OF extends_trans[OF 1 2] 3])
  have eq: "edges g = ?e4"
    unfolding g_def low_def high_def cls_def by (rule generate_edges)
  have mc: "muleClusters g = cls" unfolding g_def cls_def by (rule generate_clusters)
  from e have "e \<in> set ?e4" unfolding g_def[symmetric] eq .
  from extends_new[OF diameterEdges_furthest this]
  show ?thesis
  proof
    assume "e \<in> set ?e3"
    from extends_new[OF 123 this] c show ?thesis by (auto simp: plainEdge_def)
  next
    assume "\<exists>j<length cls. \<exists>a b. furthestPair (cls ! j) = Some (a, b)
               \<and> edgeClusterId e = clusterId a \<and> source e = nid a \<and> target e = nid b"
    then obtain j a b where j: "j < 3" and f: "furthestPair (cls ! j) = Some (a, b)"
      and k: "edgeClusterId e = clusterId a" "source e = nid a" "target e = nid b"
      unfolding len by blast
    from furthestPair_mem[OF f] have "a \<in> set (cls ! j)" by simp
    from cid[OF j this] k(1) c have "j = c" by simp
    with f k show ?thesis unfolding g_def[symmetric] mc by blast
  qed
qed

lemma clusterPhase_unroll:
  "clusterPhase orc w =
     genCluster orc (width w) (height w) (paddingOf w)
       (genCluster orc (width w) (height w) (paddingOf w)
          (genCluster orc (width w) (height w) (paddingOf w) ([], [], []) 0) 1) 2"
proof -
  have "[0..<3] = [0, 1, 2::nat]" by (simp add: numeral_3_eq_3 numeral_2_eq_2)
  then show ?thesis unfolding clusterPhase_def MULE_CLUSTERS_def by simp
qed

lemma split_cluster_edges:
  assumes e: "e \<in> set (fst (snd (clusterPhase splitSource w)))" and c: "edgeClusterId e = Some 0"
  shows "blockLabel (source e) = blockLabel (target e)"
proof -
  let ?G = "genCluster splitSource (width w) (height w) (paddingOf w)"
  define st1 where "st1 = ?G ([], [], []) 0"
  define st2 where "st2 = ?G st1 1"
  have ph: "clusterPhase splitSource w = ?G st2 2"
    unfolding clusterPhase_unroll st2_def st1_def ..
  have 1: "extends (splitEdge 0 0) [] (fst (snd st1))"
    using genCluster_split[of 0 "([], [], [])" "width w" "height w" "paddingOf w"]
    unfolding st1_def by simp
  have 2: "extends (splitEdge 1 (length (fst st1))) (fst (snd st1)) (fst (snd st2))"
    using genCluster_split[of 1 st1 "width w" "height w" "paddingOf w"]
    unfolding st2_def by simp
  have 3: "extends (splitEdge 2 (length (fst st2))) (fst (snd st2)) (fst (snd (?G st2 2)))"
    using genCluster_split[of 2 st2 "width w" "height w" "paddingOf w"] by simp
  from e have "e \<in> set (fst (snd (?G st2 2)))" unfolding ph .
  from extends_new[OF 3 this] c have "e \<in> set (fst (snd st2))"
    by (auto simp: splitEdge_def)
  from extends_new[OF 2 this] c have "e \<in> set (fst (snd st1))"
    by (auto simp: splitEdge_def)
  from extends_new[OF 1 this] have "splitEdge 0 0 e" by simp
  then show ?thesis by (simp add: splitEdge_def)
qed

lemma extends_map:
  assumes "extends Q xs ys"
  shows "extends (\<lambda>u. True) (map f xs) (map f ys)"
proof -
  from assms obtain zs where "ys = xs @ zs" unfolding extends_def by blast
  then have "map f ys = map f xs @ map f zs" by simp
  then show ?thesis unfolding extends_def by (simp add: list_all_iff)
qed

lemma split_main_nodes:
  assumes i: "i < 9"
  shows "\<exists>u\<in>set (nodes (generateNetworkData splitSource w)). clusterId u = Some 0 \<and> nid u = i"
proof -
  let ?G = "genCluster splitSource (width w) (height w) (paddingOf w)"
  define cn where
    "cn = map (clusterNode splitSource 0 (clusterPositions (width w) (height w) ! 0) 9 0) [0..<9]"
  define st1 where "st1 = ?G ([], [], []) 0"
  define st2 where "st2 = ?G st1 1"
  have ph: "clusterPhase splitSource w = ?G st2 2"
    unfolding clusterPhase_unroll st2_def st1_def ..
  have 1: "extends (\<lambda>u. True) cn (fst st1)"
    using genCluster_split[of 0 "([], [], [])" "width w" "height w" "paddingOf w"]
    unfolding st1_def cn_def by simp
  have 2: "extends (\<lambda>u. True) (fst st1) (fst st2)"
    using genCluster_split[of 1 st1 "width w" "height w" "paddingOf w"]
    unfolding st2_def by (blast intro: extends_prefix)
  have 3: "extends (\<lambda>u. True) (fst st2) (fst (clusterPhase splitSource w))"
    using genCluster_split[of 2 st2 "width w" "height w" "paddingOf w"]
    unfolding ph by (blast intro: extends_prefix)
  have 123: "extends (\<lambda>u. True) cn (fst (clusterPhase splitSource w))"
    by (rule extends_trans[OF extends_trans[OF 1 2] 3])
  have 4: "extends (\<lambda>u. True) (map jsNode (fst (clusterPhase splitSource w)))
             (nodes (generateNetworkData splitSource w))"
    by (rule extends_mono[OF generate_nodes_extends]) simp
  have all: "extends (\<lambda>u. True) (map jsNode cn) (nodes (generateNetworkData splitSource w))"
    by (rule extends_trans[OF extends_map[OF 123] 4])
  have l: "length cn = 9" "length (map jsNode cn) = 9" by (simp_all add: cn_def)
  have "i < length (nodes (generateNetworkData splitSource w))"
    using extends_length[OF all] l(2) i by linarith
  then have m: "nodes (generateNetworkData splitSource w) ! i
                  \<in> set (nodes (generateNetworkData splitSource w))" by (rule nth_mem)
  have "nodes (generateNetworkData splitSource w) ! i = map jsNode cn ! i"
    using extends_nth[OF all, of i] i l(2) by simp
  also have "map jsNode cn ! i
      = jsNode (clusterNode splitSource 0 (clusterPositions (width w) (height w) ! 0) 9 0 i)"
    using i by (simp add: cn_def)
  finally have "clusterId (nodes (generateNetworkData splitSource w) ! i) = Some 0"
    "nid (nodes (generateNetworkData splitSource w) ! i) = i"
    by (simp_all add: clusterNode_fields jsNode_fields)
  with m show ?thesis by blast
qed

lemma label_path:
  assumes "\<And>x y. (x, y) \<in> A \<Longrightarrow> lab x = lab y" and "(x, y) \<in> A\<^sup>*"
  shows "lab x = lab y"
  using assms(2) by (induction rule: rtrancl_induct) (auto dest: assms(1))

lemma split_not_connected: "\<not> clusterConnected (generateNetworkData splitSource w) 0"
proof
  let ?g = "generateNetworkData splitSource w"
  assume cc: "clusterConnected ?g 0"
  have v: "validOracle splitSource" by (rule validOracle_splitSource)
  define ends where "ends = (case furthestPair (muleClusters ?g ! 0) of
                               None \<Rightarrow> (0, 0) | Some (a, b) \<Rightarrow> (nid a, nid b))"
  define lab where "lab = (\<lambda>x. if blockLabel x = blockLabel (snd ends)
                                then blockLabel (fst ends) else blockLabel x)"
  have pres: "lab x = lab y" if "(x, y) \<in> clusterAdj ?g 0" for x y
  proof -
    from that obtain e where e: "e \<in> set (edges ?g)" "edgeClusterId e = Some 0"
      and xy: "(source e = x \<and> target e = y) \<or> (source e = y \<and> target e = x)"
      unfolding clusterAdj_def by blast
    have "lab (source e) = lab (target e)"
      using generate_cluster_edges[OF v e]
    proof
      assume "e \<in> set (fst (snd (clusterPhase splitSource w)))"
      from split_cluster_edges[OF this e(2)] show ?thesis by (simp add: lab_def)
    next
      assume "\<exists>a b. furthestPair (muleClusters ?g ! 0) = Some (a, b)
                \<and> source e = nid a \<and> target e = nid b"
      then have "ends = (source e, target e)" unfolding ends_def by auto
      then show ?thesis by (simp add: lab_def)
    qed
    with xy show ?thesis by auto
  qed
  have reach: "lab i = lab j" if "i < 9" "j < 9" for i j
  proof -
    from split_main_nodes[OF that(1), of w] obtain u where
      u: "u \<in> set (nodes ?g)" "clusterId u = Some 0" "nid u = i" by blast
    from split_main_nodes[OF that(2), of w] obtain u' where
      u': "u' \<in> set (nodes ?g)" "clusterId u' = Some 0" "nid u' = j" by blast
    from cc u u' have "(i, j) \<in> (clusterAdj ?g 0)\<^sup>*"
      unfolding clusterConnected_def by blast
    with pres show ?thesis by (rule label_path)
  qed
  have b: "blockLabel 0 = 0" "blockLabel 3 = 1" "blockLabel 6 = 2"
    by (simp_all add: blockLabel_def)
  from reach[of 0 3] reach[of 3 6] have "lab 0 = lab 3" "lab 3 = lab 6" by simp_all
  then show False unfolding lab_def b by (simp split: if_splits)
qed

text \<open>
  Claim C3 fails for a run of \<open>generateNetworkData\<close>: with the random draws of
  \<open>splitSource\<close> on an 800 by 500 canvas, the nodes of cluster 0 are not all joined by
  paths of cluster-0 edges.
\<close>

theorem cluster_connected_counterexample:
  "\<not> clusterConnected (generateNetworkData splitSource exampleWidget) 0"
  by (rule split_not_connected)

subsection \<open>A run that makes the same false connection twice\<close>

lemma validOracle_dupSource: "validOracle dupSource"
  by (simp add: validOracle_def dupSource_def)

lemma distance_ge_dx: "\<bar>x2 - x1\<bar> \<le> distance x1 y1 x2 y2"
  unfolding distance_def by (rule real_sqrt_ge_abs1)

lemma distance_less:
  assumes "\<bar>x2 - x1\<bar> \<le> a" "\<bar>y2 - y1\<bar> \<le> b" "a\<^sup>2 + b\<^sup>2 < r\<^sup>2" "0 \<le> r"
  shows "distance x1 y1 x2 y2 < r"
proof -
  have a: "0 \<le> a" "0 \<le> b" using assms(1,2) by linarith+
  have "(x2 - x1)\<^sup>2 \<le> a\<^sup>2" "(y2 - y1)\<^sup>2 \<le> b\<^sup>2"
    using assms(1,2) a by (simp_all add: power2_le_iff_abs_le)
  then have "(x2 - x1)\<^sup>2 + (y2 - y1)\<^sup>2 < r\<^sup>2" using assms(3) by linarith
  with assms(4) show ?thesis unfolding distance_def by (rule real_less_lsqrt)
qed

lemma dup_main_pos:
  "\<bar>posX (clusterNode dupSource c ctr cnt base i) - (fst ctr - 35)\<bar> \<le> 30"
  "\<bar>posY (clusterNode dupSource c ctr cnt base i) - (snd ctr - 35)\<bar> \<le> 30"
proof -
  have c: "\<bar>cos x * 30\<bar> \<le> 30" for x :: real
    using abs_cos_le_one[of x] by (simp add: abs_mult)
  have s: "\<bar>sin x * 30\<bar> \<le> 30" for x :: real
    using abs_sin_le_one[of x] by (simp add: abs_mult)
  show "\<bar>posX (clusterNode dupSource c ctr cnt base i) - (fst ctr - 35)\<bar> \<le> 30"
    using c by (simp add: clusterNode_def Let_def dupSource_def randomRange_def)
  show "\<bar>posY (clusterNode dupSource c ctr cnt base i) - (snd ctr - 35)\<bar> \<le> 30"
    using s by (simp add: clusterNode_def Let_def dupSource_def randomRange_def)
qed

lemma dup_inn_pos: "innocentPos dupSource c ctr inn = (fst ctr + 40, snd ctr - 25)"
  by (simp add: innocentPos_def Let_def dupSource_def randomRange_def)

lemma dup_not_close:
  "\<not> tooCloseToHighRisk (map (clusterNode dupSource c ctr cnt base) js) (fst ctr + 40) (snd ctr - 25)"
proof -
  have d: "35 \<le> distance (fst ctr + 40) (snd ctr - 25)
                 (posX (clusterNode dupSource c ctr cnt base i))
                 (posY (clusterNode dupSource c ctr cnt base i))" for i
  proof -
    have "45 \<le> \<bar>posX (clusterNode dupSource c ctr cnt base i) - (fst ctr + 40)\<bar>"
      using dup_main_pos(1)[of c ctr cnt base i] by linarith
    also have "\<dots> \<le> distance (fst ctr + 40) (snd ctr - 25)
                 (posX (clusterNode dupSource c ctr cnt base i))
                 (posY (clusterNode dupSource c ctr cnt base i))"
      by (rule distance_ge_dx)
    finally show ?thesis by linarith
  qed
  have "\<not> distance (fst ctr + 40) (snd ctr - 25)
                 (posX (clusterNode dupSource c ctr cnt base i))
                 (posY (clusterNode dupSource c ctr cnt base i))
               < (if isHub (clusterNode dupSource c ctr cnt base i) then 35 else 20)" for i
    using d[of i] by (simp add: not_less)
  then show ?thesis unfolding tooCloseToHighRisk_def list_ex_iff by auto
qed

lemma dup_innocents:
  "extends (\<lambda>u. True)
     (ns @ [innocentNode dupSource c 0 (length ns) (fst ctr + 40, snd ctr - 25)])
     (innocents dupSource c ctr (map (clusterNode dupSource c ctr cnt base) js) ns)"
proof -
  let ?cn = "map (clusterNode dupSource c ctr cnt base) js"
  have n: "nat \<lfloor>randomRange (rnd dupSource InnCount [c]) 3 6\<rfloor> = 3"
    by (simp add: dupSource_def randomRange_def)
  have u: "[0..<3] = 0 # [1..<3]" by (simp add: upt_conv_Cons)
  have s0: "innocentStep dupSource c ctr ?cn ns 0
              = ns @ [innocentNode dupSource c 0 (length ns) (fst ctr + 40, snd ctr - 25)]"
    unfolding innocentStep_def Let_def dup_inn_pos using dup_not_close[of c ctr cnt base js]
    by simp
  have "extends (\<lambda>u. True) (innocentStep dupSource c ctr ?cn ns 0)
          (foldl (innocentStep dupSource c ctr ?cn) (innocentStep dupSource c ctr ?cn ns 0) [1..<3])"
    by (rule extends_foldl) (rule innocentStep_grows)
  then show ?thesis unfolding innocents_def n u foldl_Cons s0 .
qed

lemma satellites_nodes_extends:
  "extends (\<lambda>u. True) (fst st) (fst (satellites orc W H pad c ctr st))"
  unfolding satellites_def
proof (rule foldl_invariant)
  show "extends (\<lambda>u. True) (fst st) (fst st)" by (rule extends_refl)
next
  fix a :: "node list \<times> node list \<times> edge list" and x
  assume "extends (\<lambda>u. True) (fst st) (fst a)"
  moreover have "extends (\<lambda>u. True) (fst a) (fst (satelliteStep orc W H pad c ctr a x))"
    by (simp add: satelliteStep_def Let_def extends_snoc)
  ultimately show "extends (\<lambda>u. True) (fst st) (fst (satelliteStep orc W H pad c ctr a x))"
    by (rule extends_trans)
qed

lemma genCluster_nodes_extends:
  "extends (\<lambda>u. True) (fst st) (fst (genCluster orc W H pad st c))"
proof -
  define cnt where "cnt = \<lfloor>randomRange (rnd orc ClusterCount [c]) NODES_PER_CLUSTER_MIN (NODES_PER_CLUSTER_MAX + 1)\<rfloor>"
  define cn where "cn = map (clusterNode orc c (clusterPositions W H ! c) cnt (length (fst st))) [0..<nat cnt]"
  define ns2 where "ns2 = innocents orc c (clusterPositions W H ! c) cn (fst st @ cn)"
  define es2 where "es2 = crossConnections orc c cn (webConnections orc c cn (fst (snd st)))"
  have eq: "fst (genCluster orc W H pad st c)
              = fst (satellites orc W H pad c (clusterPositions W H ! c) (ns2, cn, es2))"
    by (simp add: genCluster_def Let_def cnt_def cn_def ns2_def es2_def)
  have "extends (\<lambda>u. True) (fst st @ cn) ns2"
    unfolding ns2_def by (rule extends_mono[OF innocents_extends]) simp
  then have 1: "extends (\<lambda>u. True) (fst st) ns2" by (rule extends_prefix)
  have 2: "extends (\<lambda>u. True) ns2 (fst (satellites orc W H pad c (clusterPositions W H ! c) (ns2, cn, es2)))"
    using satellites_nodes_extends[of "(ns2, cn, es2)"] by simp
  from 1 2 show ?thesis unfolding eq by (rule extends_trans)
qed

lemma dup_first_cluster:
  "extends (\<lambda>u. True)
     (map (clusterNode dupSource 0 (clusterPositions W H ! 0) 8 0) [0..<8]
        @ [innocentNode dupSource 0 0 8
             (fst (clusterPositions W H ! 0) + 40, snd (clusterPositions W H ! 0) - 25)])
     (fst (genCluster dupSource W H pad ([], [], []) 0))"
proof -
  define ctr where "ctr = clusterPositions W H ! 0"
  define cn where "cn = map (clusterNode dupSource 0 ctr 8 0) [0..<8]"
  define ns2 where "ns2 = innocents dupSource 0 ctr cn cn"
  define es2 where "es2 = crossConnections dupSource 0 cn (webConnections dupSource 0 cn [])"
  have cnt: "\<lfloor>randomRange (rnd dupSource ClusterCount [0]) NODES_PER_CLUSTER_MIN (NODES_PER_CLUSTER_MAX + 1)\<rfloor> = 8"
    by (simp add: dupSource_def randomRange_def NODES_PER_CLUSTER_MIN_def NODES_PER_CLUSTER_MAX_def)
  have n8: "nat 8 = (8::nat)" by simp
  have eq: "fst (genCluster dupSource W H pad ([], [], []) 0)
              = fst (satellites dupSource W H pad 0 ctr (ns2, cn, es2))"
    unfolding genCluster_def Let_def cnt n8
    by (simp add: ctr_def cn_def ns2_def es2_def)
  have l: "length cn = 8" by (simp add: cn_def)
  have 1: "extends (\<lambda>u. True) (cn @ [innocentNode dupSource 0 0 8 (fst ctr + 40, snd ctr - 25)]) ns2"
    using dup_innocents[of cn 0 ctr 8 0 "[0..<8]"] unfolding ns2_def cn_def[symmetric] l .
  have 2: "extends (\<lambda>u. True) ns2 (fst (satellites dupSource W H pad 0 ctr (ns2, cn, es2)))"
    using satellites_nodes_extends[of "(ns2, cn, es2)"] by simp
  from 1 2 show ?thesis unfolding eq ctr_def[symmetric] cn_def[symmetric] by (rule extends_trans)
qed

lemma dup_nodes:
  "extends (\<lambda>u. True)
     (map jsNode
        (map (clusterNode dupSource 0 (clusterPositions (width w) (height w) ! 0) 8 0) [0..<8]
           @ [innocentNode dupSource 0 0 8
                (fst (clusterPositions (width w) (height w) ! 0) + 40,
                 snd (clusterPositions (width w) (height w) ! 0) - 25)]))
     (nodes (generateNetworkData dupSource w))"
proof -
  let ?G = "genCluster dupSource (width w) (height w) (paddingOf w)"
  have 1: "extends (\<lambda>u. True) (fst (?G ([], [], []) 0)) (fst (?G (?G ([], [], []) 0) 1))"
    by (rule genCluster_nodes_extends)
  have 2: "extends (\<lambda>u. True) (fst (?G (?G ([], [], []) 0) 1)) (fst (clusterPhase dupSource w))"
    unfolding clusterPhase_unroll by (rule genCluster_nodes_extends)
  have 3: "extends (\<lambda>u. True) (map jsNode (fst (clusterPhase dupSource w)))
             (nodes (generateNetworkData dupSource w))"
    by (rule extends_mono[OF generate_nodes_extends]) simp
  note 0 = dup_first_cluster[of "width w" "height w" "paddingOf w"]
  show ?thesis
    by (rule extends_trans[OF extends_map[OF extends_trans[OF extends_trans[OF 0 1] 2]] 3])
qed

lemma dup_false_pair:
  fixes w :: widget
  defines "hub \<equiv> clusterNode dupSource 0 (clusterPositions (width w) (height w) ! 0) 8 0 0"
    and "inn \<equiv> innocentNode dupSource 0 0 8
             (fst (clusterPositions (width w) (height w) ! 0) + 40,
              snd (clusterPositions (width w) (height w) ! 0) - 25)"
  shows "\<exists>ls hs. filter (\<lambda>n. \<not> isHighRisk n) (nodes (generateNetworkData dupSource w))
                   = jsNode inn # ls
              \<and> filter isHighRisk (nodes (generateNetworkData dupSource w)) = jsNode hub # hs"
proof -
  let ?ctr = "clusterPositions (width w) (height w) ! 0"
  let ?cn = "map (clusterNode dupSource 0 ?ctr 8 0) [0..<8]"
  from dup_nodes[of w] obtain zs where
    "nodes (generateNetworkData dupSource w) = map jsNode (?cn @ [inn]) @ zs"
    unfolding extends_def inn_def by blast
  then have z: "nodes (generateNetworkData dupSource w)
                  = (map jsNode ?cn @ [jsNode inn]) @ zs" by simp
  have h: "filter isHighRisk (map jsNode ?cn) = map jsNode ?cn"
    "filter (\<lambda>n. \<not> isHighRisk n) (map jsNode ?cn) = []"
    by (simp_all add: filter_map o_def clusterNode_fields jsNode_fields)
  have i: "\<not> isHighRisk (jsNode inn)" by (simp add: inn_def innocentNode_fields jsNode_fields)
  have u: "[0..<8] = 0 # [1..<8]" by (simp add: upt_conv_Cons)
  have c: "map jsNode ?cn = jsNode hub # map jsNode (map (clusterNode dupSource 0 ?ctr 8 0) [1..<8])"
    unfolding hub_def u by simp
  have "filter (\<lambda>n. \<not> isHighRisk n) (nodes (generateNetworkData dupSource w))
          = jsNode inn # filter (\<lambda>n. \<not> isHighRisk n) zs"
    unfolding z filter_append h using i by simp
  moreover have "filter isHighRisk (nodes (generateNetworkData dupSource w))
          = jsNode hub # (map jsNode (map (clusterNode dupSource 0 ?ctr 8 0) [1..<8])
                            @ filter isHighRisk zs)"
    unfolding z filter_append h using i c by simp
  ultimately show ?thesis by blast
qed

lemma dup_pair_distance:
  "distance (posX (innocentNode dupSource c inn k (fst ctr + 40, snd ctr - 25)))
            (posY (innocentNode dupSource c inn k (fst ctr + 40, snd ctr - 25)))
            (posX (clusterNode dupSource c' ctr cnt base i))
            (posY (clusterNode dupSource c' ctr cnt base i)) < 150"
proof (rule distance_less[where a = 105 and b = 40])
  show "\<bar>posX (clusterNode dupSource c' ctr cnt base i)
          - posX (innocentNode dupSource c inn k (fst ctr + 40, snd ctr - 25))\<bar> \<le> 105"
    using dup_main_pos(1)[of c' ctr cnt base i] by (simp add: innocentNode_def)
  show "\<bar>posY (clusterNode dupSource c' ctr cnt base i)
          - posY (innocentNode dupSource c inn k (fst ctr + 40, snd ctr - 25))\<bar> \<le> 40"
    using dup_main_pos(2)[of c' ctr cnt base i] by (simp add: innocentNode_def)
qed simp_all

lemma jsNode_close:
  assumes "distance (posX l) (posY l) (posX h) (posY h) < 150"
  shows "jsLess (jsDistance (posX (jsNode l)) (posY (jsNode l)) (posX (jsNode h)) (posY (jsNode h)))
           (Fin 150)"
  unfolding jsNode_fields jsDistance_Fin using assms by simp

lemma falseStep_first:
  assumes "rnd orc FalseLow [i] = 0" "rnd orc FalseHigh [i] = 0"
    and "jsLess (jsDistance (posX l) (posY l) (posX h) (posY h)) (Fin 150)"
  shows "falseStep orc (l # ls) (h # hs) acc i = acc @ [mkEdge (nid l) (nid h) False None None]"
  unfolding falseStep_def assms(1,2) using assms(3) by (simp add: nthOpt_def)

lemma falseStep_grows: "extends (\<lambda>e. True) acc (falseStep orc low high acc i)"
proof (cases "nthOpt low \<lfloor>rnd orc FalseLow [i] * real (length low)\<rfloor>")
  case None
  then show ?thesis by (simp add: falseStep_def extends_refl)
next
  case a: (Some lowRisk)
  show ?thesis
  proof (cases "nthOpt high \<lfloor>rnd orc FalseHigh [i] * real (length high)\<rfloor>")
    case None
    then show ?thesis using a by (simp add: falseStep_def extends_refl)
  next
    case b: (Some highRisk)
    show ?thesis using a b by (simp add: falseStep_def extends_refl extends_snoc)
  qed
qed

lemma falseConnections_twice:
  assumes "\<And>i. rnd orc FalseLow [i] = 0" "\<And>i. rnd orc FalseHigh [i] = 0"
    and "jsLess (jsDistance (posX l) (posY l) (posX h) (posY h)) (Fin 150)"
  shows "extends (\<lambda>e. True)
           (es @ [mkEdge (nid l) (nid h) False None None, mkEdge (nid l) (nid h) False None None])
           (falseConnections orc (l # ls) (h # hs) es)"
proof -
  let ?f = "falseStep orc (l # ls) (h # hs)"
  let ?e = "mkEdge (nid l) (nid h) False None None"
  have u: "[0..<25] = 0 # 1 # [2..<25]" by (simp add: upt_conv_Cons)
  have s: "?f acc i = acc @ [?e]" for acc i
    using assms by (rule falseStep_first)
  have "extends (\<lambda>e. True) ((es @ [?e]) @ [?e]) (foldl ?f ((es @ [?e]) @ [?e]) [2..<25])"
    by (rule extends_foldl) (rule falseStep_grows)
  then show ?thesis unfolding falseConnections_def u foldl_Cons s by simp
qed

lemma extends_twice_not_distinct:
  assumes "extends Q (xs @ [e, e]) ys"
  shows "\<not> distinct (map f ys)"
proof -
  from assms obtain zs where "ys = (xs @ [e, e]) @ zs" unfolding extends_def by blast
  then show ?thesis by simp
qed

lemma dup_edges: "\<not> noDuplicateEdges (edges (generateNetworkData dupSource w))"
proof -
  let ?g = "generateNetworkData dupSource w"
  let ?ctr = "clusterPositions (width w) (height w) ! 0"
  define hub where "hub = clusterNode dupSource 0 ?ctr 8 0 0"
  define inn where "inn = innocentNode dupSource 0 0 8 (fst ?ctr + 40, snd ?ctr - 25)"
  from dup_false_pair[of w] obtain ls hs where
    lo: "filter (\<lambda>n. \<not> isHighRisk n) (nodes ?g) = jsNode inn # ls"
    and hi: "filter isHighRisk (nodes ?g) = jsNode hub # hs"
    unfolding hub_def inn_def by blast
  have "distance (posX inn) (posY inn) (posX hub) (posY hub) < 150"
    unfolding hub_def inn_def by (rule dup_pair_distance)
  then have d: "jsLess (jsDistance (posX (jsNode inn)) (posY (jsNode inn))
                          (posX (jsNode hub)) (posY (jsNode hub))) (Fin 150)"
    by (rule jsNode_close)
  let ?e = "mkEdge (nid (jsNode inn)) (nid (jsNode hub)) False None None"
  let ?e3 = "longRangeEdges dupSource (jsNode inn # ls)
               (lowRiskEdges dupSource (jsNode inn # ls) (fst (snd (clusterPhase dupSource w))))"
  have r: "rnd dupSource FalseLow [i] = 0" "rnd dupSource FalseHigh [i] = 0" for i
    by (simp_all add: dupSource_def)
  have 1: "extends (\<lambda>e. True) (?e3 @ [?e, ?e])
             (falseConnections dupSource (jsNode inn # ls) (jsNode hub # hs) ?e3)"
    using r d by (rule falseConnections_twice)
  have 2: "extends (\<lambda>e. True) (falseConnections dupSource (jsNode inn # ls) (jsNode hub # hs) ?e3)
             (edges ?g)"
    unfolding generate_edges[of dupSource w] lo hi
    by (rule extends_mono[OF diameterEdges_furthest]) simp
  from 1 2 have "extends (\<lambda>e. True) (?e3 @ [?e, ?e]) (edges ?g)" by (rule extends_trans)
  then show ?thesis unfolding noDuplicateEdges_def by (rule extends_twice_not_distinct)
qed

text \<open>
  Claim C1 at a run of the code. With the random draws of \<open>dupSource\<close> on an 800 by
  500 canvas the loop of false connections pushes the edge between the first innocent
  node (id 8) and the hub of cluster 0 (id 0) in each of its iterations, and the edge
  list of the generated graph holds that pair more than once.
\<close>

theorem false_connections_duplicate:
  "\<not> noDuplicateEdges (edges (generateNetworkData dupSource exampleWidget))"
  by (rule dup_edges)
end
